(* ===== verification/Prelude.thy ===== *)
theory Prelude
  imports "HOL-Library.Word" "HOL-Library.Monad_Syntax"
begin

text \<open>
  Shared vocabulary of the development.

  \<^item> The widths the C++ sources use (\<open>uint8_t\<close> to \<open>uint64_t\<close>) as type synonyms for words,
    on which \<open>+\<close>, \<open>-\<close> and \<open>*\<close> wrap around as the unsigned C types do.
  \<^item> Arrays as lists with checked access: \<open>mem_get\<close> and \<open>mem_set\<close> return \<open>None\<close> where the
    source would read or write outside the array, which is undefined behaviour in C++.
    A model that returns \<open>Some\<close> has therefore made no such access.
  \<^item> The contents of a circular array as a list (\<open>ring_slice\<close>) and the lemmas on word
    arithmetic modulo the width that the ring components share.
\<close>

unbundle bit_operations_syntax

named_theorems mem_simps \<open>evaluation of checked array accesses\<close>
named_theorems ring_intros \<open>introduction rules for the ring invariants\<close>

type_synonym u8 = "8 word"
type_synonym u16 = "16 word"
type_synonym u32 = "32 word"
type_synonym u64 = "64 word"

section \<open>Arrays with checked access\<close>

definition mem_get :: "'a list \<Rightarrow> nat \<Rightarrow> 'a option" where
  "mem_get xs i = (if i < length xs then Some (xs ! i) else None)"

definition mem_set :: "'a list \<Rightarrow> nat \<Rightarrow> 'a \<Rightarrow> 'a list option" where
  "mem_set xs i v = (if i < length xs then Some (xs[i := v]) else None)"

lemma mem_get_in [mem_simps]: "i < length xs \<Longrightarrow> mem_get xs i = Some (xs ! i)"
  by (simp add: mem_get_def)

lemma mem_get_out [mem_simps]: "length xs \<le> i \<Longrightarrow> mem_get xs i = None"
  by (simp add: mem_get_def)

lemma mem_set_in [mem_simps]: "i < length xs \<Longrightarrow> mem_set xs i v = Some (xs[i := v])"
  by (simp add: mem_set_def)

lemma mem_set_out [mem_simps]: "length xs \<le> i \<Longrightarrow> mem_set xs i v = None"
  by (simp add: mem_set_def)

lemma mem_get_Some_iff: "mem_get xs i = Some v \<longleftrightarrow> i < length xs \<and> v = xs ! i"
  by (auto simp: mem_get_def)

lemma mem_set_Some_iff: "mem_set xs i v = Some ys \<longleftrightarrow> i < length xs \<and> ys = xs[i := v]"
  by (auto simp: mem_set_def)

text \<open>
  \<^verbatim>\<open>memcpy\<close> of \<open>n\<close> elements from position \<open>s\<close> of one array to position \<open>d\<close> of another.
\<close>

definition memcpy :: "'a list \<Rightarrow> nat \<Rightarrow> 'a list \<Rightarrow> nat \<Rightarrow> nat \<Rightarrow> 'a list option" where
  "memcpy dst d src s n =
     (if d + n \<le> length dst \<and> s + n \<le> length src
      then Some (take d dst @ take n (drop s src) @ drop (d + n) dst) else None)"

lemma memcpy_in [mem_simps]:
  "d + n \<le> length dst \<Longrightarrow> s + n \<le> length src \<Longrightarrow>
   memcpy dst d src s n = Some (take d dst @ take n (drop s src) @ drop (d + n) dst)"
  by (simp add: memcpy_def)

lemma memcpy_out [mem_simps]: "length src < s + n \<Longrightarrow> memcpy dst d src s n = None"
  by (simp add: memcpy_def)

section \<open>Word arithmetic\<close>

lemma unat_less_exp32: "unat (x :: u32) < 4294967296"
  using unsigned_less [of x, where ?'a = nat] by simp

lemma unat_of_nat32: "n < 4294967296 \<Longrightarrow> unat (of_nat n :: u32) = n"
  by (simp add: unat_of_nat)

lemma unat_exp32: "k < 32 \<Longrightarrow> unat ((2 :: u32) ^ k) = 2 ^ k"
  using unat_of_nat32 [of "2 ^ k"] power_strict_increasing [of k 32 "2 :: nat"] by simp

lemma unat_add_no_wrap:
  "unat (x :: u32) + unat y < 4294967296 \<Longrightarrow> unat (x + y) = unat x + unat y"
  by (simp add: unat_word_ariths)

lemma unat_inc: "(i :: u32) < n \<Longrightarrow> unat (i + 1) = Suc (unat i)"
  using unat_less_exp32 [of n] by (simp add: unat_add_no_wrap word_less_nat_alt)

lemma unat_sub_mod: "unat ((x :: u32) - y) = (unat x + 4294967296 - unat y) mod 4294967296"
proof -
  have "unat (x - y) = (unat x + (4294967296 - unat y)) mod 4294967296"
    by (simp add: unat_sub_if' ) (use unat_less_exp32 [of x] unat_less_exp32 [of y] in
      \<open>auto simp: not_le mod_if\<close>)
  then show ?thesis using unat_less_exp32 [of y] by simp
qed

lemma unat_and_mask: "unat (x AND mask k :: 'a::len word) = unat x mod 2 ^ k"
  by (metis take_bit_eq_mask take_bit_eq_mod unsigned_take_bit_eq)

section \<open>Circular arrays\<close>

text \<open>
  \<open>ring_slice xs s n\<close> reads \<open>n\<close> consecutive slots of the circular array \<open>xs\<close> from position
  \<open>s\<close>; \<open>ring_put xs h ys\<close> overwrites \<open>length ys\<close> consecutive slots from position \<open>h\<close>.
\<close>

definition ring_slice :: "'a list \<Rightarrow> nat \<Rightarrow> nat \<Rightarrow> 'a list" where
  "ring_slice xs s n = map (\<lambda>k. xs ! ((s + k) mod length xs)) [0..<n]"

definition ring_dist :: "nat \<Rightarrow> nat \<Rightarrow> nat \<Rightarrow> nat" where
  "ring_dist sz h j = (j + sz - h) mod sz"

definition ring_put :: "'a list \<Rightarrow> nat \<Rightarrow> 'a list \<Rightarrow> 'a list" where
  "ring_put xs h ys =
     map (\<lambda>j. let d = ring_dist (length xs) h j in if d < length ys then ys ! d else xs ! j)
       [0..<length xs]"

lemma length_ring_slice [simp]: "length (ring_slice xs s n) = n"
  by (simp add: ring_slice_def)

lemma length_ring_put [simp]: "length (ring_put xs h ys) = length xs"
  by (simp add: ring_put_def)

lemma ring_slice_0 [simp]: "ring_slice xs s 0 = []"
  by (simp add: ring_slice_def)

lemma nth_ring_slice: "k < n \<Longrightarrow> ring_slice xs s n ! k = xs ! ((s + k) mod length xs)"
  by (simp add: ring_slice_def)

lemma nth_ring_put:
  "j < length xs \<Longrightarrow>
   ring_put xs h ys ! j = (let d = ring_dist (length xs) h j in if d < length ys then ys ! d else xs ! j)"
  by (simp add: ring_put_def Let_def)

lemma ring_put_nil [simp]: "ring_put xs h [] = xs"
  by (rule nth_equalityI) (simp_all add: nth_ring_put)

lemma ring_slice_mod: "ring_slice xs (s mod length xs) n = ring_slice xs s n"
  by (simp add: ring_slice_def mod_add_left_eq)

lemma take_ring_slice: "k \<le> n \<Longrightarrow> take k (ring_slice xs s n) = ring_slice xs s k"
  by (simp add: ring_slice_def take_map)

lemma drop_ring_slice: "drop k (ring_slice xs s n) = ring_slice xs (s + k) (n - k)"
  by (rule nth_equalityI) (simp_all add: nth_ring_slice ac_simps)

lemma ring_slice_append:
  "ring_slice xs s (m + n) = ring_slice xs s m @ ring_slice xs (s + m) n"
  by (rule nth_equalityI) (auto simp: nth_ring_slice nth_append)

lemma ring_slice_contiguous: "s + n \<le> length xs \<Longrightarrow> ring_slice xs s n = take n (drop s xs)"
  by (rule nth_equalityI) (auto simp: nth_ring_slice)

lemma ring_dist_int:
  assumes "h < sz"
  shows "int (ring_dist sz h j) = (int j - int h) mod int sz"
proof -
  have "int (ring_dist sz h j) = (int j + int sz - int h) mod int sz"
    using assms by (simp add: ring_dist_def of_nat_mod of_nat_diff)
  also have "\<dots> = (int j - int h) mod int sz"
    by (metis add.commute add_diff_eq mod_add_self1)
  finally show ?thesis .
qed

lemma ring_dist_less [simp]: "0 < sz \<Longrightarrow> ring_dist sz h j < sz"
  by (simp add: ring_dist_def)

lemma ring_dist_ahead:
  assumes "0 < sz" "i < sz"
  shows "ring_dist sz (s mod sz) ((s + i) mod sz) = i"
proof -
  have "int (ring_dist sz (s mod sz) ((s + i) mod sz)) =
    (int (s + i) mod int sz - int s mod int sz) mod int sz"
    using assms by (simp add: ring_dist_int of_nat_mod)
  also have "\<dots> = int i" using assms by (simp add: mod_diff_eq)
  finally show ?thesis by simp
qed

lemma ring_dist_behind:
  assumes "0 < i" "i \<le> k" "k \<le> sz" "i < sz"
  shows "ring_dist sz ((s + k) mod sz) ((s + (k - i)) mod sz) = sz - i"
proof -
  have "int (ring_dist sz ((s + k) mod sz) ((s + (k - i)) mod sz)) =
    (int (s + (k - i)) - int (s + k)) mod int sz"
    using assms by (simp add: ring_dist_int of_nat_mod mod_diff_eq)
  also have "int (s + (k - i)) - int (s + k) = - int i" using assms by simp
  also have "(- int i) mod int sz = int sz - int i"
    using assms by (simp add: zmod_zminus1_eq_if)
  finally show ?thesis using assms by linarith
qed

lemma ring_slice_put_same:
  assumes "0 < length xs" "length ys \<le> length xs"
  shows "ring_slice (ring_put xs (s mod length xs) ys) s (length ys) = ys"
  using assms by (intro nth_equalityI) (auto simp: nth_ring_slice nth_ring_put ring_dist_ahead)

lemma ring_slice_put_other:
  assumes "n + length ys \<le> length xs"
  shows "ring_slice (ring_put xs ((s + n) mod length xs) ys) s n = ring_slice xs s n"
proof (rule nth_equalityI)
  fix k
  assume "k < length (ring_slice (ring_put xs ((s + n) mod length xs) ys) s n)"
  then have k: "k < n" by simp
  then have "0 < length xs" using assms by linarith
  then have lt: "(s + k) mod length xs < length xs" by (rule mod_less_divisor)
  show "ring_slice (ring_put xs ((s + n) mod length xs) ys) s n ! k = ring_slice xs s n ! k"
  proof (cases "ys = []")
    case True
    then show ?thesis using k lt by (simp add: nth_ring_slice nth_ring_put)
  next
    case False
    then have "ring_dist (length xs) ((s + n) mod length xs) ((s + k) mod length xs)
      = length xs - (n - k)"
      using ring_dist_behind [of "n - k" n "length xs" s] k assms by (cases ys) auto
    moreover have "\<not> length xs - (n - k) < length ys" using k assms by linarith
    ultimately show ?thesis using k lt by (simp add: nth_ring_slice nth_ring_put Let_def)
  qed
qed simp

lemma ring_slice_put_append:
  assumes "0 < length xs" "n + length ys \<le> length xs"
  shows "ring_slice (ring_put xs ((s + n) mod length xs) ys) s (n + length ys) = ring_slice xs s n @ ys"
  using assms by (simp add: ring_slice_append ring_slice_put_other ring_slice_put_same)

lemma ring_dist_eval:
  "h < sz \<Longrightarrow> j < sz \<Longrightarrow> ring_dist sz h j = (if h \<le> j then j - h else j + sz - h)"
  by (auto simp: ring_dist_def mod_if)

lemma ring_put_straight:
  assumes "h + length ys \<le> length xs" "h < length xs"
  shows "ring_put xs h ys = take h xs @ ys @ drop (h + length ys) xs"
  using assms by (intro nth_equalityI) (auto simp: nth_ring_put ring_dist_eval nth_append Let_def ac_simps)

lemma ring_put_wrap:
  assumes "length xs \<le> h + length ys" "h < length xs" "length ys \<le> length xs"
  shows "ring_put xs h ys =
    drop (length xs - h) ys @ drop (h + length ys - length xs) (take h xs) @ take (length xs - h) ys"
  using assms by (intro nth_equalityI) (auto simp: nth_ring_put ring_dist_eval nth_append Let_def ac_simps)

lemma ring_slice_wrap:
  assumes "length xs \<le> h + n" "h < length xs" "n \<le> length xs"
  shows "ring_slice xs h n = drop h xs @ take (n - (length xs - h)) xs"
  using assms by (intro nth_equalityI) (auto simp: nth_ring_slice nth_append mod_if ac_simps)

lemma length_by_class:
  "\<forall>p. g p < (n::nat) \<Longrightarrow> length ps = (\<Sum>i < n. length (filter (\<lambda>p. g p = i) ps))"
proof (induction ps)
  case (Cons p ps)
  have "(\<Sum>i < n. length (filter (\<lambda>q. g q = i) (p # ps))) =
      (\<Sum>i < n. (if i = g p then 1 else 0) + length (filter (\<lambda>q. g q = i) ps))"
    by (intro sum.cong) auto
  also have "\<dots> = 1 + length ps" using Cons by (simp add: sum.distrib)
  finally show ?case by simp
qed simp

end
