(* ===== verification/Pow2.thy ===== *)
theory Pow2
  imports Prelude
begin

text \<open>
  The power-of-two helpers of \<^verbatim>\<open>buffer_ring.h\<close> (and their copies in \<^verbatim>\<open>ring_buffer.h\<close>), which fix
  the size of every ring. \<open>RoundupPowerOf2\<close> counts the bits of its argument in a loop on a
  signed \<open>int\<close>; \<open>>>\<close> on a negative \<open>int\<close> is the arithmetic shift of the compilers the
  build files name, so the loop is a \<open>partial_function\<close> with the value \<open>None\<close> where it does
  not end.
\<close>

definition IsPowerOf2 :: "u32 \<Rightarrow> bool" where
  "IsPowerOf2 n \<longleftrightarrow> n \<noteq> 0 \<and> (n AND (n - 1)) = 0"

text \<open>\<^verbatim>\<open>for (i = a; i != 0; i >>= 1) position++;\<close> The 32-bit pattern of the signed \<open>i\<close>.\<close>

partial_function (option) position_loop :: "u32 \<Rightarrow> u32 \<Rightarrow> u32 option" where
  "position_loop i position =
     (if i = 0 then Some position else position_loop (signed_drop_bit 1 i) (position + 1))"

definition RoundupPowerOf2 :: "u32 \<Rightarrow> u32 option" where
  "RoundupPowerOf2 a =
     (if IsPowerOf2 a then Some a
      else do { position \<leftarrow> position_loop a 0; Some (push_bit (unat position) 1) })"

section \<open>The power-of-two test\<close>

lemma unat_bit_top:
  fixes w :: u32
  assumes "2 ^ k \<le> unat w" "unat w < 2 ^ Suc k"
  shows "bit w k"
proof -
  have "unat w div 2 ^ k = 1"
    using assms by (intro div_nat_eqI) auto
  then have "bit (unat w) k" by (simp add: bit_iff_odd)
  then show ?thesis by (simp add: bit_unsigned_iff)
qed

lemma nat_top_bit: "0 < n \<Longrightarrow> \<exists>k. 2 ^ k \<le> n \<and> n < (2::nat) ^ Suc k"
  using ex_power_ivl1 [of 2 n] by auto

lemma and_pred_exp:
  assumes "k < 32" "unat (n :: u32) = 2 ^ k"
  shows "n AND (n - 1) = 0"
proof -
  have n: "n = 2 ^ k"
    using assms unat_exp32 by (metis word_unat_eq_iff)
  have "n - 1 = mask k" by (simp add: n mask_eq_decr_exp)
  then have "n AND (n - 1) = take_bit k n" by (simp add: take_bit_eq_mask)
  also have "\<dots> = 0" by (rule bit_word_eqI) (simp add: n bit_simps)
  finally show ?thesis .
qed

lemma IsPowerOf2_iff: "IsPowerOf2 n \<longleftrightarrow> (\<exists>k<32. unat n = 2 ^ k)"
proof
  assume p: "IsPowerOf2 n"
  then have "0 < unat n" by (simp add: IsPowerOf2_def unat_gt_0)
  then obtain k where k: "2 ^ k \<le> unat n" "unat n < 2 ^ Suc k"
    using nat_top_bit by blast
  have "k < 32"
    using k(1) unat_less_exp32 [of n] power_less_imp_less_exp [of "2 :: nat" k 32] by simp
  moreover have "unat n = 2 ^ k"
  proof (rule ccontr)
    assume "unat n \<noteq> 2 ^ k"
    with k have "2 ^ k \<le> unat n - 1" "unat n - 1 < 2 ^ Suc k" by auto
    moreover have "unat (n - 1) = unat n - 1"
      using \<open>0 < unat n\<close> by (simp add: unat_minus_one unat_gt_0)
    ultimately have "bit (n - 1) k" by (intro unat_bit_top) auto
    moreover have "bit n k" using k by (rule unat_bit_top)
    ultimately have "bit (n AND (n - 1)) k" by (simp add: bit_simps)
    with p show False by (simp add: IsPowerOf2_def)
  qed
  ultimately show "\<exists>k<32. unat n = 2 ^ k" by blast
next
  assume "\<exists>k<32. unat n = 2 ^ k"
  then show "IsPowerOf2 n"
    using and_pred_exp by (auto simp: IsPowerOf2_def)
qed

section \<open>The bit-counting loop\<close>

lemma bit31_iff: "bit (i :: u32) 31 \<longleftrightarrow> 2147483648 \<le> unat i"
proof
  assume "bit i 31"
  then have "bit (unat i) 31" by (simp add: bit_unsigned_iff)
  then have "odd (unat i div 2147483648)" by (simp add: bit_iff_odd)
  then show "2147483648 \<le> unat i" by (metis div_less even_zero not_le)
next
  assume "2147483648 \<le> unat i"
  then show "bit i 31" using unat_bit_top [of 31 i] unat_less_exp32 [of i] by simp
qed

lemma shift_nonneg: "\<not> bit (i :: u32) 31 \<Longrightarrow> unat (signed_drop_bit 1 i) = unat i div 2"
proof -
  assume nn: "\<not> bit i 31"
  have "signed_drop_bit 1 i = drop_bit 1 i"
  proof (rule bit_word_eqI)
    fix n :: nat
    assume "n < LENGTH(32)"
    then show "bit (signed_drop_bit 1 i) n = bit (drop_bit 1 i) n"
      using nn bit_imp_le_length [of i "Suc n"] by (cases "n = 31") (auto simp: bit_simps)
  qed
  then have "unat (signed_drop_bit 1 i) = drop_bit 1 (unat i)" by (simp only: unat_drop_bit_eq)
  then show ?thesis by (simp add: drop_bit_eq_div)
qed

lemma shift_sign: "bit (signed_drop_bit 1 (i :: u32)) 31 \<longleftrightarrow> bit i 31"
  by (simp add: bit_simps)

lemma position_loop_nonneg:
  assumes "unat i < 2147483648"
  shows "\<exists>b\<le>31. position_loop i p = Some (p + of_nat b) \<and> unat i < 2 ^ b \<and>
    (2 ^ b \<le> 2 * unat i \<or> i = 0 \<and> b = 0)"
  using assms
proof (induction "unat i" arbitrary: i p rule: less_induct)
  case less
  show ?case
  proof (cases "i = 0")
    case True
    then show ?thesis by (intro exI [of _ 0]) (simp add: position_loop.simps)
  next
    case False
    let ?j = "signed_drop_bit 1 i"
    have j: "unat ?j = unat i div 2"
      using less.prems by (intro shift_nonneg) (simp add: bit31_iff)
    have pos: "0 < unat i" using False by (simp add: unat_gt_0)
    obtain b where b: "b \<le> 31" "position_loop ?j (p + 1) = Some (p + 1 + of_nat b)"
      "unat ?j < 2 ^ b" "2 ^ b \<le> 2 * unat ?j \<or> ?j = 0 \<and> b = 0"
      using less.hyps [of ?j "p + 1"] less.prems pos j by auto
    have lo: "2 ^ Suc b \<le> 2 * unat i" using b(4) j pos by auto
    then have "(2 :: nat) ^ Suc b < 2 ^ 32" using less.prems by simp
    then have "Suc b \<le> 31" by (simp only: power_strict_increasing_iff)
    moreover have "unat i < 2 ^ Suc b" using b(3) j by simp
    moreover have "position_loop i p = Some (p + of_nat (Suc b))"
      using False b(2) by (subst position_loop.simps) (simp add: ac_simps)
    ultimately show ?thesis using lo by blast
  qed
qed

lemma position_loop_returns_nonneg: "position_loop i p = Some r \<Longrightarrow> \<not> bit i 31"
proof (rule position_loop.raw_induct [where P = "\<lambda>i p r. \<not> bit i 31"])
  fix f :: "u32 \<Rightarrow> u32 \<Rightarrow> u32 option" and i p r
  assume IH: "\<And>i p r. f i p = Some r \<Longrightarrow> \<not> bit i 31"
    and eq: "(if i = 0 then Some p else f (signed_drop_bit 1 i) (p + 1)) = Some r"
  show "\<not> bit i 31"
  proof (cases "i = 0")
    case False
    with eq have "\<not> bit (signed_drop_bit 1 i) 31" by (intro IH) simp
    then show ?thesis using shift_sign by blast
  qed simp
qed

section \<open>Rounding up\<close>

lemma RoundupPowerOf2_spec:
  assumes "unat a \<le> 2147483648"
  shows "\<exists>r k. RoundupPowerOf2 a = Some r \<and> k < 32 \<and> unat r = 2 ^ k \<and>
    unat a \<le> unat r \<and> (unat r = 1 \<or> unat r < 2 * unat a)"
proof (cases "IsPowerOf2 a")
  case True
  then show ?thesis by (auto simp: RoundupPowerOf2_def IsPowerOf2_iff)
next
  case False
  then have ne: "unat a \<noteq> 2 ^ k" if "k < 32" for k using that by (simp add: IsPowerOf2_iff)
  then have "unat a < 2147483648" using assms ne [of 31] by simp
  then obtain b where b: "b \<le> 31" "position_loop a 0 = Some (of_nat b)" "unat a < 2 ^ b"
    "2 ^ b \<le> 2 * unat a \<or> a = 0 \<and> b = 0"
    using position_loop_nonneg [of a 0] by auto
  have r: "RoundupPowerOf2 a = Some (2 ^ b)" "unat ((2 :: u32) ^ b) = 2 ^ b"
    using False b(1,2) by (simp_all add: RoundupPowerOf2_def unat_of_nat32 unat_exp32 push_bit_eq_mult)
  moreover have "(2 :: nat) ^ b = 1 \<or> 2 ^ b < 2 * unat a"
    using b(1,4) ne [of "b - 1"] by (cases b) auto
  ultimately show ?thesis using b(1,3) by (intro exI [of _ "2 ^ b"] exI [of _ b]) auto
qed

lemma pow2_between:
  assumes "unat r = 2 ^ k" "unat r = 1 \<or> unat r < 2 * unat a" "IsPowerOf2 q" "a \<le> q"
  shows "r \<le> q"
proof -
  obtain m where m: "unat q = 2 ^ m" using assms(3) by (auto simp: IsPowerOf2_iff)
  have "unat r = 1 \<or> (2 :: nat) ^ k < 2 ^ Suc m"
    using assms m by (auto simp: word_le_nat_alt)
  then have "unat r = 1 \<or> k < Suc m" by (simp only: power_strict_increasing_iff one_less_numeral_iff semiring_norm)
  then show ?thesis using assms(1) m by (auto simp: word_le_nat_alt less_Suc_eq_le)
qed

lemma RoundupPowerOf2_None:
  assumes "2147483648 < unat a"
  shows "RoundupPowerOf2 a = None"
proof -
  have "\<not> IsPowerOf2 a"
  proof
    assume "IsPowerOf2 a"
    then obtain k where k: "k < 32" "unat a = 2 ^ k" by (auto simp: IsPowerOf2_iff)
    then have "(2 :: nat) ^ k \<le> 2 ^ 31" by (intro power_increasing) auto
    with k assms show False by simp
  qed
  moreover have "position_loop a 0 = None"
    using position_loop_returns_nonneg [of a 0] assms bit31_iff [of a]
    by (cases "position_loop a 0") auto
  ultimately show ?thesis by (simp add: RoundupPowerOf2_def)
qed

text \<open>
  \<open>RoundupPowerOf2\<close> returns, for every size up to \<open>2^31\<close>, the least power of two that is
  not smaller than it.
\<close>

theorem RoundupPowerOf2_least:
  assumes "unat a \<le> 2147483648"
  shows "\<exists>r. RoundupPowerOf2 a = Some r \<and> IsPowerOf2 r \<and> a \<le> r \<and>
    (\<forall>q. IsPowerOf2 q \<and> a \<le> q \<longrightarrow> r \<le> q)"
proof -
  obtain r k where r: "RoundupPowerOf2 a = Some r" "k < 32" "unat r = 2 ^ k" "unat a \<le> unat r"
    "unat r = 1 \<or> unat r < 2 * unat a"
    using RoundupPowerOf2_spec [OF assms] by blast
  then have "\<forall>q. IsPowerOf2 q \<and> a \<le> q \<longrightarrow> r \<le> q" using pow2_between by blast
  with r show ?thesis by (auto simp: IsPowerOf2_iff word_le_nat_alt)
qed

theorem RoundupPowerOf2_least_witness:
  "\<exists>r. RoundupPowerOf2 1000 = Some r \<and> IsPowerOf2 r \<and> 1000 \<le> r \<and>
    (\<forall>q. IsPowerOf2 q \<and> 1000 \<le> q \<longrightarrow> r \<le> q)"
  by (rule RoundupPowerOf2_least) simp

text \<open>
  C40. For every size above \<open>2^31\<close> the constructor of the ring never returns: the counting
  loop shifts a negative \<open>int\<close> for ever.
\<close>

theorem RoundupPowerOf2_diverges:
  "2147483648 < unat a \<Longrightarrow> RoundupPowerOf2 a = None"
  by (rule RoundupPowerOf2_None)

theorem RoundupPowerOf2_diverges_witness: "RoundupPowerOf2 3000000000 = None"
  by (rule RoundupPowerOf2_diverges) simp

end
