(* ===== verification/Ring_Copy.thy ===== *)
theory Ring_Copy
  imports Prelude
begin

text \<open>
  The copy macros of the rings, \<^verbatim>\<open>ENQUEUE_PTRS\<close> and \<^verbatim>\<open>DEQUEUE_PTRS\<close>: four elements per turn and
  a \<^verbatim>\<open>switch\<close> that falls through for the rest when the entries are contiguous, two plain loops
  when they wrap around the end of the array. All counters are \<open>uint32_t\<close>. The loops are
  written once over the copy step \<open>cp i idx\<close> of their body, since the two macros differ only in
  the direction of that step.
\<close>

definition copy_elem :: "'a list \<Rightarrow> u32 \<Rightarrow> 'a list \<Rightarrow> u32 \<Rightarrow> 'a list option" where
  "copy_elem dst d src s = do { v \<leftarrow> mem_get src (unat s); mem_set dst (unat d) v }"

function copy_by4 ::
  "(u32 \<Rightarrow> u32 \<Rightarrow> 'm \<Rightarrow> 'm option) \<Rightarrow> u32 \<Rightarrow> u32 \<Rightarrow> u32 \<Rightarrow> 'm \<Rightarrow> (u32 \<times> u32 \<times> 'm) option"
where
  "copy_by4 cp n i idx m =
     (if i < (n AND NOT 3)
      then do {
        m \<leftarrow> cp i idx m;
        m \<leftarrow> cp (i + 1) (idx + 1) m;
        m \<leftarrow> cp (i + 2) (idx + 2) m;
        m \<leftarrow> cp (i + 3) (idx + 3) m;
        copy_by4 cp n (i + 4) (idx + 4) m
      }
      else Some (i, idx, m))"
  by pat_completeness auto

lemma and_not3_bound: "unat (n AND NOT (3 :: u32)) \<le> 4294967292"
proof -
  have "n AND NOT (3 :: u32) \<le> NOT 3" by (rule word_and_le1)
  then show ?thesis by (simp add: word_le_nat_alt)
qed

lemma add4_no_wrap: "i < (n AND NOT (3 :: u32)) \<Longrightarrow> unat (i + 4) = unat i + 4"
  using and_not3_bound [of n] by (intro trans [OF unat_add_no_wrap]) (auto simp: word_less_nat_alt)

termination copy_by4
proof (relation "measure (\<lambda>(cp, n, i, idx, m). unat (n AND NOT (3 :: u32)) - unat i)", goal_cases)
  case 2
  then show ?case using add4_no_wrap by (auto simp: word_less_nat_alt)
qed simp

declare copy_by4.simps [simp del]

text \<open>\<^verbatim>\<open>switch (n & 0x3)\<close>: case 3 falls through to case 2 and case 1.\<close>

definition copy_one ::
  "(u32 \<Rightarrow> u32 \<Rightarrow> 'm \<Rightarrow> 'm option) \<Rightarrow> u32 \<times> u32 \<times> 'm \<Rightarrow> (u32 \<times> u32 \<times> 'm) option" where
  "copy_one cp s = (case s of (i, idx, m) \<Rightarrow> do { m \<leftarrow> cp i idx m; Some (i + 1, idx + 1, m) })"

definition copy_rest ::
  "(u32 \<Rightarrow> u32 \<Rightarrow> 'm \<Rightarrow> 'm option) \<Rightarrow> u32 \<Rightarrow> u32 \<times> u32 \<times> 'm \<Rightarrow> 'm option" where
  "copy_rest cp n s = do {
     s \<leftarrow> (if n AND 3 = 3 then copy_one cp s else Some s);
     s \<leftarrow> (if n AND 3 = 3 \<or> n AND 3 = 2 then copy_one cp s else Some s);
     s \<leftarrow> (if n AND 3 = 3 \<or> n AND 3 = 2 \<or> n AND 3 = 1 then copy_one cp s else Some s);
     Some (snd (snd s)) }"

text \<open>\<^verbatim>\<open>for (i = 0; idx < size; i++, idx++)\<close> and \<^verbatim>\<open>for (idx = 0; i < n; i++, idx++)\<close>.\<close>

function copy_to_end ::
  "(u32 \<Rightarrow> u32 \<Rightarrow> 'm \<Rightarrow> 'm option) \<Rightarrow> u32 \<Rightarrow> u32 \<Rightarrow> u32 \<Rightarrow> 'm \<Rightarrow> (u32 \<times> 'm) option" where
  "copy_to_end cp sz i idx m =
     (if idx < sz then do { m \<leftarrow> cp i idx m; copy_to_end cp sz (i + 1) (idx + 1) m } else Some (i, m))"
  by pat_completeness auto
termination
  by (relation "measure (\<lambda>(cp, sz, i, idx, m). unat sz - unat idx)")
    (auto simp: unat_inc word_less_nat_alt [symmetric], auto simp: word_less_nat_alt)

function copy_to_n ::
  "(u32 \<Rightarrow> u32 \<Rightarrow> 'm \<Rightarrow> 'm option) \<Rightarrow> u32 \<Rightarrow> u32 \<Rightarrow> u32 \<Rightarrow> 'm \<Rightarrow> 'm option" where
  "copy_to_n cp n i idx m =
     (if i < n then do { m \<leftarrow> cp i idx m; copy_to_n cp n (i + 1) (idx + 1) m } else Some m)"
  by pat_completeness auto
termination
  by (relation "measure (\<lambda>(cp, n, i, idx, m). unat n - unat i)")
    (auto simp: unat_inc word_less_nat_alt [symmetric], auto simp: word_less_nat_alt)

declare copy_to_end.simps [simp del] copy_to_n.simps [simp del]

definition ptrs_copy ::
  "(u32 \<Rightarrow> u32 \<Rightarrow> 'm \<Rightarrow> 'm option) \<Rightarrow> u32 \<Rightarrow> u32 \<Rightarrow> u32 \<Rightarrow> 'm \<Rightarrow> 'm option" where
  "ptrs_copy cp sz idx n m =
     (if idx + n < sz
      then do { s \<leftarrow> copy_by4 cp n 0 idx m; copy_rest cp n s }
      else do { (i, m) \<leftarrow> copy_to_end cp sz 0 idx m; copy_to_n cp n i 0 m })"

definition ENQUEUE_PTRS :: "u32 \<Rightarrow> u32 \<Rightarrow> 'a list \<Rightarrow> u32 \<Rightarrow> 'a list \<Rightarrow> u32 \<Rightarrow> 'a list option" where
  "ENQUEUE_PTRS sz msk ring prod_head obj_table n =
     ptrs_copy (\<lambda>i idx ring. copy_elem ring idx obj_table i) sz (prod_head AND msk) n ring"

definition DEQUEUE_PTRS :: "u32 \<Rightarrow> u32 \<Rightarrow> 'a list \<Rightarrow> u32 \<Rightarrow> 'a list \<Rightarrow> u32 \<Rightarrow> 'a list option" where
  "DEQUEUE_PTRS sz msk ring cons_head obj_table n =
     ptrs_copy (\<lambda>i idx obj_table. copy_elem obj_table i ring idx) sz (cons_head AND msk) n obj_table"

section \<open>The loops against an element-by-element copy\<close>

primrec copy_seq :: "(u32 \<Rightarrow> u32 \<Rightarrow> 'm \<Rightarrow> 'm option) \<Rightarrow> nat \<Rightarrow> u32 \<Rightarrow> u32 \<Rightarrow> 'm \<Rightarrow> 'm option" where
  "copy_seq cp 0 i idx m = Some m"
| "copy_seq cp (Suc k) i idx m = do { m \<leftarrow> cp i idx m; copy_seq cp k (i + 1) (idx + 1) m }"

lemma copy_seq_add:
  "copy_seq cp (a + b) i idx = (\<lambda>m.
     do { m \<leftarrow> copy_seq cp a i idx m; copy_seq cp b (i + of_nat a) (idx + of_nat a) m })"
proof (induction a arbitrary: i idx)
  case (Suc a)
  show ?case by (rule ext) (simp add: Suc.IH ac_simps)
qed simp

lemma copy_by4_seq:
  "unat i + 4 * k = unat (n AND NOT (3 :: u32)) \<Longrightarrow>
   copy_by4 cp n i idx = (\<lambda>m.
     do { m \<leftarrow> copy_seq cp (4 * k) i idx m; Some (i + of_nat (4 * k), idx + of_nat (4 * k), m) })"
proof (induction k arbitrary: i idx)
  case 0
  then have "\<not> i < (n AND NOT 3)" by (simp add: word_less_nat_alt)
  then show ?case by (simp add: copy_by4.simps fun_eq_iff)
next
  case (Suc k)
  then have lt: "i < (n AND NOT 3)" by (simp add: word_less_nat_alt)
  then have "unat (i + 4) + 4 * k = unat (n AND NOT 3)"
    using Suc.prems by (simp add: add4_no_wrap)
  note IH = Suc.IH [OF this]
  have four: "4 * Suc k = Suc (Suc (Suc (Suc (4 * k))))" by simp
  show ?case
    unfolding four copy_seq.simps
    using lt by (intro ext, subst copy_by4.simps) (simp add: IH ac_simps)
qed

lemma and_split:
  "unat (n AND NOT (3 :: u32)) = 4 * (unat n div 4)" "unat (n AND (3 :: u32)) = unat n mod 4"
proof -
  show r: "unat (n AND 3) = unat n mod 4"
    using unat_and_mask [of n 2] by (simp add: mask_eq_exp_minus_1)
  have "n AND NOT 3 = n - (n AND 3)"
  proof -
    have "n - (n AND 3) = n AND NOT (n AND 3)" by (rule disjunctive_diff) (simp add: bit_simps)
    also have "\<dots> = n AND NOT 3" by (rule bit_word_eqI) (auto simp: bit_simps)
    finally show ?thesis by simp
  qed
  then have "unat (n AND NOT 3) = unat n - unat n mod 4"
    using r unat_sub [of "n AND 3" n] by (simp add: word_and_le2)
  then show "unat (n AND NOT (3 :: u32)) = 4 * (unat n div 4)"
    by (simp add: minus_mod_eq_mult_div)
qed

lemma and3_eq_iff:
  "n AND 3 = (3 :: u32) \<longleftrightarrow> unat n mod 4 = 3" "n AND 3 = (2 :: u32) \<longleftrightarrow> unat n mod 4 = 2"
  "n AND 3 = (1 :: u32) \<longleftrightarrow> unat n mod 4 = 1"
  by (simp_all add: word_unat_eq_iff [of "n AND 3"] and_split(2) del: word_unat_eq_iff)

lemma copy_rest_seq:
  "copy_rest cp n (i, idx, m) = copy_seq cp (unat (n AND 3)) i idx m"
proof -
  consider "unat n mod 4 = 0" | "unat n mod 4 = Suc 0" | "unat n mod 4 = Suc (Suc 0)"
    | "unat n mod 4 = Suc (Suc (Suc 0))" by linarith
  then show ?thesis
    unfolding copy_rest_def copy_one_def and3_eq_iff and_split(2)
    by cases (simp_all add: ac_simps)
qed

lemma copy_to_end_seq:
  "idx \<le> sz \<Longrightarrow> copy_to_end cp sz i idx = (\<lambda>m.
     do { m \<leftarrow> copy_seq cp (unat sz - unat idx) i idx m; Some (i + (sz - idx), m) })"
proof (induction "unat sz - unat idx" arbitrary: i idx)
  case 0
  then have "idx = sz" by (simp add: word_le_nat_alt word_unat_eq_iff)
  then show ?case by (simp add: copy_to_end.simps fun_eq_iff)
next
  case (Suc k)
  then have lt: "idx < sz" by (simp add: word_less_nat_alt)
  note u = unat_inc [OF lt]
  have k: "k = unat sz - unat (idx + 1)" "unat sz - unat idx = Suc (unat sz - unat (idx + 1))"
    using Suc.hyps(2) u by auto
  have "idx + 1 \<le> sz" using lt u by (simp add: word_le_nat_alt word_less_nat_alt)
  note IH = Suc.hyps(1) [OF k(1) this]
  show ?case
    unfolding k(2) copy_seq.simps
    using lt by (intro ext, subst copy_to_end.simps) (simp add: IH)
qed

lemma copy_to_n_seq:
  "i \<le> n \<Longrightarrow> copy_to_n cp n i idx = copy_seq cp (unat n - unat i) i idx"
proof (induction "unat n - unat i" arbitrary: i idx)
  case 0
  then have "i = n" by (simp add: word_le_nat_alt word_unat_eq_iff)
  then show ?case by (simp add: copy_to_n.simps fun_eq_iff)
next
  case (Suc k)
  then have lt: "i < n" by (simp add: word_less_nat_alt)
  note u = unat_inc [OF lt]
  have k: "k = unat n - unat (i + 1)" "unat n - unat i = Suc (unat n - unat (i + 1))"
    using Suc.hyps(2) u by auto
  have "i + 1 \<le> n" using lt u by (simp add: word_le_nat_alt word_less_nat_alt)
  note IH = Suc.hyps(1) [OF k(1) this]
  show ?case
    unfolding k(2)
    using lt by (intro ext, subst copy_to_n.simps) (simp add: IH)
qed

text \<open>
  The circular reference copy: first up to the end of the array, then from its start.
\<close>

lemma ptrs_copy_straight:
  assumes "idx + n < sz"
  shows "ptrs_copy cp sz idx n = copy_seq cp (unat n) 0 idx"
proof -
  let ?k = "unat n div 4"
  have n: "4 * ?k + unat n mod 4 = unat n" by simp
  have by4: "copy_by4 cp n 0 idx = (\<lambda>m. do { m \<leftarrow> copy_seq cp (4 * ?k) 0 idx m;
      Some (0 + of_nat (4 * ?k), idx + of_nat (4 * ?k), m) })"
    by (rule copy_by4_seq) (simp only: and_split(1) unsigned_0 add_0)
  have "ptrs_copy cp sz idx n m = copy_seq cp (4 * ?k + unat n mod 4) 0 idx m" for m
    using assms unfolding ptrs_copy_def copy_seq_add by4
    by (simp add: copy_rest_seq and_split(2) bind_eq_Some_conv del: of_nat_mult)
  then show ?thesis by (intro ext) (simp only: n)
qed

lemma ptrs_copy_wrap:
  assumes "\<not> idx + n < sz" "idx \<le> sz" "sz - idx \<le> n"
  shows "ptrs_copy cp sz idx n = (\<lambda>m. do {
    m \<leftarrow> copy_seq cp (unat sz - unat idx) 0 idx m;
    copy_seq cp (unat n - unat (sz - idx)) (sz - idx) 0 m })"
  using assms by (simp add: ptrs_copy_def fun_eq_iff copy_to_end_seq copy_to_n_seq)

section \<open>What the macros do to the arrays\<close>

lemma copy_seq_blit:
  assumes "unat s + k \<le> length src" "unat d + k \<le> length dst"
    "unat s + k < 4294967296" "unat d + k < 4294967296"
  shows "copy_seq (\<lambda>s d dst. copy_elem dst d src s) k s d dst =
    Some (take (unat d) dst @ take k (drop (unat s) src) @ drop (unat d + k) dst)"
  using assms
proof (induction k arbitrary: s d dst)
  case (Suc k)
  have s: "unat (s + 1) = Suc (unat s)" and d: "unat (d + 1) = Suc (unat d)"
    using Suc.prems by (simp_all add: unat_add_no_wrap)
  have "copy_elem dst d src s = Some (dst[unat d := src ! unat s])"
    using Suc.prems by (simp add: copy_elem_def mem_simps)
  then have "copy_seq (\<lambda>s d dst. copy_elem dst d src s) (Suc k) s d dst =
      Some (take (Suc (unat d)) (dst[unat d := src ! unat s]) @ take k (drop (Suc (unat s)) src) @
        drop (Suc (unat d) + k) (dst[unat d := src ! unat s]))"
    using Suc.IH [of "s + 1" "d + 1" "dst[unat d := src ! unat s]"] Suc.prems s d by simp
  also have "take (Suc (unat d)) (dst[unat d := src ! unat s]) = take (unat d) dst @ [src ! unat s]"
    using Suc.prems by (simp add: take_Suc_conv_app_nth)
  also have "drop (Suc (unat d) + k) (dst[unat d := src ! unat s]) = drop (unat d + Suc k) dst"
    by simp
  also have "(take (unat d) dst @ [src ! unat s]) @ take k (drop (Suc (unat s)) src) @ drop (unat d + Suc k) dst
    = take (unat d) dst @ take (Suc k) (drop (unat s) src) @ drop (unat d + Suc k) dst"
    using Suc.prems by (simp add: take_Suc_conv_app_nth Cons_nth_drop_Suc [symmetric])
  finally show ?case .
qed simp

lemma copy_seq_swap: "copy_seq (\<lambda>i idx. cp idx i) k i idx = copy_seq cp k idx i"
proof (induction k arbitrary: i idx)
  case (Suc k)
  then show ?case by (simp add: fun_eq_iff)
qed (simp add: fun_eq_iff)

lemma copy_seq_enqueue:
  assumes "unat i + k \<le> length obj" "unat idx + k \<le> length ring"
    "unat i + k < 4294967296" "unat idx + k < 4294967296"
  shows "copy_seq (\<lambda>i idx ring. copy_elem ring idx obj i) k i idx ring =
    Some (take (unat idx) ring @ take k (drop (unat i) obj) @ drop (unat idx + k) ring)"
  using assms by (rule copy_seq_blit)

lemma copy_seq_dequeue:
  assumes "unat i + k \<le> length obj" "unat idx + k \<le> length ring"
    "unat i + k < 4294967296" "unat idx + k < 4294967296"
  shows "copy_seq (\<lambda>i idx obj. copy_elem obj i ring idx) k i idx obj =
    Some (take (unat i) obj @ take k (drop (unat idx) ring) @ drop (unat i + k) obj)"
  using copy_seq_blit [of idx k ring i obj] assms
  by (simp only: copy_seq_swap [of "\<lambda>idx i obj. copy_elem obj i ring idx"])

lemma wrap_split:
  fixes idx n sz :: u32
  assumes "\<not> idx + n < sz" "unat idx < unat sz" "unat n \<le> unat sz" "unat sz \<le> 2147483648"
  shows "idx \<le> sz" "sz - idx \<le> n" "unat (sz - idx) = unat sz - unat idx"
    "unat idx + unat n \<ge> unat sz"
proof -
  have "unat (idx + n) = unat idx + unat n" using assms by (intro unat_add_no_wrap) linarith
  then show "unat idx + unat n \<ge> unat sz" using assms(1) by (simp add: word_less_nat_alt)
  moreover show le: "idx \<le> sz" using assms(2) by (simp add: word_le_nat_alt)
  moreover show "unat (sz - idx) = unat sz - unat idx" using le by (rule unat_sub)
  ultimately show "sz - idx \<le> n" by (simp add: word_le_nat_alt)
qed

lemma straight_split:
  fixes idx n sz :: u32
  assumes "idx + n < sz" "unat idx < unat sz" "unat n \<le> unat sz" "unat sz \<le> 2147483648"
  shows "unat idx + unat n < unat sz"
proof -
  have "unat (idx + n) = unat idx + unat n" using assms by (intro unat_add_no_wrap) linarith
  then show ?thesis using assms(1) by (simp add: word_less_nat_alt)
qed

lemma ENQUEUE_PTRS_put:
  assumes "length ring = unat sz" "unat sz \<le> 2147483648" "0 < unat sz"
    "unat (h AND msk) = unat h mod unat sz" "unat n \<le> unat sz" "unat n \<le> length obj"
  shows "ENQUEUE_PTRS sz msk ring h obj n = Some (ring_put ring (unat h mod unat sz) (take (unat n) obj))"
proof -
  define idx where "idx = h AND msk"
  have idx: "unat idx = unat h mod unat sz" "unat idx < unat sz"
    using assms by (simp_all add: idx_def)
  show ?thesis
  proof (cases "idx + n < sz")
    case True
    then have "unat idx + unat n < unat sz"
      using straight_split idx(2) assms by blast
    then show ?thesis
      using True assms idx
      by (simp add: ENQUEUE_PTRS_def idx_def [symmetric] ptrs_copy_straight copy_seq_enqueue
          ring_put_straight)
  next
    case False
    note w = wrap_split [OF False idx(2) assms(5,2)]
    show ?thesis
      using False assms idx w
      by (simp add: ENQUEUE_PTRS_def idx_def [symmetric] ptrs_copy_wrap copy_seq_enqueue
          ring_put_wrap drop_take ac_simps)
  qed
qed

lemma DEQUEUE_PTRS_slice:
  assumes "length ring = unat sz" "unat sz \<le> 2147483648" "0 < unat sz"
    "unat (h AND msk) = unat h mod unat sz" "unat n \<le> unat sz" "unat n \<le> length obj"
  shows "DEQUEUE_PTRS sz msk ring h obj n =
    Some (ring_slice ring (unat h mod unat sz) (unat n) @ drop (unat n) obj)"
proof -
  define idx where "idx = h AND msk"
  have idx: "unat idx = unat h mod unat sz" "unat idx < unat sz"
    using assms by (simp_all add: idx_def)
  show ?thesis
  proof (cases "idx + n < sz")
    case True
    then have "unat idx + unat n < unat sz"
      using straight_split idx(2) assms by blast
    then show ?thesis
      using True assms idx
      by (simp add: DEQUEUE_PTRS_def idx_def [symmetric] ptrs_copy_straight copy_seq_dequeue
          ring_slice_contiguous)
  next
    case False
    note w = wrap_split [OF False idx(2) assms(5,2)]
    show ?thesis
      using False assms idx w
      by (simp add: DEQUEUE_PTRS_def idx_def [symmetric] ptrs_copy_wrap copy_seq_dequeue
          ring_slice_wrap)
  qed
qed

section \<open>The macros against the plain circular loop\<close>

text \<open>The loop the macros optimise: one element per turn, the slot index reduced modulo the size.\<close>

primrec circ_copy ::
  "(u32 \<Rightarrow> u32 \<Rightarrow> 'm \<Rightarrow> 'm option) \<Rightarrow> u32 \<Rightarrow> u32 \<Rightarrow> nat \<Rightarrow> u32 \<Rightarrow> 'm \<Rightarrow> 'm option" where
  "circ_copy cp sz idx 0 i m = Some m"
| "circ_copy cp sz idx (Suc k) i m =
     do { m \<leftarrow> cp i ((idx + i) mod sz) m; circ_copy cp sz idx k (i + 1) m }"

lemma circ_copy_add:
  "circ_copy cp sz idx (a + b) i = (\<lambda>m.
     do { m \<leftarrow> circ_copy cp sz idx a i m; circ_copy cp sz idx b (i + of_nat a) m })"
proof (induction a arbitrary: i)
  case (Suc a)
  show ?case by (rule ext) (simp add: Suc.IH ac_simps)
qed simp

lemma copy_seq_circ:
  assumes "\<And>j. j < k \<Longrightarrow> (idx + (i + of_nat j)) mod sz = d + of_nat j"
  shows "copy_seq cp k i d = circ_copy cp sz idx k i"
  using assms
proof (induction k arbitrary: i d)
  case (Suc k)
  have "(idx + (i + 1 + of_nat j)) mod sz = d + 1 + of_nat j" if "j < k" for j
    using Suc.prems [of "Suc j"] that by (simp add: ac_simps)
  note IH = Suc.IH [OF this]
  have "(idx + i) mod sz = d" using Suc.prems [of 0] by simp
  then show ?case by (intro ext) (simp add: IH)
qed (simp add: fun_eq_iff)

lemma mod_word_eqI: "unat x mod unat sz = unat y \<Longrightarrow> x mod sz = (y :: u32)"
  by (metis unat_mod_distrib word_unat_eq_iff)

text \<open>
  C26. On any array and for any effect of the copy step, faults included, the unrolled and
  wrapping macros do exactly what the plain circular loop does.
\<close>

theorem ptrs_copy_circular:
  assumes "unat idx < unat sz" "unat n \<le> unat sz" "unat sz \<le> 2147483648"
  shows "ptrs_copy cp sz idx n m = circ_copy cp sz idx (unat n) 0 m"
proof (cases "idx + n < sz")
  case True
  note st = straight_split [OF True assms]
  have "copy_seq cp (unat n) 0 idx = circ_copy cp sz idx (unat n) 0"
  proof (rule copy_seq_circ)
    fix j assume "j < unat n"
    then have "unat (idx + of_nat j) = unat idx + j"
      using st assms(3) by (subst unat_add_no_wrap) (simp_all add: unat_of_nat32)
    then show "(idx + (0 + of_nat j)) mod sz = idx + of_nat j"
      using st \<open>j < unat n\<close> by (intro mod_word_eqI) simp
  qed
  then show ?thesis using True by (simp add: ptrs_copy_straight)
next
  case False
  note w = wrap_split [OF False assms]
  let ?a = "unat sz - unat idx"
  let ?b = "unat n - unat (sz - idx)"
  have a: "copy_seq cp ?a 0 idx = circ_copy cp sz idx ?a 0"
  proof (rule copy_seq_circ)
    fix j assume "j < ?a"
    then have "unat (idx + of_nat j) = unat idx + j"
      using assms(3) by (subst unat_add_no_wrap) (simp_all add: unat_of_nat32)
    then show "(idx + (0 + of_nat j)) mod sz = idx + of_nat j"
      using \<open>j < ?a\<close> by (intro mod_word_eqI) simp
  qed
  have b: "copy_seq cp ?b (sz - idx) 0 = circ_copy cp sz idx ?b (sz - idx)"
  proof (rule copy_seq_circ)
    fix j assume j: "j < ?b"
    then have lt: "j < unat sz" using assms(2) by linarith
    then have o: "unat (of_nat j :: u32) = j" using assms(3) by (intro unat_of_nat32) linarith
    then have "unat (sz + of_nat j) = unat sz + j"
      using lt assms(3) by (subst unat_add_no_wrap) simp_all
    with o lt show "(idx + (sz - idx + of_nat j)) mod sz = 0 + of_nat j"
      by (intro mod_word_eqI) (simp add: add.assoc [symmetric])
  qed
  have "?a + ?b = unat n" using w by simp
  moreover have "of_nat ?a = sz - idx" using w(3) by (metis word_unat_eq_iff unsigned_of_nat unat_of_nat of_nat_unat ucast_id)
  ultimately show ?thesis
    using False w(1,2) circ_copy_add [of cp sz idx ?a ?b 0]
    by (simp add: ptrs_copy_wrap a b)
qed

theorem ptrs_copy_circular_witness:
  "ptrs_copy (\<lambda>i idx ring. copy_elem ring idx [10, 20, 30 :: nat] i) 4 2 3 [0, 0, 0, 0] =
   circ_copy (\<lambda>i idx ring. copy_elem ring idx [10, 20, 30 :: nat] i) 4 2 (unat (3 :: u32)) 0 [0, 0, 0, 0]"
  by (rule ptrs_copy_circular) simp_all

end
