(* ===== verification/Bounded_Queue.thy ===== *)
theory Bounded_Queue
  imports Prelude
begin

text \<open>
  The contract the rings offer their clients, as an interface: a bounded first-in first-out
  queue of list contents. An operation on \<open>want\<close> entries is granted \<open>admit fixed want avail\<close>
  of them: all or nothing in the fixed mode (\<^verbatim>\<open>kRingQueueFixed\<close>, \<^verbatim>\<open>RING_QUEUE_FIXED\<close>), as many as
  possible in the variable one. The clients' lemmas are proved once here and reach the rings of
  \<^verbatim>\<open>buffer_ring.h\<close> and \<^verbatim>\<open>buffer_ring_c.h\<close> by interpretation.
\<close>

definition admit :: "bool \<Rightarrow> nat \<Rightarrow> nat \<Rightarrow> nat" where
  "admit fixed want avail = (if want \<le> avail then want else if fixed then 0 else avail)"

lemma admit_le: "admit b w a \<le> w" "admit b w a \<le> a"
  by (auto simp: admit_def)

lemma admit_fits [simp]: "w \<le> a \<Longrightarrow> admit b w a = w"
  by (simp add: admit_def)

datatype 'a queue_op = Enq "'a list" | Deq "'a list"

fun op_size :: "'a queue_op \<Rightarrow> nat" where
  "op_size (Enq xs) = length xs"
| "op_size (Deq buf) = length buf"

text \<open>
  A run of operations. \<open>Deq buf\<close> passes the caller's output buffer; the entries delivered are
  the granted prefix of what the call leaves in it.
\<close>

fun queue_run ::
  "('q \<Rightarrow> 'a list \<Rightarrow> (nat \<times> 'q) option) \<Rightarrow> ('q \<Rightarrow> 'a list \<Rightarrow> (nat \<times> 'a list \<times> 'q) option) \<Rightarrow>
   'a queue_op list \<Rightarrow> 'q \<Rightarrow> ('a list \<times> 'a list \<times> 'q) option" where
  "queue_run enq deq [] q = Some ([], [], q)"
| "queue_run enq deq (Enq xs # ops) q = do {
     (k, q) \<leftarrow> enq q xs;
     (ins, outs, q) \<leftarrow> queue_run enq deq ops q;
     Some (take k xs @ ins, outs, q) }"
| "queue_run enq deq (Deq buf # ops) q = do {
     (k, buf, q) \<leftarrow> deq q buf;
     (ins, outs, q) \<leftarrow> queue_run enq deq ops q;
     Some (ins, take k buf @ outs, q) }"

locale bounded_queue =
  fixes inv :: "'q \<Rightarrow> bool"
    and contents :: "'q \<Rightarrow> 'a list"
    and cap :: "'q \<Rightarrow> nat"
    and fixed :: "'q \<Rightarrow> bool"
    and enq :: "'q \<Rightarrow> 'a list \<Rightarrow> (nat \<times> 'q) option"
    and deq :: "'q \<Rightarrow> 'a list \<Rightarrow> (nat \<times> 'a list \<times> 'q) option"
  assumes contents_le_cap: "inv q \<Longrightarrow> length (contents q) \<le> cap q"
    and enq_law: "inv q \<Longrightarrow> length xs < 4294967296 \<Longrightarrow>
      \<exists>q'. enq q xs = Some (admit (fixed q) (length xs) (cap q - length (contents q)), q') \<and>
        inv q' \<and> cap q' = cap q \<and> fixed q' = fixed q \<and>
        contents q' = contents q @ take (admit (fixed q) (length xs) (cap q - length (contents q))) xs"
    and deq_law: "inv q \<Longrightarrow> length buf < 4294967296 \<Longrightarrow>
      \<exists>q'. deq q buf =
          Some (admit (fixed q) (length buf) (length (contents q)),
            take (admit (fixed q) (length buf) (length (contents q))) (contents q) @
            drop (admit (fixed q) (length buf) (length (contents q))) buf, q') \<and>
        inv q' \<and> cap q' = cap q \<and> fixed q' = fixed q \<and>
        contents q' = drop (admit (fixed q) (length buf) (length (contents q))) (contents q)"
begin

lemma run_fifo:
  assumes "inv q" "\<forall>op \<in> set ops. op_size op < 4294967296"
  shows "\<exists>ins outs q'. queue_run enq deq ops q = Some (ins, outs, q') \<and> inv q' \<and>
    cap q' = cap q \<and> contents q @ ins = outs @ contents q'"
  using assms
proof (induction ops arbitrary: q)
  case Nil
  then show ?case by simp
next
  case (Cons op ops)
  show ?case
  proof (cases op)
    case (Enq xs)
    obtain q1 where q1:
      "enq q xs = Some (admit (fixed q) (length xs) (cap q - length (contents q)), q1)"
      "inv q1" "cap q1 = cap q"
      "contents q1 = contents q @ take (admit (fixed q) (length xs) (cap q - length (contents q))) xs"
      using enq_law [of q xs] Cons.prems Enq by auto
    obtain ins outs q2 where "queue_run enq deq ops q1 = Some (ins, outs, q2)" "inv q2"
      "cap q2 = cap q1" "contents q1 @ ins = outs @ contents q2"
      using Cons.IH [of q1] q1(2) Cons.prems(2) by auto
    then show ?thesis using Enq q1 by simp
  next
    case (Deq buf)
    let ?k = "admit (fixed q) (length buf) (length (contents q))"
    obtain q1 where q1:
      "deq q buf = Some (?k, take ?k (contents q) @ drop ?k buf, q1)"
      "inv q1" "cap q1 = cap q" "contents q1 = drop ?k (contents q)"
      using deq_law [of q buf] Cons.prems Deq by auto
    obtain ins outs q2 where r: "queue_run enq deq ops q1 = Some (ins, outs, q2)" "inv q2"
      "cap q2 = cap q1" "contents q1 @ ins = outs @ contents q2"
      using Cons.IH [of q1] q1(2) Cons.prems(2) by auto
    have "contents q @ ins = (take ?k (contents q) @ outs) @ contents q2"
      using r(4) q1(4) by (metis append_assoc append_take_drop_id)
    then show ?thesis using Deq q1 r by (simp add: admit_le min_def)
  qed
qed

lemma enq_then_deq:
  assumes "inv q" "contents q = []" "length xs \<le> cap q" "length buf = length xs"
    "length xs < 4294967296"
  shows "\<exists>q1 q2. enq q xs = Some (length xs, q1) \<and> deq q1 buf = Some (length xs, xs, q2) \<and>
    inv q2 \<and> contents q2 = []"
proof -
  obtain q1 where q1: "enq q xs = Some (length xs, q1)" "inv q1" "contents q1 = xs"
    using enq_law [of q xs] assms by auto
  then obtain q2 where "deq q1 buf = Some (length xs, xs, q2)" "inv q2" "contents q2 = []"
    using deq_law [of q1 buf] assms by auto
  with q1 show ?thesis by auto
qed

end

text \<open>
  The counting operations of the rings: they report the length of the contents, and fullness
  decides whether one more entry is granted.
\<close>

locale counted_queue = bounded_queue +
  fixes count :: "'a \<Rightarrow> nat"
    and free_count :: "'a \<Rightarrow> nat"
    and full :: "'a \<Rightarrow> bool"
    and empty :: "'a \<Rightarrow> bool"
  assumes count_law: "inv q \<Longrightarrow> count q = length (contents q)"
    and free_count_law: "inv q \<Longrightarrow> free_count q = cap q - length (contents q)"
    and full_law: "inv q \<Longrightarrow> full q \<longleftrightarrow> length (contents q) = cap q"
    and empty_law: "inv q \<Longrightarrow> empty q \<longleftrightarrow> contents q = []"
begin

lemma full_rejects:
  assumes "inv q"
  shows "full q \<longleftrightarrow> (\<exists>q'. enq q [x] = Some (0, q'))"
proof -
  obtain q' where q': "enq q [x] = Some (admit (fixed q) 1 (cap q - length (contents q)), q')"
    using enq_law [of q "[x]"] assms by auto
  have "admit (fixed q) 1 (cap q - length (contents q)) = 0 \<longleftrightarrow> length (contents q) = cap q"
    using contents_le_cap [OF assms] by (auto simp: admit_def)
  then show ?thesis using q' full_law [OF assms] by auto
qed

lemma empty_delivers_nothing:
  assumes "inv q"
  shows "empty q \<longleftrightarrow> (\<exists>q'. deq q [x] = Some (0, [x], q'))"
proof -
  obtain q' where q': "deq q [x] = Some (admit (fixed q) 1 (length (contents q)),
      take (admit (fixed q) 1 (length (contents q))) (contents q) @
      drop (admit (fixed q) 1 (length (contents q))) [x], q')"
    using deq_law [of q "[x]"] assms by auto
  then show ?thesis using empty_law [OF assms] by (cases "contents q") (auto simp: admit_def)
qed

lemma count_plus_free: "inv q \<Longrightarrow> count q + free_count q = cap q"
  using contents_le_cap by (simp add: count_law free_count_law)

end

end
