(* ===== verification/Buff_Ring.thy ===== *)
theory Buff_Ring
  imports Pow2 Ring_Copy Bounded_Queue
begin

text \<open>
  The class template \<open>BuffRing<T>\<close> of \<^verbatim>\<open>buffer_ring.h\<close>, as one thread runs it: the record of its
  fields, the constructor, the reservation of entries (\<open>MoveProdHead\<close>, \<open>MoveConsumerHead\<close>),
  \<open>UpdateTail\<close>, \<open>DoEnqueue\<close>, \<open>DoDequeue\<close> and the counters. A value \<open>None\<close> is an access
  outside an array, the use of an uninitialised variable, or a loop that does not end. The
  interleaving of several threads is modelled in the theory \<open>Ring_Conc\<close>.
\<close>

section \<open>State\<close>

record RingHeadtail =
  head :: u32
  tail :: u32

text \<open>\<^verbatim>\<open>behavior_\<close> is an \<^verbatim>\<open>int\<close>; any value but \<open>kRingQueueFixed\<close> works as \<open>kRingQueueVariable\<close> does.\<close>

definition kRingQueueFixed :: int where "kRingQueueFixed = 0"
definition kRingQueueVariable :: int where "kRingQueueVariable = 1"

lemma behaviors_distinct [simp]: "kRingQueueVariable \<noteq> kRingQueueFixed" "kRingQueueFixed \<noteq> kRingQueueVariable"
  by (simp_all add: kRingQueueFixed_def kRingQueueVariable_def)

record 'a BuffRing =
  rsize :: u32
  rmask :: u32
  capacity :: u32
  behavior :: int
  single_producer :: bool
  single_consumer :: bool
  prod_ht :: RingHeadtail
  cons_ht :: RingHeadtail
  rdata :: "'a list"

text \<open>
  The fields \<^verbatim>\<open>size_\<close>, \<^verbatim>\<open>mask_\<close>, \<^verbatim>\<open>capacity_\<close>, \<^verbatim>\<open>behavior_\<close>, \<^verbatim>\<open>single_producer_\<close>, \<^verbatim>\<open>single_consumer_\<close>,
  \<^verbatim>\<open>prod_\<close>, \<^verbatim>\<open>cons_\<close> and \<^verbatim>\<open>data_\<close> in their order.
\<close>

text \<open>The constructor; \<open>dflt\<close> is the value \<^verbatim>\<open>new T[size_]\<close> gives to an element.\<close>

definition new_BuffRing :: "'a \<Rightarrow> u32 \<Rightarrow> int \<Rightarrow> bool \<Rightarrow> bool \<Rightarrow> 'a BuffRing option" where
  "new_BuffRing dflt sz behav sp sc = do {
     sz \<leftarrow> RoundupPowerOf2 sz;
     Some \<lparr>rsize = sz, rmask = sz - 1, capacity = sz - 1, behavior = behav,
       single_producer = sp, single_consumer = sc,
       prod_ht = \<lparr>head = 0, tail = 0\<rparr>, cons_ht = \<lparr>head = 0, tail = 0\<rparr>,
       rdata = replicate (unat sz) dflt\<rparr> }"

section \<open>Operations\<close>

text \<open>\<^verbatim>\<open>while (unlikely(ht->tail != old_val)) Pause();\<close> run by the only thread there is.\<close>

partial_function (option) wait_tail :: "RingHeadtail \<Rightarrow> u32 \<Rightarrow> RingHeadtail option" where
  "wait_tail ht old_val = (if tail ht \<noteq> old_val then wait_tail ht old_val else Some ht)"

definition UpdateTail :: "RingHeadtail \<Rightarrow> u32 \<Rightarrow> u32 \<Rightarrow> bool \<Rightarrow> RingHeadtail option" where
  "UpdateTail ht old_val new_val single = do {
     ht \<leftarrow> (if \<not> single then wait_tail ht old_val else Some ht);
     Some (ht\<lparr>tail := new_val\<rparr>) }"

text \<open>\<^verbatim>\<open>__sync_bool_compare_and_swap\<close> on a head.\<close>

definition AtomicCAS :: "u32 \<Rightarrow> u32 \<Rightarrow> u32 \<Rightarrow> u32 \<times> bool" where
  "AtomicCAS v old_val new_val = (if v = old_val then (new_val, True) else (v, False))"

text \<open>
  \<open>MoveProdHead\<close> and \<open>MoveConsumerHead\<close> return the granted number, the variables they write
  through their pointer arguments (\<open>new_head\<close> is \<open>None\<close> where it is left uninitialised) and the
  ring. Their loop repeats while the compare-and-swap fails.
\<close>

partial_function (option) MoveProdHead ::
  "u32 \<Rightarrow> 'a BuffRing \<Rightarrow> (u32 \<times> u32 \<times> u32 option \<times> u32 \<times> 'a BuffRing) option" where
  "MoveProdHead max_n r =
     (let old_head = head (prod_ht r);
          cons_tail = tail (cons_ht r);
          free_entries = capacity r + cons_tail - old_head;
          n = (if max_n > free_entries
               then (if behavior r = kRingQueueFixed then 0 else free_entries) else max_n)
      in if n = 0 then Some (0, old_head, None, free_entries, r)
         else let new_head = old_head + n in
           if single_producer r
           then Some (n, old_head, Some new_head, free_entries,
             r\<lparr>prod_ht := (prod_ht r)\<lparr>head := new_head\<rparr>\<rparr>)
           else (case AtomicCAS (head (prod_ht r)) old_head new_head of (h, success) \<Rightarrow>
             if success
             then Some (n, old_head, Some new_head, free_entries, r\<lparr>prod_ht := (prod_ht r)\<lparr>head := h\<rparr>\<rparr>)
             else MoveProdHead max_n (r\<lparr>prod_ht := (prod_ht r)\<lparr>head := h\<rparr>\<rparr>)))"

partial_function (option) MoveConsumerHead ::
  "u32 \<Rightarrow> 'a BuffRing \<Rightarrow> (u32 \<times> u32 \<times> u32 option \<times> u32 \<times> 'a BuffRing) option" where
  "MoveConsumerHead max_n r =
     (let old_head = head (cons_ht r);
          prod_tail = tail (prod_ht r);
          entries = prod_tail - old_head;
          n = (if max_n > entries
               then (if behavior r = kRingQueueFixed then 0 else entries) else max_n)
      in if n = 0 then Some (0, old_head, None, entries, r)
         else let new_head = old_head + n in
           if single_consumer r
           then Some (n, old_head, Some new_head, entries, r\<lparr>cons_ht := (cons_ht r)\<lparr>head := new_head\<rparr>\<rparr>)
           else (case AtomicCAS (head (cons_ht r)) old_head new_head of (h, success) \<Rightarrow>
             if success
             then Some (n, old_head, Some new_head, entries, r\<lparr>cons_ht := (cons_ht r)\<lparr>head := h\<rparr>\<rparr>)
             else MoveConsumerHead max_n (r\<lparr>cons_ht := (cons_ht r)\<lparr>head := h\<rparr>\<rparr>)))"

text \<open>\<open>DoEnqueue\<close> returns the granted number, \<open>*free_space\<close> and the ring.\<close>

definition DoEnqueue :: "'a BuffRing \<Rightarrow> 'a list \<Rightarrow> u32 \<Rightarrow> (u32 \<times> u32 \<times> 'a BuffRing) option" where
  "DoEnqueue r obj n = do {
     (n, prod_head, prod_next, free_entries, r) \<leftarrow> MoveProdHead n r;
     if n = 0 then Some (n, free_entries - n, r)
     else do {
       ring \<leftarrow> ENQUEUE_PTRS (rsize r) (rmask r) (rdata r) prod_head obj n;
       prod_next \<leftarrow> prod_next;
       ht \<leftarrow> UpdateTail (prod_ht r) prod_head prod_next (single_producer r);
       Some (n, free_entries - n, r\<lparr>rdata := ring, prod_ht := ht\<rparr>) } }"

definition DoEnqueue1 :: "'a BuffRing \<Rightarrow> 'a \<Rightarrow> (u32 \<times> u32 \<times> 'a BuffRing) option" where
  "DoEnqueue1 r obj = DoEnqueue r [obj] 1"

text \<open>\<open>DoDequeue\<close> returns the granted number, \<open>*available\<close>, the output buffer and the ring.\<close>

definition DoDequeue ::
  "'a BuffRing \<Rightarrow> 'a list \<Rightarrow> u32 \<Rightarrow> (u32 \<times> u32 \<times> 'a list \<times> 'a BuffRing) option" where
  "DoDequeue r obj n = do {
     (n, cons_head, cons_next, entries, r) \<leftarrow> MoveConsumerHead n r;
     if n = 0 then Some (n, entries - n, obj, r)
     else do {
       obj \<leftarrow> DEQUEUE_PTRS (rsize r) (rmask r) (rdata r) cons_head obj n;
       cons_next \<leftarrow> cons_next;
       ht \<leftarrow> UpdateTail (cons_ht r) cons_head cons_next (single_consumer r);
       Some (n, entries - n, obj, r\<lparr>cons_ht := ht\<rparr>) } }"

definition RingCount :: "'a BuffRing \<Rightarrow> u32" where
  "RingCount r =
     (let count = (tail (prod_ht r) - tail (cons_ht r)) AND rmask r
      in if count > capacity r then capacity r else count)"

definition RingFreeCount :: "'a BuffRing \<Rightarrow> u32" where
  "RingFreeCount r = capacity r - RingCount r"

definition RingFull :: "'a BuffRing \<Rightarrow> bool" where
  "RingFull r \<longleftrightarrow> RingFreeCount r = 0"

definition RingEmpoty :: "'a BuffRing \<Rightarrow> bool" where
  "RingEmpoty r \<longleftrightarrow> RingCount r = 0"

definition RingSize :: "'a BuffRing \<Rightarrow> u32" where
  "RingSize r = rsize r"

definition RingCapacity :: "'a BuffRing \<Rightarrow> u32" where
  "RingCapacity r = capacity r"

section \<open>Invariant and contents\<close>

definition ring_used :: "'a BuffRing \<Rightarrow> nat" where
  "ring_used r = unat (tail (prod_ht r) - tail (cons_ht r))"

definition ring_ok :: "'a BuffRing \<Rightarrow> bool" where
  "ring_ok r \<longleftrightarrow>
     IsPowerOf2 (rsize r) \<and> rmask r = rsize r - 1 \<and> capacity r \<le> rmask r \<and>
     length (rdata r) = unat (rsize r) \<and>
     head (prod_ht r) = tail (prod_ht r) \<and> head (cons_ht r) = tail (cons_ht r) \<and>
     ring_used r \<le> unat (capacity r)"

definition ring_contents :: "'a BuffRing \<Rightarrow> 'a list" where
  "ring_contents r = ring_slice (rdata r) (unat (tail (cons_ht r))) (ring_used r)"

lemma length_ring_contents [simp]: "length (ring_contents r) = ring_used r"
  by (simp add: ring_contents_def)

lemma ring_okD:
  assumes "ring_ok r"
  shows "0 < unat (rsize r)" "unat (rsize r) \<le> 2147483648" "unat (capacity r) < unat (rsize r)"
    "unat (rsize r) dvd 4294967296" "\<And>x. unat (x AND rmask r) = unat x mod unat (rsize r)"
proof -
  obtain k where k: "k < 32" "unat (rsize r) = 2 ^ k"
    using assms by (auto simp: ring_ok_def IsPowerOf2_iff)
  then show pos: "0 < unat (rsize r)" by simp
  have "(2 :: nat) ^ k \<le> 2 ^ 31" using k(1) by (intro power_increasing) auto
  then show "unat (rsize r) \<le> 2147483648" using k by simp
  have "(2 :: nat) ^ k dvd 2 ^ 32" using k(1) by (intro le_imp_power_dvd) simp
  then show "unat (rsize r) dvd 4294967296" using k by simp
  have sz: "rsize r = 2 ^ k" using k unat_exp32 by (metis word_unat_eq_iff)
  then have msk: "rmask r = mask k" using assms by (simp add: ring_ok_def mask_eq_decr_exp)
  then show "unat (x AND rmask r) = unat x mod unat (rsize r)" for x
    using k(2) by (simp add: unat_and_mask)
  have "unat (rmask r) = unat (rsize r) - 1"
    using assms k by (simp add: ring_ok_def unat_minus_one unat_gt_0 [symmetric])
  moreover have "unat (capacity r) \<le> unat (rmask r)"
    using assms by (auto simp: ring_ok_def word_le_nat_alt)
  ultimately show "unat (capacity r) < unat (rsize r)" using pos by linarith
qed

lemma unat_add_mod_size:
  fixes x y :: u32
  assumes "ring_ok r"
  shows "unat (x + y) mod unat (rsize r) = (unat x + unat y) mod unat (rsize r)"
  using ring_okD(4) [OF assms] by (simp add: unat_word_ariths mod_mod_cancel)

section \<open>The effect of the operations on the contents\<close>

text \<open>Entries pushed behind the contents, entries popped from their front.\<close>

definition ring_push :: "'a BuffRing \<Rightarrow> 'a list \<Rightarrow> 'a BuffRing" where
  "ring_push r xs =
     (let h = tail (prod_ht r)
      in r\<lparr>rdata := ring_put (rdata r) (unat h mod unat (rsize r)) xs,
           prod_ht := \<lparr>head = h + of_nat (length xs), tail = h + of_nat (length xs)\<rparr>\<rparr>)"

definition ring_pop :: "'a BuffRing \<Rightarrow> nat \<Rightarrow> 'a BuffRing" where
  "ring_pop r k =
     (let c = tail (cons_ht r) in r\<lparr>cons_ht := \<lparr>head = c + of_nat k, tail = c + of_nat k\<rparr>\<rparr>)"

lemma ring_push_frame [simp]:
  "capacity (ring_push r xs) = capacity r" "behavior (ring_push r xs) = behavior r"
  "rsize (ring_push r xs) = rsize r" "rmask (ring_push r xs) = rmask r"
  "cons_ht (ring_push r xs) = cons_ht r"
  "head (prod_ht (ring_push r xs)) = tail (prod_ht (ring_push r xs))" "length (rdata (ring_push r xs)) = length (rdata r)"
  by (simp_all add: ring_push_def Let_def)

lemma ring_pop_frame [simp]:
  "capacity (ring_pop r k) = capacity r" "behavior (ring_pop r k) = behavior r"
  "rsize (ring_pop r k) = rsize r" "rmask (ring_pop r k) = rmask r"
  "prod_ht (ring_pop r k) = prod_ht r"
  "head (cons_ht (ring_pop r k)) = tail (cons_ht (ring_pop r k))" "rdata (ring_pop r k) = rdata r"
  by (simp_all add: ring_pop_def Let_def)

lemma ring_push_used:
  assumes "ring_ok r" "ring_used r + length xs \<le> unat (capacity r)"
  shows "ring_used (ring_push r xs) = ring_used r + length xs"
proof -
  let ?d = "tail (prod_ht r) - tail (cons_ht r)"
  have "length xs < 4294967296" using assms(2) unat_less_exp32 [of "capacity r"] by linarith
  then have "unat (?d + of_nat (length xs)) = unat ?d + length xs"
    using assms(2) unat_less_exp32 [of "capacity r"]
    by (subst unat_add_no_wrap) (simp_all add: unat_of_nat32 ring_used_def)
  then show ?thesis by (simp add: ring_used_def ring_push_def Let_def algebra_simps)
qed

lemma ring_push_ok [ring_intros]:
  assumes "ring_ok r" "ring_used r + length xs \<le> unat (capacity r)"
  shows "ring_ok (ring_push r xs)"
  using assms ring_push_used [OF assms] by (auto simp: ring_ok_def)

lemma prod_position:
  assumes "ring_ok r"
  shows "unat (tail (prod_ht r)) mod unat (rsize r) =
    (unat (tail (cons_ht r)) + ring_used r) mod unat (rsize r)"
  using unat_add_mod_size [OF assms, of "tail (cons_ht r)" "tail (prod_ht r) - tail (cons_ht r)"]
  by (simp add: ring_used_def)

lemma ring_push_contents:
  assumes "ring_ok r" "ring_used r + length xs \<le> unat (capacity r)"
  shows "ring_contents (ring_push r xs) = ring_contents r @ xs"
proof -
  have len: "length (rdata r) = unat (rsize r)" using assms(1) by (simp add: ring_ok_def)
  have "rdata (ring_push r xs) =
    ring_put (rdata r) ((unat (tail (cons_ht r)) + ring_used r) mod length (rdata r)) xs"
    using prod_position [OF assms(1)] len by (simp add: ring_push_def Let_def)
  then show ?thesis
    using ring_slice_put_append [of "rdata r" "ring_used r" xs "unat (tail (cons_ht r))"]
      ring_push_used [OF assms] ring_okD [OF assms(1)] assms(2) len
    by (simp add: ring_contents_def)
qed

lemma ring_pop_used:
  assumes "ring_ok r" "k \<le> ring_used r"
  shows "ring_used (ring_pop r k) = ring_used r - k"
proof -
  let ?d = "tail (prod_ht r) - tail (cons_ht r)"
  have k: "k \<le> unat ?d" using assms(2) by (simp add: ring_used_def)
  then have "unat (of_nat k :: u32) = k" using unat_less_exp32 [of ?d] by (intro unat_of_nat32) linarith
  then have "unat (?d - of_nat k) = unat ?d - k"
    using k by (subst unat_sub) (simp_all add: word_le_nat_alt)
  then show ?thesis by (simp add: ring_used_def ring_pop_def Let_def algebra_simps)
qed

lemma ring_pop_ok [ring_intros]:
  assumes "ring_ok r" "k \<le> ring_used r"
  shows "ring_ok (ring_pop r k)"
  using assms ring_pop_used [OF assms] by (auto simp: ring_ok_def)

lemma ring_pop_contents:
  assumes "ring_ok r" "k \<le> ring_used r"
  shows "ring_contents (ring_pop r k) = drop k (ring_contents r)"
proof -
  have len: "length (rdata r) = unat (rsize r)" using assms(1) by (simp add: ring_ok_def)
  have "k < 4294967296" using assms(2) unat_less_exp32 by (simp add: ring_used_def le_less_trans)
  then have "unat (tail (cons_ht (ring_pop r k))) mod length (rdata r) =
      (unat (tail (cons_ht r)) + k) mod length (rdata r)"
    using unat_add_mod_size [OF assms(1), of "tail (cons_ht r)" "of_nat k"] len
    by (simp add: ring_pop_def Let_def unat_of_nat32)
  then have "ring_slice (rdata r) (unat (tail (cons_ht (ring_pop r k)))) m =
      ring_slice (rdata r) (unat (tail (cons_ht r)) + k) m" for m
    by (metis ring_slice_mod)
  then show ?thesis
    using ring_pop_used [OF assms] by (simp add: ring_contents_def drop_ring_slice)
qed

section \<open>DoEnqueue and DoDequeue\<close>

definition ring_fixed :: "'a BuffRing \<Rightarrow> bool" where
  "ring_fixed r \<longleftrightarrow> behavior r = kRingQueueFixed"

text \<open>The reservation loops are left at the first turn when one thread runs.\<close>

lemma MoveProdHead_eq:
  "MoveProdHead max_n r =
     (let free_entries = capacity r + tail (cons_ht r) - head (prod_ht r);
          n = (if max_n > free_entries then (if ring_fixed r then 0 else free_entries) else max_n)
      in if n = 0 then Some (0, head (prod_ht r), None, free_entries, r)
         else Some (n, head (prod_ht r), Some (head (prod_ht r) + n), free_entries,
           r\<lparr>prod_ht := (prod_ht r)\<lparr>head := head (prod_ht r) + n\<rparr>\<rparr>))"
  by (subst MoveProdHead.simps) (simp add: Let_def AtomicCAS_def ring_fixed_def)

lemma MoveConsumerHead_eq:
  "MoveConsumerHead max_n r =
     (let entries = tail (prod_ht r) - head (cons_ht r);
          n = (if max_n > entries then (if ring_fixed r then 0 else entries) else max_n)
      in if n = 0 then Some (0, head (cons_ht r), None, entries, r)
         else Some (n, head (cons_ht r), Some (head (cons_ht r) + n), entries,
           r\<lparr>cons_ht := (cons_ht r)\<lparr>head := head (cons_ht r) + n\<rparr>\<rparr>))"
  by (subst MoveConsumerHead.simps) (simp add: Let_def AtomicCAS_def ring_fixed_def)

lemma wait_tail_eq: "wait_tail ht old_val = (if tail ht = old_val then Some ht else None)"
proof (cases "tail ht = old_val")
  case False
  have "tail ht = old_val" if "wait_tail ht old_val = Some ht'" for ht'
  proof (rule wait_tail.raw_induct [where P = "\<lambda>ht old_val r. tail ht = old_val", OF _ that])
    fix f :: "RingHeadtail \<Rightarrow> u32 \<Rightarrow> RingHeadtail option" and ht old_val r
    assume "\<And>ht old_val r. f ht old_val = Some r \<Longrightarrow> tail ht = old_val"
      and "(if tail ht \<noteq> old_val then f ht old_val else Some ht) = Some r"
    then show "tail ht = old_val" by (metis (full_types))
  qed
  then show ?thesis using False by (cases "wait_tail ht old_val") auto
qed (simp add: wait_tail.simps)

lemma UpdateTail_eq:
  "single \<or> tail ht = old_val \<Longrightarrow> UpdateTail ht old_val new_val single = Some (ht\<lparr>tail := new_val\<rparr>)"
  by (auto simp: UpdateTail_def wait_tail_eq)

lemma RingHeadtail_set: "(ht :: RingHeadtail)\<lparr>head := a, tail := b\<rparr> = \<lparr>head = a, tail = b\<rparr>"
  by (cases ht) simp

lemma ring_push_nil: "ring_ok r \<Longrightarrow> ring_push r [] = r"
  by (auto simp: ring_ok_def ring_push_def Let_def intro!: BuffRing.equality RingHeadtail.equality)

lemma ring_pop_0: "ring_ok r \<Longrightarrow> ring_pop r 0 = r"
  by (auto simp: ring_ok_def ring_pop_def Let_def intro!: BuffRing.equality RingHeadtail.equality)

lemma free_entries_unat:
  assumes "ring_ok r"
  shows "unat (capacity r + tail (cons_ht r) - head (prod_ht r)) = unat (capacity r) - ring_used r"
proof -
  have eq: "capacity r + tail (cons_ht r) - head (prod_ht r) =
      capacity r - (tail (prod_ht r) - tail (cons_ht r))"
    using assms by (simp add: ring_ok_def algebra_simps)
  have "tail (prod_ht r) - tail (cons_ht r) \<le> capacity r"
    using assms by (simp add: ring_ok_def ring_used_def word_le_nat_alt)
  then show ?thesis unfolding eq ring_used_def by (rule unat_sub)
qed

lemma entries_unat:
  assumes "ring_ok r"
  shows "unat (tail (prod_ht r) - head (cons_ht r)) = ring_used r"
  using assms by (simp add: ring_ok_def ring_used_def)

lemma admit_word:
  "unat (if max_n > avail then (if b then 0 else avail) else max_n) = admit b (unat max_n) (unat avail)"
  by (auto simp: admit_def word_less_nat_alt)

lemma DoEnqueue_eq:
  assumes ok: "ring_ok r" and n: "unat n \<le> length obj"
  shows "\<exists>k free. DoEnqueue r obj n = Some (k, free, ring_push r (take (unat k) obj)) \<and>
    unat k = admit (ring_fixed r) (unat n) (unat (capacity r) - ring_used r) \<and>
    unat free = unat (capacity r) - ring_used r - unat k"
proof -
  let ?fe = "capacity r + tail (cons_ht r) - head (prod_ht r)"
  define k where "k = (if n > ?fe then (if ring_fixed r then 0 else ?fe) else n)"
  have k: "unat k = admit (ring_fixed r) (unat n) (unat (capacity r) - ring_used r)"
    unfolding k_def by (simp only: admit_word free_entries_unat [OF ok])
  have mv: "MoveProdHead n r = (if k = 0 then Some (0, head (prod_ht r), None, ?fe, r)
      else Some (k, head (prod_ht r), Some (head (prod_ht r) + k), ?fe,
        r\<lparr>prod_ht := (prod_ht r)\<lparr>head := head (prod_ht r) + k\<rparr>\<rparr>))"
    unfolding MoveProdHead_eq k_def Let_def by (rule refl)
  have le: "unat k \<le> unat n" "unat k \<le> unat ?fe"
    by (simp_all only: k free_entries_unat [OF ok] admit_le)
  then have fr: "unat (?fe - k) = unat (capacity r) - ring_used r - unat k"
    by (subst unat_sub) (simp_all only: word_le_nat_alt free_entries_unat [OF ok])
  have ht: "head (prod_ht r) = tail (prod_ht r)" "length (rdata r) = unat (rsize r)"
    using ok by (simp_all add: ring_ok_def)
  have "DoEnqueue r obj n = Some (k, ?fe - k, ring_push r (take (unat k) obj))"
  proof (cases "k = 0")
    case True
    then show ?thesis
      using ring_push_nil [OF ok]
      by (simp add: DoEnqueue_def mv)
  next
    case False
    have "unat k \<le> unat (rsize r)"
      using le(2) free_entries_unat [OF ok] ring_okD(3) [OF ok] by linarith
    then have "ENQUEUE_PTRS (rsize r) (rmask r) (rdata r) (head (prod_ht r)) obj k =
        Some (ring_put (rdata r) (unat (head (prod_ht r)) mod unat (rsize r)) (take (unat k) obj))"
      using ring_okD [OF ok] ht(2) le(1) n by (intro ENQUEUE_PTRS_put) auto
    moreover have "length (take (unat k) obj) = unat k" using le(1) n by simp
    ultimately show ?thesis
      using False ht
      by (simp add: DoEnqueue_def mv UpdateTail_eq ring_push_def Let_def RingHeadtail_set
          del: length_take)
  qed
  with k fr show ?thesis by blast
qed

lemma DoDequeue_eq:
  assumes ok: "ring_ok r" and n: "unat n \<le> length obj"
  shows "\<exists>k avail. DoDequeue r obj n =
      Some (k, avail, take (unat k) (ring_contents r) @ drop (unat k) obj, ring_pop r (unat k)) \<and>
    unat k = admit (ring_fixed r) (unat n) (ring_used r) \<and>
    unat avail = ring_used r - unat k"
proof -
  let ?en = "tail (prod_ht r) - head (cons_ht r)"
  define k where "k = (if n > ?en then (if ring_fixed r then 0 else ?en) else n)"
  have k: "unat k = admit (ring_fixed r) (unat n) (ring_used r)"
    unfolding k_def by (simp only: admit_word entries_unat [OF ok])
  have mv: "MoveConsumerHead n r = (if k = 0 then Some (0, head (cons_ht r), None, ?en, r)
      else Some (k, head (cons_ht r), Some (head (cons_ht r) + k), ?en,
        r\<lparr>cons_ht := (cons_ht r)\<lparr>head := head (cons_ht r) + k\<rparr>\<rparr>))"
    unfolding MoveConsumerHead_eq k_def Let_def by (rule refl)
  have le: "unat k \<le> unat n" "unat k \<le> unat ?en"
    by (simp_all only: k entries_unat [OF ok] admit_le)
  then have av: "unat (?en - k) = ring_used r - unat k"
    by (subst unat_sub) (simp_all only: word_le_nat_alt entries_unat [OF ok])
  have ht: "head (cons_ht r) = tail (cons_ht r)" "length (rdata r) = unat (rsize r)"
    "ring_used r \<le> unat (capacity r)"
    using ok by (simp_all add: ring_ok_def)
  have "DoDequeue r obj n =
    Some (k, ?en - k, take (unat k) (ring_contents r) @ drop (unat k) obj, ring_pop r (unat k))"
  proof (cases "k = 0")
    case True
    then show ?thesis
      using ring_pop_0 [OF ok]
      by (simp add: DoDequeue_def mv)
  next
    case False
    have ku: "unat k \<le> ring_used r" using le(2) entries_unat [OF ok] by simp
    then have "unat k \<le> unat (rsize r)" using ht(3) ring_okD(3) [OF ok] by linarith
    then have "DEQUEUE_PTRS (rsize r) (rmask r) (rdata r) (head (cons_ht r)) obj k =
        Some (ring_slice (rdata r) (unat (head (cons_ht r)) mod unat (rsize r)) (unat k) @ drop (unat k) obj)"
      using ring_okD [OF ok] ht(2) le(1) n by (intro DEQUEUE_PTRS_slice) auto
    also have "ring_slice (rdata r) (unat (head (cons_ht r)) mod unat (rsize r)) (unat k) =
        take (unat k) (ring_contents r)"
      unfolding ht(2) [symmetric] ring_slice_mod
      using ku ht(1) by (simp add: ring_contents_def take_ring_slice)
    finally show ?thesis
      using False ht
      by (simp add: DoDequeue_def mv UpdateTail_eq ring_pop_def Let_def RingHeadtail_set)
  qed
  with k av show ?thesis by blast
qed

section \<open>Constructor and counters\<close>

lemma new_BuffRing_Some:
  assumes "RoundupPowerOf2 sz = Some s" "IsPowerOf2 s"
  shows "\<exists>r. new_BuffRing dflt sz behav sp sc = Some r \<and> ring_ok r \<and> ring_contents r = [] \<and>
    rsize r = s \<and> capacity r = s - 1"
  using assms by (auto simp: new_BuffRing_def ring_ok_def ring_contents_def ring_used_def)

lemma RingCount_unat:
  assumes "ring_ok r"
  shows "unat (RingCount r) = ring_used r"
proof -
  have "unat ((tail (prod_ht r) - tail (cons_ht r)) AND rmask r) = ring_used r mod unat (rsize r)"
    using ring_okD(5) [OF assms] by (simp add: ring_used_def)
  also have "\<dots> = ring_used r"
    using assms ring_okD(3) [OF assms] by (simp add: ring_ok_def)
  finally show ?thesis
    using assms by (auto simp: RingCount_def Let_def ring_ok_def word_less_nat_alt)
qed

lemma RingFreeCount_unat:
  assumes "ring_ok r"
  shows "unat (RingFreeCount r) = unat (capacity r) - ring_used r"
proof -
  have "RingCount r \<le> capacity r"
    using assms RingCount_unat [OF assms] by (simp add: ring_ok_def word_le_nat_alt)
  then show ?thesis by (simp add: RingFreeCount_def unat_sub RingCount_unat [OF assms])
qed

section \<open>The ring as a bounded queue\<close>

definition ring_enq :: "'a BuffRing \<Rightarrow> 'a list \<Rightarrow> (nat \<times> 'a BuffRing) option" where
  "ring_enq r xs = do {
     (k, free, r) \<leftarrow> DoEnqueue r xs (of_nat (length xs));
     Some (unat k, r) }"

definition ring_deq :: "'a BuffRing \<Rightarrow> 'a list \<Rightarrow> (nat \<times> 'a list \<times> 'a BuffRing) option" where
  "ring_deq r buf = do {
     (k, available, buf, r) \<leftarrow> DoDequeue r buf (of_nat (length buf));
     Some (unat k, buf, r) }"

definition ring_cap :: "'a BuffRing \<Rightarrow> nat" where
  "ring_cap r = unat (capacity r)"

lemma ring_fixed_frame [simp]:
  "ring_fixed (ring_push r xs) = ring_fixed r" "ring_fixed (ring_pop r k) = ring_fixed r"
  "ring_cap (ring_push r xs) = ring_cap r" "ring_cap (ring_pop r k) = ring_cap r"
  by (simp_all add: ring_fixed_def ring_cap_def)

lemma ring_enq_push:
  assumes "ring_ok r" "length xs < 4294967296"
  shows "ring_enq r xs =
    (let k = admit (ring_fixed r) (length xs) (ring_cap r - ring_used r)
     in Some (k, ring_push r (take k xs)))"
  using DoEnqueue_eq [OF assms(1), of "of_nat (length xs)" xs] assms(2)
  by (auto simp: ring_enq_def ring_cap_def unat_of_nat32 Let_def)

lemma ring_deq_pop:
  assumes "ring_ok r" "length buf < 4294967296"
  shows "ring_deq r buf =
    (let k = admit (ring_fixed r) (length buf) (ring_used r)
     in Some (k, take k (ring_contents r) @ drop k buf, ring_pop r k))"
  using DoDequeue_eq [OF assms(1), of "of_nat (length buf)" buf] assms(2)
  by (auto simp: ring_deq_def unat_of_nat32 Let_def)

lemma ring_push_admitted:
  assumes "ring_ok r" "k = admit b n (ring_cap r - ring_used r)"
  shows "ring_ok (ring_push r (take k xs))" "ring_contents (ring_push r (take k xs)) = ring_contents r @ take k xs"
proof -
  have "ring_used r \<le> unat (capacity r)" using assms(1) by (simp add: ring_ok_def)
  moreover have "length (take k xs) \<le> ring_cap r - ring_used r"
    using assms(2) admit_le(2) [of b n "ring_cap r - ring_used r"] by simp
  ultimately have "ring_used r + length (take k xs) \<le> unat (capacity r)"
    by (simp add: ring_cap_def)
  with assms(1) show "ring_ok (ring_push r (take k xs))"
    "ring_contents (ring_push r (take k xs)) = ring_contents r @ take k xs"
    by (simp_all add: ring_push_ok ring_push_contents)
qed

interpretation buffring: bounded_queue ring_ok ring_contents ring_cap ring_fixed ring_enq ring_deq
proof unfold_locales
  show "length (ring_contents q) \<le> ring_cap q" if "ring_ok q" for q :: "'a BuffRing"
    using that by (simp add: ring_ok_def ring_cap_def)
qed (auto simp: ring_enq_push ring_deq_pop ring_push_admitted ring_pop_ok ring_pop_contents
  admit_le Let_def)

definition ring_count :: "'a BuffRing \<Rightarrow> nat" where
  "ring_count r = unat (RingCount r)"

definition ring_free_count :: "'a BuffRing \<Rightarrow> nat" where
  "ring_free_count r = unat (RingFreeCount r)"

interpretation buffring: counted_queue ring_ok ring_contents ring_cap ring_fixed ring_enq ring_deq
  ring_count ring_free_count RingFull RingEmpoty
proof unfold_locales
  fix q :: "'a BuffRing"
  assume ok: "ring_ok q"
  show "ring_count q = length (ring_contents q)" "ring_free_count q = ring_cap q - length (ring_contents q)"
    using ok by (simp_all add: ring_count_def ring_free_count_def ring_cap_def RingCount_unat RingFreeCount_unat)
  show "RingFull q \<longleftrightarrow> length (ring_contents q) = ring_cap q"
    using RingFreeCount_unat [OF ok] ok
    by (auto simp: RingFull_def ring_cap_def ring_ok_def unat_eq_0 [symmetric])
  show "RingEmpoty q \<longleftrightarrow> ring_contents q = []"
    using RingCount_unat [OF ok] by (auto simp: RingEmpoty_def unat_eq_0 [symmetric] length_0_conv [symmetric]
      simp del: length_0_conv)
qed

section \<open>Properties\<close>

text \<open>
  C39. For every size up to \<open>2^31\<close> the constructor returns a well-formed empty ring with room
  for one entry less than the least power of two not below the size; for a larger size it does not
  return.
\<close>

theorem new_BuffRing_ok:
  "if unat sz \<le> 2147483648
   then \<exists>r. new_BuffRing dflt sz behav sp sc = Some r \<and> ring_ok r \<and> ring_contents r = [] \<and>
     RoundupPowerOf2 sz = Some (RingSize r) \<and> RingCapacity r = RingSize r - 1 \<and> RingEmpoty r
   else new_BuffRing dflt sz behav sp sc = None"
proof (cases "unat sz \<le> 2147483648")
  case True
  then obtain s k where s: "RoundupPowerOf2 sz = Some s" "k < 32" "unat s = 2 ^ k"
    using RoundupPowerOf2_spec by blast
  then have "IsPowerOf2 s" by (auto simp: IsPowerOf2_iff)
  then obtain r where r: "new_BuffRing dflt sz behav sp sc = Some r" "ring_ok r"
    "ring_contents r = []" "rsize r = s" "capacity r = s - 1"
    using new_BuffRing_Some [OF s(1), of dflt behav sp sc] by blast
  then have "RingEmpoty r" using buffring.empty_law by blast
  with r s(1) True show ?thesis by (simp add: RingSize_def RingCapacity_def)
next
  case False
  then show ?thesis by (simp add: new_BuffRing_def RoundupPowerOf2_None)
qed

text \<open>
  C24. \<open>DoEnqueue\<close> of \<open>n\<close> entries on a well-formed ring returns (no access outside an array,
  no endless wait), grants all of them, or none or as many as fit according to the mode, appends
  exactly the granted ones to the contents and reports the room that is left.
\<close>

theorem DoEnqueue_refines:
  assumes "ring_ok r" "unat n \<le> length obj"
  shows "\<exists>k free r'. DoEnqueue r obj n = Some (k, free, r') \<and> ring_ok r' \<and>
    unat k = admit (behavior r = kRingQueueFixed) (unat n) (unat (capacity r) - length (ring_contents r)) \<and>
    unat free = unat (capacity r) - length (ring_contents r') \<and>
    ring_contents r' = ring_contents r @ take (unat k) obj \<and> capacity r' = capacity r"
proof -
  obtain k free where k: "DoEnqueue r obj n = Some (k, free, ring_push r (take (unat k) obj))"
    "unat k = admit (ring_fixed r) (unat n) (ring_cap r - ring_used r)"
    "unat free = ring_cap r - ring_used r - unat k"
    using DoEnqueue_eq [OF assms] by (auto simp: ring_cap_def)
  note pa = ring_push_admitted [OF assms(1) k(2), of obj]
  have "unat k \<le> length obj" using k(2) admit_le(1) [of "ring_fixed r"] assms(2) le_trans by metis
  moreover from this have "ring_used (ring_push r (take (unat k) obj)) = ring_used r + unat k"
    using arg_cong [OF pa(2), of length] by simp
  ultimately show ?thesis using k pa
    by (intro exI [of _ k] exI [of _ free] exI [of _ "ring_push r (take (unat k) obj)"])
      (simp add: ring_fixed_def ring_cap_def)
qed

text \<open>
  C25. \<open>DoDequeue\<close> delivers the front of the contents, in order, into the first entries of the
  caller's buffer, leaves the rest of the buffer as it was and removes exactly what it delivered.
\<close>

theorem DoDequeue_refines:
  assumes "ring_ok r" "unat n \<le> length obj"
  shows "\<exists>k available obj' r'. DoDequeue r obj n = Some (k, available, obj', r') \<and> ring_ok r' \<and>
    unat k = admit (behavior r = kRingQueueFixed) (unat n) (length (ring_contents r)) \<and>
    obj' = take (unat k) (ring_contents r) @ drop (unat k) obj \<and>
    ring_contents r' = drop (unat k) (ring_contents r) \<and>
    unat available = length (ring_contents r') \<and> capacity r' = capacity r"
proof -
  obtain k avail where k: "DoDequeue r obj n = Some (k, avail,
      take (unat k) (ring_contents r) @ drop (unat k) obj, ring_pop r (unat k))"
    "unat k = admit (ring_fixed r) (unat n) (ring_used r)" "unat avail = ring_used r - unat k"
    using DoDequeue_eq [OF assms] by blast
  have "unat k \<le> ring_used r" using k(2) admit_le(2) by metis
  with k assms show ?thesis
    by (auto simp: ring_pop_ok ring_pop_contents ring_pop_used ring_fixed_def)
qed

text \<open>
  C11. First in, first out: whatever sequence of enqueues and dequeues runs on a well-formed
  ring, the run returns, and the old contents followed by the accepted entries are the delivered
  entries followed by the new contents. Nothing is lost, duplicated or reordered.
\<close>

theorem ring_fifo:
  assumes "ring_ok r" "\<forall>op \<in> set ops. op_size op < 4294967296"
  shows "\<exists>ins outs r'. queue_run ring_enq ring_deq ops r = Some (ins, outs, r') \<and> ring_ok r' \<and>
    ring_contents r @ ins = outs @ ring_contents r'"
  using buffring.run_fifo [OF assms] by blast

text \<open>
  The counters agree with the contents: count and free count add up to the capacity, the
  ring is full exactly when an enqueue of one entry is refused, and empty exactly when a dequeue
  of one entry delivers nothing.
\<close>

theorem ring_counters:
  assumes "ring_ok r"
  shows "unat (RingCount r) = length (ring_contents r) \<and>
    unat (RingCount r) + unat (RingFreeCount r) = unat (RingCapacity r) \<and>
    (RingFull r \<longleftrightarrow> (\<exists>free r'. DoEnqueue1 r x = Some (0, free, r'))) \<and>
    (RingEmpoty r \<longleftrightarrow> (\<exists>available obj' r'. DoDequeue r [x] 1 = Some (0, available, obj', r')))"
proof (intro conjI)
  show "unat (RingCount r) = length (ring_contents r)"
    using RingCount_unat [OF assms] by simp
  show "unat (RingCount r) + unat (RingFreeCount r) = unat (RingCapacity r)"
    using buffring.count_plus_free [OF assms]
    by (simp add: ring_count_def ring_free_count_def ring_cap_def RingCapacity_def)
  show "RingFull r \<longleftrightarrow> (\<exists>free r'. DoEnqueue1 r x = Some (0, free, r'))"
    using buffring.full_rejects [OF assms, of x] DoEnqueue_eq [OF assms, of 1 "[x]"]
    by (auto simp: ring_enq_def DoEnqueue1_def unat_eq_0)
  show "RingEmpoty r \<longleftrightarrow> (\<exists>available obj' r'. DoDequeue r [x] 1 = Some (0, available, obj', r'))"
    using buffring.empty_delivers_nothing [OF assms, of x] DoDequeue_eq [OF assms, of 1 "[x]"]
    by (auto simp: ring_deq_def unat_eq_0)
qed

section \<open>The hypotheses hold on a ring whose positions have wrapped\<close>

text \<open>Four slots, two entries, the producer's position past the end of the 32-bit range.\<close>

definition wrapped_ring :: "nat BuffRing" where
  "wrapped_ring = \<lparr>rsize = 4, rmask = 3, capacity = 3, behavior = kRingQueueVariable,
     single_producer = False, single_consumer = True,
     prod_ht = \<lparr>head = 0, tail = 0\<rparr>, cons_ht = \<lparr>head = 4294967294, tail = 4294967294\<rparr>,
     rdata = [10, 11, 12, 13]\<rparr>"

lemma wrapped_ring_ok: "ring_ok wrapped_ring"
  by (simp add: ring_ok_def wrapped_ring_def IsPowerOf2_def ring_used_def)

lemma wrapped_ring_contents: "ring_contents wrapped_ring = [12, 13]"
  by (simp add: ring_contents_def wrapped_ring_def ring_used_def ring_slice_def upt_rec)

lemma wrapped_ring_fields: "capacity wrapped_ring = 3" "behavior wrapped_ring = kRingQueueVariable"
  by (simp_all add: wrapped_ring_def)

theorem DoEnqueue_refines_witness:
  "\<exists>k free r'. DoEnqueue wrapped_ring [7, 8] 2 = Some (k, free, r') \<and> ring_ok r' \<and>
     unat k = 1 \<and> ring_contents r' = [12, 13, 7]"
  using DoEnqueue_refines [OF wrapped_ring_ok, of 2 "[7, 8]"]
  by (auto simp: wrapped_ring_contents wrapped_ring_fields admit_def)

theorem DoDequeue_refines_witness:
  "\<exists>k available obj' r'. DoDequeue wrapped_ring [0, 0, 0] 3 = Some (k, available, obj', r') \<and>
     unat k = 2 \<and> obj' = [12, 13, 0] \<and> ring_contents r' = []"
  using DoDequeue_refines [OF wrapped_ring_ok, of 3 "[0, 0, 0]"]
  by (auto simp: wrapped_ring_contents wrapped_ring_fields admit_def)

theorem ring_fifo_witness:
  "\<exists>ins outs r'. queue_run ring_enq ring_deq [Enq [7, 8], Deq [0, 0], Enq [9]] wrapped_ring =
     Some (ins, outs, r') \<and> ring_ok r' \<and> [12, 13] @ ins = outs @ ring_contents r'"
  using ring_fifo [OF wrapped_ring_ok, of "[Enq [7, 8], Deq [0, 0], Enq [9]]"]
  by (simp add: wrapped_ring_contents)

theorem ring_counters_witness:
  "unat (RingCount wrapped_ring) = 2 \<and> \<not> RingFull wrapped_ring \<and>
   (RingFull wrapped_ring \<longleftrightarrow> (\<exists>free r'. DoEnqueue1 wrapped_ring 5 = Some (0, free, r')))"
  using ring_counters [OF wrapped_ring_ok, of 5]
  by (simp add: wrapped_ring_contents) (simp add: wrapped_ring_def RingFull_def RingFreeCount_def RingCount_def)

end
