(* ===== verification/Ring_Conc.thy ===== *)
theory Ring_Conc
  imports Buff_Ring
begin

text \<open>
  The ring of \<^verbatim>\<open>buffer_ring.h\<close> shared by threads: any number of producers and any number of
  consumers, in all four combinations of the flags \<^verbatim>\<open>single_producer\<close> and \<^verbatim>\<open>single_consumer\<close>. Every
  read or write of a shared variable in \<open>DoEnqueue\<close> and \<open>DoDequeue\<close> is one step of the thread that
  runs it, and any thread may move next; memory is sequentially consistent.

  Ghost variables, which no guard reads, name the history: the entries in the order in which
  their reservations succeeded, what the calls of \<open>DoDequeue\<close> have returned, and the positions as
  unbounded numbers.
\<close>

section \<open>Threads and steps\<close>

text \<open>
  Where a producer is in \<open>DoEnqueue\<close>: outside; at the head of the loop of \<open>MoveProdHead\<close>; after
  the read of \<^verbatim>\<open>prod_.head\<close>; before the store or compare-and-swap of the head, the number granted
  being known; in \<open>ENQUEUE_PTRS\<close> before the write of entry \<open>j\<close>, or, all written, in \<open>UpdateTail\<close>.
  A consumer is in the corresponding places of \<open>DoDequeue\<close>; in \<open>DEQUEUE_PTRS\<close> it has filled a
  part of the caller's buffer. The \<open>nat\<close> after each head is the ghost position it stands for.
\<close>

datatype 'a producer =
  P_idle
| P_start "'a list"
| P_head "'a list" u32 nat
| P_cas "'a list" u32 nat u32
| P_copy "'a list" u32 nat nat

datatype 'a consumer =
  C_idle
| C_start u32
| C_head u32 u32 nat
| C_cas u32 u32 nat u32
| C_copy u32 nat nat "'a list"

record 'a ring_sys =
  ring :: "'a BuffRing"
  producers :: "nat \<Rightarrow> 'a producer"
  consumers :: "nat \<Rightarrow> 'a consumer"
  accepted :: "'a list"
  published :: nat
  taken :: nat
  released :: nat
  returned :: "(nat \<times> 'a list) list"

definition prod_free :: "'a BuffRing \<Rightarrow> u32 \<Rightarrow> u32" where
  "prod_free r old_head = capacity r + tail (cons_ht r) - old_head"

definition grant :: "'a BuffRing \<Rightarrow> u32 \<Rightarrow> u32 \<Rightarrow> u32" where
  "grant r max_n avail =
     (if max_n > avail then (if behavior r = kRingQueueFixed then 0 else avail) else max_n)"

definition slot :: "'a BuffRing \<Rightarrow> u32 \<Rightarrow> nat \<Rightarrow> nat" where
  "slot r h j = unat (((h AND rmask r) + of_nat j) mod rsize r)"

abbreviation set_producer :: "nat \<Rightarrow> 'a producer \<Rightarrow> 'a ring_sys \<Rightarrow> 'a ring_sys" where
  "set_producer i p s \<equiv> s\<lparr>producers := (producers s)(i := p)\<rparr>"

abbreviation set_consumer :: "nat \<Rightarrow> 'a consumer \<Rightarrow> 'a ring_sys \<Rightarrow> 'a ring_sys" where
  "set_consumer i c s \<equiv> s\<lparr>consumers := (consumers s)(i := c)\<rparr>"

text \<open>With the flag set the head is stored and the tail is not waited for.\<close>

inductive producer_step :: "nat \<Rightarrow> 'a ring_sys \<Rightarrow> 'a ring_sys \<Rightarrow> bool" for i :: nat where
  p_call: "producers s i = P_idle \<Longrightarrow> length xs < 4294967296 \<Longrightarrow>
    producer_step i s (set_producer i (P_start xs) s)"
| p_read_head: "producers s i = P_start xs \<Longrightarrow>
    producer_step i s (set_producer i (P_head xs (head (prod_ht (ring s))) (length (accepted s))) s)"
| p_refused: "producers s i = P_head xs h g \<Longrightarrow>
    grant (ring s) (of_nat (length xs)) (prod_free (ring s) h) = 0 \<Longrightarrow>
    producer_step i s (set_producer i P_idle s)"
| p_granted: "producers s i = P_head xs h g \<Longrightarrow>
    n = grant (ring s) (of_nat (length xs)) (prod_free (ring s) h) \<Longrightarrow> n \<noteq> 0 \<Longrightarrow>
    producer_step i s (set_producer i (P_cas xs h g n) s)"
| p_cas_fail: "producers s i = P_cas xs h g n \<Longrightarrow>
    \<not> single_producer (ring s) \<Longrightarrow> head (prod_ht (ring s)) \<noteq> h \<Longrightarrow>
    producer_step i s (set_producer i (P_start xs) s)"
| p_cas_ok: "producers s i = P_cas xs h g n \<Longrightarrow>
    single_producer (ring s) \<or> head (prod_ht (ring s)) = h \<Longrightarrow>
    producer_step i s (set_producer i (P_copy (take (unat n) xs) h (length (accepted s)) 0)
      (s\<lparr>ring := (ring s)\<lparr>prod_ht := (prod_ht (ring s))\<lparr>head := h + n\<rparr>\<rparr>,
         accepted := accepted s @ take (unat n) xs\<rparr>))"
| p_copy: "producers s i = P_copy xs h g j \<Longrightarrow> j < length xs \<Longrightarrow>
    producer_step i s (set_producer i (P_copy xs h g (Suc j))
      (s\<lparr>ring := (ring s)\<lparr>rdata := (rdata (ring s))[slot (ring s) h j := xs ! j]\<rparr>\<rparr>))"
| p_spin: "producers s i = P_copy xs h g (length xs) \<Longrightarrow>
    \<not> single_producer (ring s) \<Longrightarrow> tail (prod_ht (ring s)) \<noteq> h \<Longrightarrow>
    producer_step i s s"
| p_publish: "producers s i = P_copy xs h g (length xs) \<Longrightarrow>
    single_producer (ring s) \<or> tail (prod_ht (ring s)) = h \<Longrightarrow>
    producer_step i s (set_producer i P_idle
      (s\<lparr>ring := (ring s)\<lparr>prod_ht := (prod_ht (ring s))\<lparr>tail := h + of_nat (length xs)\<rparr>\<rparr>,
         published := published s + length xs\<rparr>))"

inductive consumer_step :: "nat \<Rightarrow> 'a ring_sys \<Rightarrow> 'a ring_sys \<Rightarrow> bool" for i :: nat where
  c_call: "consumers s i = C_idle \<Longrightarrow>
    consumer_step i s (set_consumer i (C_start want) s)"
| c_read_head: "consumers s i = C_start want \<Longrightarrow>
    consumer_step i s (set_consumer i (C_head want (head (cons_ht (ring s))) (taken s)) s)"
| c_nothing: "consumers s i = C_head want h g \<Longrightarrow>
    grant (ring s) want (tail (prod_ht (ring s)) - h) = 0 \<Longrightarrow>
    consumer_step i s (set_consumer i C_idle s)"
| c_granted: "consumers s i = C_head want h g \<Longrightarrow>
    n = grant (ring s) want (tail (prod_ht (ring s)) - h) \<Longrightarrow> n \<noteq> 0 \<Longrightarrow>
    consumer_step i s (set_consumer i (C_cas want h g n) s)"
| c_cas_fail: "consumers s i = C_cas want h g n \<Longrightarrow>
    \<not> single_consumer (ring s) \<Longrightarrow> head (cons_ht (ring s)) \<noteq> h \<Longrightarrow>
    consumer_step i s (set_consumer i (C_start want) s)"
| c_cas_ok: "consumers s i = C_cas want h g n \<Longrightarrow>
    single_consumer (ring s) \<or> head (cons_ht (ring s)) = h \<Longrightarrow>
    consumer_step i s (set_consumer i (C_copy h (taken s) (unat n) [])
      (s\<lparr>ring := (ring s)\<lparr>cons_ht := (cons_ht (ring s))\<lparr>head := h + n\<rparr>\<rparr>,
         taken := taken s + unat n\<rparr>))"
| c_copy: "consumers s i = C_copy h g n got \<Longrightarrow> length got < n \<Longrightarrow>
    consumer_step i s
      (set_consumer i (C_copy h g n (got @ [rdata (ring s) ! slot (ring s) h (length got)])) s)"
| c_spin: "consumers s i = C_copy h g n got \<Longrightarrow> length got = n \<Longrightarrow>
    \<not> single_consumer (ring s) \<Longrightarrow> tail (cons_ht (ring s)) \<noteq> h \<Longrightarrow>
    consumer_step i s s"
| c_release: "consumers s i = C_copy h g n got \<Longrightarrow> length got = n \<Longrightarrow>
    single_consumer (ring s) \<or> tail (cons_ht (ring s)) = h \<Longrightarrow>
    consumer_step i s (set_consumer i C_idle
      (s\<lparr>ring := (ring s)\<lparr>cons_ht := (cons_ht (ring s))\<lparr>tail := h + of_nat n\<rparr>\<rparr>,
         released := released s + n, returned := returned s @ [(i, got)]\<rparr>))"

definition start_sys :: "'a BuffRing \<Rightarrow> 'a ring_sys" where
  "start_sys r = \<lparr>ring = r, producers = (\<lambda>_. P_idle), consumers = (\<lambda>_. C_idle),
     accepted = [], published = 0, taken = 0, released = 0, returned = []\<rparr>"

text \<open>A ring made for a single producer or consumer is used by one thread in that role.\<close>

definition may_produce :: "'a BuffRing \<Rightarrow> nat \<Rightarrow> bool" where
  "may_produce r i \<longleftrightarrow> (single_producer r \<longrightarrow> i = 0)"

definition may_consume :: "'a BuffRing \<Rightarrow> nat \<Rightarrow> bool" where
  "may_consume r i \<longleftrightarrow> (single_consumer r \<longrightarrow> i = 0)"

inductive conc_step :: "'a ring_sys \<Rightarrow> 'a ring_sys \<Rightarrow> bool" where
  by_producer: "producer_step i s t \<Longrightarrow> may_produce (ring s) i \<Longrightarrow> conc_step s t"
| by_consumer: "consumer_step i s t \<Longrightarrow> may_consume (ring s) i \<Longrightarrow> conc_step s t"

text \<open>
  The compare-and-swap compares 32-bit positions: a thread that sleeps between its read of the
  head and its compare-and-swap while others reserve \<open>2^32\<close> entries would succeed with a stale
  number of entries (theory \<open>Ring_Stale\<close>). Runs are taken in which no thread sleeps that long.
\<close>

fun fresh_producer :: "nat \<Rightarrow> 'a producer \<Rightarrow> bool" where
  "fresh_producer m (P_head xs h g) \<longleftrightarrow> m < g + 4294967296"
| "fresh_producer m (P_cas xs h g n) \<longleftrightarrow> m < g + 4294967296"
| "fresh_producer m p \<longleftrightarrow> True"

fun fresh_consumer :: "nat \<Rightarrow> 'a consumer \<Rightarrow> bool" where
  "fresh_consumer m (C_head want h g) \<longleftrightarrow> m < g + 4294967296"
| "fresh_consumer m (C_cas want h g n) \<longleftrightarrow> m < g + 4294967296"
| "fresh_consumer m c \<longleftrightarrow> True"

definition fresh :: "'a ring_sys \<Rightarrow> bool" where
  "fresh s \<longleftrightarrow> (\<forall>i. fresh_producer (length (accepted s)) (producers s i) \<and>
     fresh_consumer (taken s) (consumers s i))"

inductive reach :: "'a BuffRing \<Rightarrow> 'a ring_sys \<Rightarrow> bool" for r :: "'a BuffRing" where
  start: "reach r (start_sys r)"
| step: "reach r s \<Longrightarrow> conc_step s t \<Longrightarrow> fresh t \<Longrightarrow> reach r t"

end
