(* ===== verification/Ring_Inv.thy ===== *)
theory Ring_Inv
  imports Ring_Conc
begin

text \<open>
  The invariant of the shared ring of theory \<open>Ring_Conc\<close> and the proof that every step of every thread
  keeps it. Positions are unbounded numbers here; the words in the ring are their images.
\<close>

section \<open>The invariant\<close>

definition static_ok :: "'a BuffRing \<Rightarrow> bool" where
  "static_ok r \<longleftrightarrow> IsPowerOf2 (rsize r) \<and> rmask r = rsize r - 1 \<and> capacity r \<le> rmask r \<and>
     length (rdata r) = unat (rsize r)"

definition positions_ok :: "'a ring_sys \<Rightarrow> bool" where
  "positions_ok s \<longleftrightarrow>
     head (prod_ht (ring s)) = of_nat (length (accepted s)) \<and>
     tail (prod_ht (ring s)) = of_nat (published s) \<and>
     head (cons_ht (ring s)) = of_nat (taken s) \<and>
     tail (cons_ht (ring s)) = of_nat (released s) \<and>
     released s \<le> taken s \<and> taken s \<le> published s \<and> published s \<le> length (accepted s) \<and>
     length (accepted s) \<le> released s + unat (capacity (ring s))"

fun producer_ok :: "'a ring_sys \<Rightarrow> 'a producer \<Rightarrow> bool" where
  "producer_ok s P_idle \<longleftrightarrow> True"
| "producer_ok s (P_start xs) \<longleftrightarrow> length xs < 4294967296"
| "producer_ok s (P_head xs h g) \<longleftrightarrow> length xs < 4294967296 \<and> h = of_nat g \<and> g \<le> length (accepted s)"
| "producer_ok s (P_cas xs h g n) \<longleftrightarrow> length xs < 4294967296 \<and> h = of_nat g \<and>
     g \<le> length (accepted s) \<and> n \<noteq> 0 \<and> unat n \<le> length xs \<and>
     g + unat n \<le> released s + unat (capacity (ring s))"
| "producer_ok s (P_copy xs h g j) \<longleftrightarrow> xs \<noteq> [] \<and> h = of_nat g \<and> j \<le> length xs \<and>
     published s \<le> g \<and> g + length xs \<le> length (accepted s) \<and>
     take (length xs) (drop g (accepted s)) = xs \<and>
     (\<forall>m<j. rdata (ring s) ! ((g + m) mod unat (rsize (ring s))) = xs ! m)"

fun consumer_ok :: "'a ring_sys \<Rightarrow> 'a consumer \<Rightarrow> bool" where
  "consumer_ok s C_idle \<longleftrightarrow> True"
| "consumer_ok s (C_start want) \<longleftrightarrow> True"
| "consumer_ok s (C_head want h g) \<longleftrightarrow> h = of_nat g \<and> g \<le> taken s"
| "consumer_ok s (C_cas want h g n) \<longleftrightarrow> h = of_nat g \<and> g \<le> taken s \<and> n \<noteq> 0 \<and> g + unat n \<le> published s"
| "consumer_ok s (C_copy h g n got) \<longleftrightarrow> n \<noteq> 0 \<and> h = of_nat g \<and> length got \<le> n \<and>
     released s \<le> g \<and> g + n \<le> taken s \<and> got = take (length got) (drop g (accepted s))"

text \<open>The positions a thread has reserved and not yet handed over.\<close>

fun claim :: "'a producer \<Rightarrow> nat set" where
  "claim (P_copy xs h g j) = {g..<g + length xs}"
| "claim p = {}"

fun hold :: "'a consumer \<Rightarrow> nat set" where
  "hold (C_copy h g n got) = {g..<g + n}"
| "hold c = {}"

text \<open>
  The producers' claims are disjoint and cover the positions reserved but not yet published, the
  consumers' those taken but not yet released.
\<close>

definition tiles :: "(nat \<Rightarrow> nat set) \<Rightarrow> nat \<Rightarrow> nat \<Rightarrow> bool" where
  "tiles c a b \<longleftrightarrow> (\<forall>i k. i \<noteq> k \<longrightarrow> c i \<inter> c k = {}) \<and> {a..<b} \<subseteq> (\<Union>i. c i)"

definition claims_ok :: "'a ring_sys \<Rightarrow> bool" where
  "claims_ok s \<longleftrightarrow> tiles (\<lambda>i. claim (producers s i)) (published s) (length (accepted s))"

definition holds_ok :: "'a ring_sys \<Rightarrow> bool" where
  "holds_ok s \<longleftrightarrow> tiles (\<lambda>i. hold (consumers s i)) (released s) (taken s)"

definition slots_ok :: "'a ring_sys \<Rightarrow> bool" where
  "slots_ok s \<longleftrightarrow> (\<forall>k. released s \<le> k \<and> k < published s \<longrightarrow>
     rdata (ring s) ! (k mod unat (rsize (ring s))) = accepted s ! k)"

text \<open>A lone thread knows where the head is.\<close>

fun p_at :: "nat \<Rightarrow> 'a producer \<Rightarrow> bool" where
  "p_at m (P_head xs h g) \<longleftrightarrow> g = m"
| "p_at m (P_cas xs h g n) \<longleftrightarrow> g = m"
| "p_at m p \<longleftrightarrow> True"

fun c_at :: "nat \<Rightarrow> 'a consumer \<Rightarrow> bool" where
  "c_at m (C_head want h g) \<longleftrightarrow> g = m"
| "c_at m (C_cas want h g n) \<longleftrightarrow> g = m"
| "c_at m c \<longleftrightarrow> True"

definition solo_ok :: "'a ring_sys \<Rightarrow> bool" where
  "solo_ok s \<longleftrightarrow>
     (single_producer (ring s) \<longrightarrow>
        (\<forall>i. i \<noteq> 0 \<longrightarrow> producers s i = P_idle) \<and> p_at (length (accepted s)) (producers s 0)) \<and>
     (single_consumer (ring s) \<longrightarrow>
        (\<forall>i. i \<noteq> 0 \<longrightarrow> consumers s i = C_idle) \<and> c_at (taken s) (consumers s 0))"

definition conc_inv :: "'a ring_sys \<Rightarrow> bool" where
  "conc_inv s \<longleftrightarrow> static_ok (ring s) \<and> positions_ok s \<and> (\<forall>i. producer_ok s (producers s i)) \<and>
     (\<forall>i. consumer_ok s (consumers s i)) \<and> claims_ok s \<and> holds_ok s \<and> slots_ok s \<and> solo_ok s \<and>
     concat (map snd (returned s)) = take (released s) (accepted s)"

section \<open>Slots of the array\<close>

lemma static_okD:
  assumes "static_ok r"
  shows "0 < unat (rsize r)" "unat (rsize r) \<le> 2147483648" "unat (capacity r) < unat (rsize r)"
    "unat (rsize r) dvd 4294967296" "\<And>x. unat (x AND rmask r) = unat x mod unat (rsize r)"
proof -
  have "ring_ok (r\<lparr>prod_ht := \<lparr>head = 0, tail = 0\<rparr>, cons_ht := \<lparr>head = 0, tail = 0\<rparr>\<rparr>)"
    using assms by (auto simp: ring_ok_def static_ok_def ring_used_def)
  from ring_okD [OF this] show "0 < unat (rsize r)" "unat (rsize r) \<le> 2147483648"
    "unat (capacity r) < unat (rsize r)" "unat (rsize r) dvd 4294967296"
    "\<And>x. unat (x AND rmask r) = unat x mod unat (rsize r)" by simp_all
qed

lemma slot_eq:
  assumes "static_ok r"
  shows "slot r (of_nat g) j = (g + j) mod unat (rsize r)"
proof -
  let ?m = "unat (rsize r)"
  note d = static_okD [OF assms]
  have "slot r (of_nat g) j = (unat (of_nat g AND rmask r) + unat (of_nat j :: u32)) mod ?m"
    using d(4) by (simp add: slot_def unat_mod_distrib unat_word_ariths mod_mod_cancel)
  also have "\<dots> = (g + j mod 4294967296) mod ?m"
    using d(4,5) by (simp add: unat_of_nat mod_mod_cancel mod_add_left_eq)
  also have "\<dots> = (g + j) mod ?m"
    using mod_mod_cancel [OF d(4), of j] by (metis mod_add_right_eq)
  finally show ?thesis .
qed

lemma window_distinct:
  fixes a b m :: nat
  assumes "a < b" "b < a + m"
  shows "a mod m \<noteq> b mod m"
proof
  assume "a mod m = b mod m"
  then have "m dvd b - a" using mod_eq_dvd_iff_nat [of a b m] assms(1) by simp
  then have "m \<le> b - a" using assms(1) by (intro dvd_imp_le) auto
  then show False using assms by linarith
qed

lemma window_neq:
  fixes a b c m :: nat
  assumes "a \<noteq> b" "c \<le> a" "c \<le> b" "a < c + m" "b < c + m"
  shows "a mod m \<noteq> b mod m"
  using window_distinct [of a b m] window_distinct [of b a m] assms by (cases "a < b") auto

lemma nat_of_eq:
  fixes a b :: nat
  assumes "(of_nat a :: u32) = of_nat b" "a \<le> b" "b < a + 4294967296"
  shows "a = b"
proof (rule ccontr)
  assume "a \<noteq> b"
  then have "a mod 4294967296 \<noteq> b mod 4294967296" using assms by (intro window_distinct) auto
  moreover have "unat (of_nat a :: u32) = unat (of_nat b :: u32)" using assms(1) by simp
  ultimately show False by (simp add: unat_of_nat)
qed

section \<open>Claims\<close>

lemma tiles_extend:
  assumes "tiles c a b" "\<And>k. c k \<subseteq> {..<b}" "c i = {}"
  shows "tiles (c(i := {b..<b + n})) a (b + n)"
proof -
  have "{a..<b + n} \<subseteq> {a..<b} \<union> {b..<b + n}" by auto
  moreover have "{a..<b} \<subseteq> (\<Union>k. (c(i := {b..<b + n})) k)"
    using assms(1,3) by (fastforce simp: tiles_def)
  moreover have "{b..<b + n} \<subseteq> (\<Union>k. (c(i := {b..<b + n})) k)" by auto
  moreover have "c k \<inter> {b..<b + n} = {}" for k using assms(2) [of k] by auto
  ultimately show ?thesis using assms(1) by (auto simp: tiles_def)
qed

lemma tiles_shrink:
  assumes "tiles c a b" "c i = {a..<a + n}"
  shows "tiles (c(i := {})) (a + n) b"
proof -
  have "\<exists>k. k \<noteq> i \<and> q \<in> c k" if q: "a + n \<le> q" "q < b" for q
  proof -
    have "q \<in> {a..<b}" using q by simp
    then have "q \<in> (\<Union>k. c k)" using assms(1) unfolding tiles_def by blast
    then obtain k where "q \<in> c k" by blast
    moreover have "q \<notin> c i" using assms(2) q by simp
    ultimately show ?thesis by metis
  qed
  then show ?thesis using assms(1) by (fastforce simp: tiles_def)
qed

lemma tiles_disjoint: "tiles c a b \<Longrightarrow> i \<noteq> k \<Longrightarrow> c i \<inter> c k = {}"
  by (simp add: tiles_def)

lemma tiles_member:
  assumes "tiles c a b" "q \<in> {a..<b}"
  obtains k where "q \<in> c k"
  using assms unfolding tiles_def by blast

lemma conc_invD:
  assumes "conc_inv s"
  shows "static_ok (ring s)" "positions_ok s" "producer_ok s (producers s i)" "consumer_ok s (consumers s i)"
    "claims_ok s" "holds_ok s" "slots_ok s" "solo_ok s" "concat (map snd (returned s)) = take (released s) (accepted s)"
  using assms unfolding conc_inv_def by blast+

lemma claim_bounds: "producer_ok s p \<Longrightarrow> claim p \<subseteq> {published s..<length (accepted s)}"
  by (cases p) auto

lemma hold_bounds: "consumer_ok s c \<Longrightarrow> hold c \<subseteq> {released s..<taken s}"
  by (cases c) auto

lemma granted_le: "grant r max_n avail \<le> avail" "grant r max_n avail \<le> max_n"
  by (auto simp: grant_def)

lemma prod_free_bound:
  assumes "g \<le> c + unat (capacity r)" "tail (cons_ht r) = of_nat c"
  shows "g + unat (prod_free r (of_nat g)) \<le> c + unat (capacity r)"
proof -
  have "prod_free r (of_nat g) = of_nat (c + unat (capacity r) - g)"
    using assms by (simp add: prod_free_def of_nat_diff algebra_simps)
  then have "unat (prod_free r (of_nat g)) \<le> c + unat (capacity r) - g"
    by (simp add: unat_of_nat)
  then show ?thesis using assms(1) by linarith
qed

lemma positions_window:
  assumes "conc_inv s"
  shows "released s \<le> taken s" "taken s \<le> published s" "published s \<le> length (accepted s)"
    "length (accepted s) < released s + 2147483648" "length (accepted s) < published s + 4294967296"
    "taken s < released s + 4294967296"
proof -
  note d = conc_invD [OF assms]
  show b: "released s \<le> taken s" "taken s \<le> published s" "published s \<le> length (accepted s)"
    using d(2) by (simp_all add: positions_ok_def)
  show "length (accepted s) < released s + 2147483648"
    using d(2) static_okD(2,3) [OF d(1)] by (simp add: positions_ok_def)
  with b show "length (accepted s) < published s + 4294967296" "taken s < released s + 4294967296"
    by linarith+
qed

lemma window_claims:
  assumes "conc_inv s" "a \<in> {released s..<length (accepted s)}" "b \<in> {released s..<length (accepted s)}"
    "a \<noteq> b"
  shows "a mod unat (rsize (ring s)) \<noteq> b mod unat (rsize (ring s))"
proof -
  have "length (accepted s) \<le> released s + unat (capacity (ring s))"
    "unat (capacity (ring s)) < unat (rsize (ring s))"
    using conc_invD [OF assms(1)] static_okD(3) by (auto simp: positions_ok_def)
  then show ?thesis using assms(2-4) by (intro window_neq [of a b "released s"]) auto
qed

section \<open>What a step of the others leaves valid\<close>

lemma producer_ok_stable:
  assumes ok: "producer_ok s p" and acc: "accepted t = accepted s @ ys"
    and mono: "released s \<le> released t" "claim p \<subseteq> {published t..}"
    and same: "capacity (ring t) = capacity (ring s)" "rsize (ring t) = rsize (ring s)"
    and data: "\<And>q. q \<in> claim p \<Longrightarrow>
      rdata (ring t) ! (q mod unat (rsize (ring s))) = rdata (ring s) ! (q mod unat (rsize (ring s)))"
  shows "producer_ok t p"
proof (cases p)
  case (P_copy xs h g j)
  with ok have "g \<in> claim p" by simp
  then have "published t \<le> g" using mono(2) by auto
  moreover have "take (length xs) (drop g (accepted t)) = xs"
    using ok P_copy acc by simp
  moreover have "rdata (ring t) ! ((g + m) mod unat (rsize (ring t))) = xs ! m" if "m < j" for m
    using that data [of "g + m"] ok P_copy same(2) by simp
  ultimately show ?thesis using ok P_copy acc by simp
qed (use ok acc mono same in auto)

lemma consumer_ok_stable:
  assumes ok: "consumer_ok s c" and acc: "accepted t = accepted s @ ys" "taken s \<le> length (accepted s)"
    and mono: "taken s \<le> taken t" "published s \<le> published t" "hold c \<subseteq> {released t..}"
  shows "consumer_ok t c"
proof (cases c)
  case (C_copy h g n got)
  with ok have "g \<in> hold c" by simp
  then have "released t \<le> g" using mono(3) by auto
  moreover have "got = take (length got) (drop g (accepted t))" using ok C_copy acc by simp
  ultimately show ?thesis using ok C_copy mono by simp
qed (use ok mono in auto)

definition same_shape :: "'a BuffRing \<Rightarrow> 'a BuffRing \<Rightarrow> bool" where
  "same_shape r r' \<longleftrightarrow> rsize r' = rsize r \<and> rmask r' = rmask r \<and> capacity r' = capacity r \<and>
     behavior r' = behavior r \<and> single_producer r' = single_producer r \<and>
     single_consumer r' = single_consumer r \<and> length (rdata r') = length (rdata r)"

lemma static_ok_shape: "static_ok r \<Longrightarrow> same_shape r r' \<Longrightarrow> static_ok r'"
  by (auto simp: static_ok_def same_shape_def)

lemma same_shape_head_tail [simp]:
  "same_shape r (r\<lparr>prod_ht := p\<rparr>)" "same_shape r (r\<lparr>cons_ht := c\<rparr>)" "same_shape r r"
  "same_shape r (r\<lparr>rdata := (rdata r)[i := x]\<rparr>)"
  by (simp_all add: same_shape_def)

text \<open>A step of a producer leaves the consumers' side alone.\<close>

lemma inv_producer_frame:
  assumes inv: "conc_inv s" and shape: "same_shape (ring s) (ring t)"
    and same: "consumers t = consumers s" "taken t = taken s" "released t = released s" "returned t = returned s"
    and more: "accepted t = accepted s @ ys" "published s \<le> published t"
    and new: "positions_ok t" "\<And>k. producer_ok t (producers t k)" "claims_ok t" "slots_ok t"
    and solo: "\<And>k. single_producer (ring s) \<Longrightarrow> k \<noteq> 0 \<Longrightarrow> producers t k = P_idle"
      "single_producer (ring s) \<Longrightarrow> p_at (length (accepted t)) (producers t 0)"
  shows "conc_inv t"
proof -
  note d = conc_invD [OF inv]
  note w = positions_window [OF inv]
  have "consumer_ok t (consumers s k)" for k
    using hold_bounds [OF d(4) [of k]] w more same by (intro consumer_ok_stable [OF d(4)]) auto
  moreover have "concat (map snd (returned t)) = take (released t) (accepted t)"
    using d(9) w same more by simp
  moreover have "solo_ok t" using d(8) shape same solo by (simp add: solo_ok_def same_shape_def)
  ultimately show ?thesis
    using static_ok_shape [OF d(1) shape] d(6) same new by (simp add: conc_inv_def holds_ok_def)
qed

text \<open>A step of a consumer leaves the producers' side alone.\<close>

lemma inv_consumer_frame:
  assumes inv: "conc_inv s" and shape: "same_shape (ring s) (ring t)"
    and same: "producers t = producers s" "accepted t = accepted s" "published t = published s"
      "rdata (ring t) = rdata (ring s)"
    and more: "released s \<le> released t"
    and new: "positions_ok t" "\<And>k. consumer_ok t (consumers t k)" "holds_ok t"
      "concat (map snd (returned t)) = take (released t) (accepted t)"
    and solo: "\<And>k. single_consumer (ring s) \<Longrightarrow> k \<noteq> 0 \<Longrightarrow> consumers t k = C_idle"
      "single_consumer (ring s) \<Longrightarrow> c_at (taken t) (consumers t 0)"
  shows "conc_inv t"
proof -
  note d = conc_invD [OF inv]
  have "producer_ok t (producers s k)" for k
    using claim_bounds [OF d(3) [of k]] same more shape
    by (intro producer_ok_stable [OF d(3), where ys = "[]"]) (auto simp: same_shape_def)
  moreover have "slots_ok t" using d(7) same more shape by (auto simp: slots_ok_def same_shape_def)
  moreover have "solo_ok t" using d(8) shape same solo by (simp add: solo_ok_def same_shape_def)
  ultimately show ?thesis
    using static_ok_shape [OF d(1) shape] d(5) same new by (simp add: conc_inv_def claims_ok_def)
qed

section \<open>Steps of a producer\<close>

lemma producer_ok_frame [simp]: "producer_ok (s\<lparr>producers := f\<rparr>) p = producer_ok s p"
  by (cases p; simp)

lemma solo_producer:
  assumes "conc_inv s" "may_produce (ring s) i" "single_producer (ring s)"
  shows "i = 0" "k \<noteq> 0 \<Longrightarrow> producers s k = P_idle" "p_at (length (accepted s)) (producers s i)"
  using assms conc_invD(8) [OF assms(1)] by (auto simp: may_produce_def solo_ok_def)

lemma inv_set_producer:
  assumes inv: "conc_inv s" "may_produce (ring s) i" and p: "claim p = claim (producers s i)" "producer_ok s p"
    "single_producer (ring s) \<Longrightarrow> p_at (length (accepted s)) p"
  shows "conc_inv (set_producer i p s)"
proof (rule inv_producer_frame [OF inv(1), where ys = "[]"])
  note d = conc_invD [OF inv(1)]
  have "(\<lambda>k. claim (((producers s)(i := p)) k)) = (\<lambda>k. claim (producers s k))"
    using p(1) by (simp add: fun_eq_iff)
  then show "claims_ok (set_producer i p s)" using d(5) by (simp add: claims_ok_def)
  show "producers (set_producer i p s) k = P_idle" if "single_producer (ring s)" "k \<noteq> 0" for k
    using solo_producer [OF inv that(1)] that(2) by simp
  show "p_at (length (accepted (set_producer i p s))) (producers (set_producer i p s) 0)"
    if "single_producer (ring s)" using p(3) solo_producer(1) [OF inv that] that by simp
qed (use p(2) conc_invD [OF inv(1)] in \<open>auto simp: positions_ok_def slots_ok_def\<close>)

lemma inv_granted:
  assumes inv: "conc_inv s" "may_produce (ring s) i" and p: "producers s i = P_head xs h g"
    and n: "n = grant (ring s) (of_nat (length xs)) (prod_free (ring s) h)" "n \<noteq> 0"
  shows "conc_inv (set_producer i (P_cas xs h g n) s)"
proof (rule inv_set_producer [OF inv])
  have ok: "length xs < 4294967296" "h = of_nat g" "g \<le> length (accepted s)"
    using conc_invD(3) [OF inv(1), of i] p by simp_all
  have pos: "positions_ok s" using conc_invD [OF inv(1)] by simp
  then have "g + unat (prod_free (ring s) h) \<le> released s + unat (capacity (ring s))"
    using ok by (simp only:) (rule prod_free_bound, auto simp: positions_ok_def)
  moreover have "unat n \<le> unat (prod_free (ring s) h)" "unat n \<le> length xs"
    using granted_le [of "ring s" "of_nat (length xs)" "prod_free (ring s) h"] n ok(1)
    by (simp_all add: word_le_nat_alt unat_of_nat32)
  ultimately show "producer_ok s (P_cas xs h g n)" using ok n(2) by simp
qed (use p solo_producer(3) [OF inv] in simp_all)

text \<open>A reservation that succeeds starts at the head.\<close>

lemma reserved_at:
  assumes "conc_inv s" "fresh s" "may_produce (ring s) i" "producers s i = P_cas xs h g n"
    "single_producer (ring s) \<or> head (prod_ht (ring s)) = h"
  shows "g = length (accepted s)"
proof (cases "single_producer (ring s)")
  case True
  then show ?thesis using solo_producer(3) [OF assms(1,3)] assms(4) by simp
next
  case False
  have "length (accepted s) < g + 4294967296" using assms(2,4) by (auto simp: fresh_def dest!: spec [of _ i])
  moreover have "h = of_nat g" "g \<le> length (accepted s)" using conc_invD(3) [OF assms(1), of i] assms(4) by simp_all
  ultimately show ?thesis
    using False assms(5) conc_invD(2) [OF assms(1)] by (intro nat_of_eq) (simp_all add: positions_ok_def)
qed

lemma inv_cas_ok:
  assumes inv: "conc_inv s" "may_produce (ring s) i" and fr: "fresh s" and p: "producers s i = P_cas xs h g n"
    and eq: "single_producer (ring s) \<or> head (prod_ht (ring s)) = h"
    and t: "t = set_producer i (P_copy (take (unat n) xs) h (length (accepted s)) 0)
      (s\<lparr>ring := (ring s)\<lparr>prod_ht := (prod_ht (ring s))\<lparr>head := h + n\<rparr>\<rparr>,
         accepted := accepted s @ take (unat n) xs\<rparr>)"
  shows "conc_inv t"
proof -
  note d = conc_invD [OF inv(1)]
  have ok: "h = of_nat g" "n \<noteq> 0" "unat n \<le> length xs" "g + unat n \<le> released s + unat (capacity (ring s))"
    using d(3) [of i] p by simp_all
  let ?H = "length (accepted s)" and ?ys = "take (unat n) xs"
  have g: "g = ?H" using reserved_at [OF inv(1) fr inv(2) p eq] .
  have ys: "length ?ys = unat n" "?ys \<noteq> []" using ok(2,3) by (auto simp: unat_eq_0)
  show ?thesis
  proof (rule inv_producer_frame [OF inv(1)])
    show "producer_ok t (producers t k)" for k
    proof (cases "k = i")
      case True
      then show ?thesis using t ys d(2) ok(1) g by (simp add: positions_ok_def)
    next
      case False
      have "producer_ok t (producers s k)"
        by (rule producer_ok_stable [OF d(3)]) (use t claim_bounds [OF d(3) [of k]] in auto)
      then show ?thesis using False t by simp
    qed
    have "(\<lambda>k. claim (producers t k)) = (\<lambda>k. claim (producers s k))(i := {?H..<?H + unat n})"
      using t ys by (simp add: fun_eq_iff)
    moreover have "tiles ((\<lambda>k. claim (producers s k))(i := {?H..<?H + unat n})) (published s) (?H + unat n)"
      using d(5) claim_bounds [OF d(3)] p by (intro tiles_extend) (fastforce simp: claims_ok_def)+
    ultimately show "claims_ok t" using t ys by (simp add: claims_ok_def)
    show "producers t k = P_idle" if "single_producer (ring s)" "k \<noteq> 0" for k
      using solo_producer [OF inv that(1)] that(2) t by simp
    show "p_at (length (accepted t)) (producers t 0)" if "single_producer (ring s)"
      using solo_producer(1) [OF inv that] t by simp
  qed (use t d(2,7) ok g ys in \<open>auto simp: positions_ok_def slots_ok_def nth_append\<close>)
qed

lemma inv_copy:
  assumes inv: "conc_inv s" "may_produce (ring s) i" and p: "producers s i = P_copy xs h g j" "j < length xs"
    and t: "t = set_producer i (P_copy xs h g (Suc j))
      (s\<lparr>ring := (ring s)\<lparr>rdata := (rdata (ring s))[slot (ring s) h j := xs ! j]\<rparr>\<rparr>)"
  shows "conc_inv t"
proof -
  note d = conc_invD [OF inv(1)]
  note w = positions_window [OF inv(1)]
  let ?m = "unat (rsize (ring s))"
  have ok: "h = of_nat g" "published s \<le> g" "g + length xs \<le> length (accepted s)"
    using d(3) [of i] p by simp_all
  have slot: "slot (ring s) h j = (g + j) mod ?m" using slot_eq [OF d(1)] ok(1) by simp
  have same: "rdata (ring t) ! (q mod ?m) = rdata (ring s) ! (q mod ?m)"
    if "q \<in> {released s..<length (accepted s)}" "q \<noteq> g + j" for q
    using window_claims [OF inv(1) that(1), of "g + j"] that(2) ok p(2) w t slot by simp
  show ?thesis
  proof (rule inv_producer_frame [OF inv(1), where ys = "[]"])
    show "slots_ok t"
      using d(2,7) same ok(2) t unfolding slots_ok_def positions_ok_def
      by (auto simp del: nth_list_update)
    show "producer_ok t (producers t k)" for k
    proof (cases "k = i")
      case True
      have "0 < ?m" "length (rdata (ring s)) = ?m"
        using static_okD(1) [OF d(1)] d(1) by (simp_all add: static_ok_def)
      then have "rdata (ring t) ! ((g + j) mod ?m) = xs ! j" using t slot by simp
      moreover have "rdata (ring t) ! ((g + m) mod ?m) = xs ! m" if "m < j" for m
        using that same [of "g + m"] d(3) [of i] p w by simp
      ultimately show ?thesis using True t d(3) [of i] p by (simp add: less_Suc_eq all_conj_distrib)
    next
      case False
      have "claim (producers s k) \<inter> {g..<g + length xs} = {}"
        using tiles_disjoint [OF d(5) [unfolded claims_ok_def] False] p by simp
      then have "producer_ok t (producers s k)"
        using claim_bounds [OF d(3) [of k]] w p(2) t
        by (intro producer_ok_stable [OF d(3), where ys = "[]"] same) auto
      then show ?thesis using False t by simp
    qed
    have "(\<lambda>k. claim (producers t k)) = (\<lambda>k. claim (producers s k))"
      using t p by (simp add: fun_eq_iff)
    then show "claims_ok t" using d(5) t by (simp add: claims_ok_def)
    show "producers t k = P_idle" if "single_producer (ring s)" "k \<noteq> 0" for k
      using solo_producer [OF inv that(1)] that(2) t by simp
    show "p_at (length (accepted t)) (producers t 0)" if "single_producer (ring s)"
      using solo_producer(1) [OF inv that] t by simp
  qed (use t d(2) in \<open>auto simp: positions_ok_def\<close>)
qed

text \<open>A producer publishes at the tail: the lone one has the only claim, the others wait.\<close>

lemma published_at:
  assumes "conc_inv s" "may_produce (ring s) i" "producers s i = P_copy xs h g j"
    "single_producer (ring s) \<or> tail (prod_ht (ring s)) = h"
  shows "published s = g"
proof (cases "single_producer (ring s)")
  case True
  note d = conc_invD [OF assms(1)]
  have ok: "xs \<noteq> []" "published s \<le> g" "g + length xs \<le> length (accepted s)"
    using d(3) [of i] assms(3) by simp_all
  have "published s \<in> {published s..<length (accepted s)}" using ok by (cases xs) auto
  then obtain k where k: "published s \<in> claim (producers s k)"
    using tiles_member [OF d(5) [unfolded claims_ok_def]] by blast
  then have "k = i" using solo_producer(1,2) [OF assms(1,2) True] by (cases "k = i") force+
  then show ?thesis using k assms(3) ok(2) by simp
next
  case False
  have "h = of_nat g" "published s \<le> g" "g \<le> length (accepted s)"
    using conc_invD(3) [OF assms(1), of i] assms(3) by simp_all
  then show ?thesis
    using False assms(4) conc_invD(2) [OF assms(1)] positions_window(5) [OF assms(1)]
    by (intro nat_of_eq) (simp_all add: positions_ok_def)
qed

lemma slots_ok_published:
  assumes "slots_ok s" "producer_ok s (P_copy xs h (published s) (length xs))"
    and t: "released t = released s" "published t = published s + length xs" "accepted t = accepted s"
      "rdata (ring t) = rdata (ring s)" "rsize (ring t) = rsize (ring s)"
  shows "slots_ok t"
  unfolding slots_ok_def
proof (intro allI impI)
  let ?m = "unat (rsize (ring s))"
  fix k assume k: "released t \<le> k \<and> k < published t"
  have ok: "take (length xs) (drop (published s) (accepted s)) = xs" "published s + length xs \<le> length (accepted s)"
    "\<And>m. m < length xs \<Longrightarrow> rdata (ring s) ! ((published s + m) mod ?m) = xs ! m"
    using assms(2) by simp_all
  show "rdata (ring t) ! (k mod unat (rsize (ring t))) = accepted t ! k"
  proof (cases "k < published s")
    case True
    then show ?thesis using assms(1) k t by (simp add: slots_ok_def)
  next
    case False
    then obtain m where m: "k = published s + m" "m < length xs" using k t(2) by (auto simp: not_less le_iff_add)
    have "accepted s ! (published s + m) = take (length xs) (drop (published s) (accepted s)) ! m"
      using m(2) ok(2) by simp
    then show ?thesis using ok(1,3) m t by simp
  qed
qed

lemma inv_publish:
  assumes inv: "conc_inv s" "may_produce (ring s) i" and p: "producers s i = P_copy xs h g (length xs)"
    and eq: "single_producer (ring s) \<or> tail (prod_ht (ring s)) = h"
    and t: "t = set_producer i P_idle
      (s\<lparr>ring := (ring s)\<lparr>prod_ht := (prod_ht (ring s))\<lparr>tail := h + of_nat (length xs)\<rparr>\<rparr>,
         published := published s + length xs\<rparr>)"
  shows "conc_inv t"
proof -
  note d = conc_invD [OF inv(1)]
  have g: "published s = g" using published_at [OF inv p eq] .
  have ok: "h = of_nat g" "g + length xs \<le> length (accepted s)" using d(3) [of i] p by simp_all
  show ?thesis
  proof (rule inv_producer_frame [OF inv(1), where ys = "[]"])
    show "slots_ok t"
      using d(3) [of i] p g t by (intro slots_ok_published [OF d(7), of xs h]) simp_all
    show "producer_ok t (producers t k)" for k
    proof (cases "k = i")
      case False
      have "claim (producers s k) \<inter> {g..<g + length xs} = {}"
        using tiles_disjoint [OF d(5) [unfolded claims_ok_def] False] p by simp
      then have "claim (producers s k) \<subseteq> {published t..}"
        using claim_bounds [OF d(3) [of k]] g t by fastforce
      then have "producer_ok t (producers s k)"
        using t by (intro producer_ok_stable [OF d(3), where ys = "[]"]) auto
      then show ?thesis using False t by simp
    qed (use t in simp)
    have "(\<lambda>k. claim (producers t k)) = (\<lambda>k. claim (producers s k))(i := {})"
      using t by (simp add: fun_eq_iff)
    moreover have "tiles ((\<lambda>k. claim (producers s k))(i := {})) (g + length xs) (length (accepted s))"
      using d(5) g p by (intro tiles_shrink) (simp_all add: claims_ok_def)
    ultimately show "claims_ok t" using t g by (simp add: claims_ok_def)
    show "producers t k = P_idle" if "single_producer (ring s)" "k \<noteq> 0" for k
      using solo_producer [OF inv that(1)] that(2) t by simp
    show "p_at (length (accepted t)) (producers t 0)" if "single_producer (ring s)"
      using solo_producer(1) [OF inv that] t by simp
  qed (use t d(2) ok g in \<open>auto simp: positions_ok_def\<close>)
qed

lemma inv_producer_step:
  assumes "producer_step i s t" "conc_inv s" "may_produce (ring s) i" "fresh s"
  shows "conc_inv t"
  using assms(1)
proof (cases rule: producer_step.cases)
  case (p_read_head xs)
  then show ?thesis
    using conc_invD(2) [OF assms(2)] conc_invD(3) [OF assms(2), of i] assms(2,3)
    by (simp, intro inv_set_producer) (auto simp: positions_ok_def)
next
  case (p_cas_fail xs h g n)
  then show ?thesis
    using conc_invD(3) [OF assms(2), of i] assms(2,3) by (simp, intro inv_set_producer) auto
next
  case (p_granted xs h g n)
  then show ?thesis using inv_granted [OF assms(2,3)] by simp
next
  case (p_cas_ok xs h g n)
  then show ?thesis using inv_cas_ok [OF assms(2,3,4)] by blast
next
  case (p_copy xs h g j)
  then show ?thesis using inv_copy [OF assms(2,3)] by blast
next
  case (p_publish xs h g)
  then show ?thesis using inv_publish [OF assms(2,3)] by blast
qed (use assms(2,3) in \<open>auto intro!: inv_set_producer\<close>)

section \<open>Steps of a consumer\<close>

lemma consumer_ok_frame [simp]: "consumer_ok (s\<lparr>consumers := f\<rparr>) c = consumer_ok s c"
  by (cases c; simp)

lemma solo_consumer:
  assumes "conc_inv s" "may_consume (ring s) i" "single_consumer (ring s)"
  shows "i = 0" "k \<noteq> 0 \<Longrightarrow> consumers s k = C_idle" "c_at (taken s) (consumers s i)"
  using assms conc_invD(8) [OF assms(1)] by (auto simp: may_consume_def solo_ok_def)

lemma inv_set_consumer:
  assumes inv: "conc_inv s" "may_consume (ring s) i" and c: "hold c = hold (consumers s i)" "consumer_ok s c"
    "single_consumer (ring s) \<Longrightarrow> c_at (taken s) c"
  shows "conc_inv (set_consumer i c s)"
proof (rule inv_consumer_frame [OF inv(1)])
  note d = conc_invD [OF inv(1)]
  have "(\<lambda>k. hold (((consumers s)(i := c)) k)) = (\<lambda>k. hold (consumers s k))"
    using c(1) by (simp add: fun_eq_iff)
  then show "holds_ok (set_consumer i c s)" using d(6) by (simp add: holds_ok_def)
  show "consumers (set_consumer i c s) k = C_idle" if "single_consumer (ring s)" "k \<noteq> 0" for k
    using solo_consumer [OF inv that(1)] that(2) by simp
  show "c_at (taken (set_consumer i c s)) (consumers (set_consumer i c s) 0)"
    if "single_consumer (ring s)" using c(3) solo_consumer(1) [OF inv that] that by simp
qed (use c(2) conc_invD [OF inv(1)] in \<open>auto simp: positions_ok_def\<close>)

lemma entries_bound:
  assumes "conc_inv s" "g \<le> published s"
  shows "g + unat (tail (prod_ht (ring s)) - of_nat g) \<le> published s"
proof -
  have "tail (prod_ht (ring s)) - of_nat g = of_nat (published s - g)"
    using conc_invD(2) [OF assms(1)] assms(2) by (simp add: positions_ok_def of_nat_diff)
  then have "unat (tail (prod_ht (ring s)) - of_nat g) \<le> published s - g" by (simp add: unat_of_nat)
  then show ?thesis using assms(2) by linarith
qed

lemma inv_c_granted:
  assumes inv: "conc_inv s" "may_consume (ring s) i" and c: "consumers s i = C_head want h g"
    and n: "n = grant (ring s) want (tail (prod_ht (ring s)) - h)" "n \<noteq> 0"
  shows "conc_inv (set_consumer i (C_cas want h g n) s)"
proof (rule inv_set_consumer [OF inv])
  have ok: "h = of_nat g" "g \<le> taken s" using conc_invD(4) [OF inv(1), of i] c by simp_all
  moreover have "g \<le> published s" using ok(2) positions_window(2) [OF inv(1)] by linarith
  moreover have "unat n \<le> unat (tail (prod_ht (ring s)) - h)"
    using granted_le(1) [of "ring s" want "tail (prod_ht (ring s)) - h"] n(1) by (simp add: word_le_nat_alt)
  ultimately show "consumer_ok s (C_cas want h g n)"
    using entries_bound [OF inv(1), of g] n(2) by simp
qed (use c solo_consumer(3) [OF inv] in simp_all)

lemma taken_at:
  assumes "conc_inv s" "fresh s" "may_consume (ring s) i" "consumers s i = C_cas want h g n"
    "single_consumer (ring s) \<or> head (cons_ht (ring s)) = h"
  shows "g = taken s"
proof (cases "single_consumer (ring s)")
  case True
  then show ?thesis using solo_consumer(3) [OF assms(1,3)] assms(4) by simp
next
  case False
  have "taken s < g + 4294967296" using assms(2,4) by (auto simp: fresh_def dest!: spec [of _ i])
  moreover have "h = of_nat g" "g \<le> taken s" using conc_invD(4) [OF assms(1), of i] assms(4) by simp_all
  ultimately show ?thesis
    using False assms(5) conc_invD(2) [OF assms(1)] by (intro nat_of_eq) (simp_all add: positions_ok_def)
qed

lemma inv_c_cas_ok:
  assumes inv: "conc_inv s" "may_consume (ring s) i" and fr: "fresh s" and c: "consumers s i = C_cas want h g n"
    and eq: "single_consumer (ring s) \<or> head (cons_ht (ring s)) = h"
    and t: "t = set_consumer i (C_copy h (taken s) (unat n) [])
      (s\<lparr>ring := (ring s)\<lparr>cons_ht := (cons_ht (ring s))\<lparr>head := h + n\<rparr>\<rparr>, taken := taken s + unat n\<rparr>)"
  shows "conc_inv t"
proof -
  note d = conc_invD [OF inv(1)]
  note w = positions_window [OF inv(1)]
  have ok: "h = of_nat g" "n \<noteq> 0" "g + unat n \<le> published s" using d(4) [of i] c by simp_all
  have g: "g = taken s" using taken_at [OF inv(1) fr inv(2) c eq] .
  have n: "unat n \<noteq> 0" using ok(2) by (simp add: unat_eq_0)
  show ?thesis
  proof (rule inv_consumer_frame [OF inv(1)])
    show "consumer_ok t (consumers t k)" for k
    proof (cases "k = i")
      case False
      have "consumer_ok t (consumers s k)"
        using t hold_bounds [OF d(4) [of k]] w by (intro consumer_ok_stable [OF d(4), where ys = "[]"]) auto
      then show ?thesis using False t by simp
    qed (use t ok g n w in simp)
    have "(\<lambda>k. hold (consumers t k)) = (\<lambda>k. hold (consumers s k))(i := {taken s..<taken s + unat n})"
      using t by (simp add: fun_eq_iff)
    moreover have "tiles ((\<lambda>k. hold (consumers s k))(i := {taken s..<taken s + unat n})) (released s) (taken s + unat n)"
      using d(6) hold_bounds [OF d(4)] c by (intro tiles_extend) (fastforce simp: holds_ok_def)+
    ultimately show "holds_ok t" using t by (simp add: holds_ok_def)
    show "consumers t k = C_idle" if "single_consumer (ring s)" "k \<noteq> 0" for k
      using solo_consumer [OF inv that(1)] that(2) t by simp
    show "c_at (taken t) (consumers t 0)" if "single_consumer (ring s)"
      using solo_consumer(1) [OF inv that] t by simp
  qed (use t d(2,9) ok g in \<open>auto simp: positions_ok_def\<close>)
qed

text \<open>The next entry a consumer reads is the next one of the history.\<close>

lemma next_entry:
  assumes "conc_inv s" "consumers s i = C_copy h g n got" "length got < n"
  shows "rdata (ring s) ! slot (ring s) h (length got) = accepted s ! (g + length got)"
    and "got @ [accepted s ! (g + length got)] = take (Suc (length got)) (drop g (accepted s))"
proof -
  note d = conc_invD [OF assms(1)]
  have ok: "h = of_nat g" "released s \<le> g" "g + n \<le> taken s" "got = take (length got) (drop g (accepted s))"
    using d(4) [of i] assms(2) by simp_all
  note w = positions_window [OF assms(1)]
  show "rdata (ring s) ! slot (ring s) h (length got) = accepted s ! (g + length got)"
    using d(7) slot_eq [OF d(1), of g "length got"] ok(1,2,3) w assms(3) by (simp add: slots_ok_def)
  have "length got < length (drop g (accepted s))" using ok(3) w assms(3) by simp
  then show "got @ [accepted s ! (g + length got)] = take (Suc (length got)) (drop g (accepted s))"
    using ok(4) by (simp add: take_Suc_conv_app_nth)
qed

lemma inv_c_copy:
  assumes inv: "conc_inv s" "may_consume (ring s) i" and c: "consumers s i = C_copy h g n got" "length got < n"
  shows "conc_inv (set_consumer i (C_copy h g n (got @ [rdata (ring s) ! slot (ring s) h (length got)])) s)"
proof (rule inv_set_consumer [OF inv])
  show "consumer_ok s (C_copy h g n (got @ [rdata (ring s) ! slot (ring s) h (length got)]))"
    using c conc_invD(4) [OF inv(1), of i] next_entry(2) [OF inv(1) c, symmetric]
    unfolding next_entry(1) [OF inv(1) c] by simp
qed (use c in simp_all)

text \<open>A consumer gives its slots back at the tail.\<close>

lemma released_at:
  assumes "conc_inv s" "may_consume (ring s) i" "consumers s i = C_copy h g n got"
    "single_consumer (ring s) \<or> tail (cons_ht (ring s)) = h"
  shows "released s = g"
proof (cases "single_consumer (ring s)")
  case True
  note d = conc_invD [OF assms(1)]
  have ok: "n \<noteq> 0" "released s \<le> g" "g + n \<le> taken s" using d(4) [of i] assms(3) by simp_all
  then have "released s \<in> {released s..<taken s}" by simp
  then obtain k where k: "released s \<in> hold (consumers s k)"
    using tiles_member [OF d(6) [unfolded holds_ok_def]] by blast
  then have "k = i" using solo_consumer(1,2) [OF assms(1,2) True] by (cases "k = i") force+
  then show ?thesis using k assms(3) ok(2) by simp
next
  case False
  have "h = of_nat g" "released s \<le> g" "g \<le> taken s"
    using conc_invD(4) [OF assms(1), of i] assms(3) by simp_all
  then show ?thesis
    using False assms(4) conc_invD(2) [OF assms(1)] positions_window(6) [OF assms(1)]
    by (intro nat_of_eq) (simp_all add: positions_ok_def)
qed

lemma inv_release:
  assumes inv: "conc_inv s" "may_consume (ring s) i" and c: "consumers s i = C_copy h g n got" "length got = n"
    and eq: "single_consumer (ring s) \<or> tail (cons_ht (ring s)) = h"
    and t: "t = set_consumer i C_idle
      (s\<lparr>ring := (ring s)\<lparr>cons_ht := (cons_ht (ring s))\<lparr>tail := h + of_nat n\<rparr>\<rparr>,
         released := released s + n, returned := returned s @ [(i, got)]\<rparr>)"
  shows "conc_inv t"
proof -
  note d = conc_invD [OF inv(1)]
  note w = positions_window [OF inv(1)]
  have g: "released s = g" using released_at [OF inv c(1) eq] .
  have ok: "h = of_nat g" "g + n \<le> taken s" "got = take n (drop g (accepted s))"
    using d(4) [of i] c by simp_all
  show ?thesis
  proof (rule inv_consumer_frame [OF inv(1)])
    show "consumer_ok t (consumers t k)" for k
    proof (cases "k = i")
      case False
      have "hold (consumers s k) \<inter> {g..<g + n} = {}"
        using tiles_disjoint [OF d(6) [unfolded holds_ok_def] False] c(1) by simp
      then have "hold (consumers s k) \<subseteq> {released t..}"
        using hold_bounds [OF d(4) [of k]] g t by fastforce
      then have "consumer_ok t (consumers s k)"
        using t w by (intro consumer_ok_stable [OF d(4), where ys = "[]"]) auto
      then show ?thesis using False t by simp
    qed (use t in simp)
    have "(\<lambda>k. hold (consumers t k)) = (\<lambda>k. hold (consumers s k))(i := {})"
      using t by (simp add: fun_eq_iff)
    moreover have "tiles ((\<lambda>k. hold (consumers s k))(i := {})) (g + n) (taken s)"
      using d(6) g c(1) by (intro tiles_shrink) (simp_all add: holds_ok_def)
    ultimately show "holds_ok t" using t g by (simp add: holds_ok_def)
    show "concat (map snd (returned t)) = take (released t) (accepted t)"
      using t d(9) g ok(3) by (simp add: take_add)
    show "consumers t k = C_idle" if "single_consumer (ring s)" "k \<noteq> 0" for k
      using solo_consumer [OF inv that(1)] that(2) t by simp
    show "c_at (taken t) (consumers t 0)" if "single_consumer (ring s)"
      using solo_consumer(1) [OF inv that] t by simp
  qed (use t d(2) ok g in \<open>auto simp: positions_ok_def\<close>)
qed

lemma inv_consumer_step:
  assumes "consumer_step i s t" "conc_inv s" "may_consume (ring s) i" "fresh s"
  shows "conc_inv t"
  using assms(1)
proof (cases rule: consumer_step.cases)
  case (c_read_head want)
  then show ?thesis
    using conc_invD(2) [OF assms(2)] assms(2,3)
    by (simp, intro inv_set_consumer) (auto simp: positions_ok_def)
next
  case (c_granted want h g n)
  then show ?thesis using inv_c_granted [OF assms(2,3)] by simp
next
  case (c_cas_ok want h g n)
  then show ?thesis using inv_c_cas_ok [OF assms(2,3,4)] by blast
next
  case (c_copy h g n got)
  then show ?thesis using inv_c_copy [OF assms(2,3)] by blast
next
  case (c_release h g n got)
  then show ?thesis using inv_release [OF assms(2,3)] by blast
qed (use assms(2,3) in \<open>auto intro!: inv_set_consumer\<close>)

section \<open>Reachable states\<close>

lemma conc_inv_start:
  assumes "new_BuffRing dflt sz behav sp sc = Some r"
  shows "conc_inv (start_sys r)" "fresh (start_sys r)"
proof -
  have "unat sz \<le> 2147483648"
    using assms RoundupPowerOf2_None [of sz] by (cases "unat sz \<le> 2147483648") (auto simp: new_BuffRing_def)
  then obtain s k where s: "RoundupPowerOf2 sz = Some s" "k < 32" "unat s = 2 ^ k"
    using RoundupPowerOf2_spec by blast
  then have "IsPowerOf2 s" by (auto simp: IsPowerOf2_iff)
  then show "conc_inv (start_sys r)"
    using assms s(1)
    by (auto simp: new_BuffRing_def conc_inv_def start_sys_def static_ok_def positions_ok_def
        claims_ok_def holds_ok_def tiles_def slots_ok_def solo_ok_def)
  show "fresh (start_sys r)" by (simp add: fresh_def start_sys_def)
qed

lemma inv_step: "conc_step s t \<Longrightarrow> conc_inv s \<Longrightarrow> fresh s \<Longrightarrow> conc_inv t"
  by (cases rule: conc_step.cases) (auto intro: inv_producer_step inv_consumer_step)

lemma reach_inv:
  assumes "new_BuffRing dflt sz behav sp sc = Some r" "reach r s"
  shows "conc_inv s" "fresh s"
proof -
  have "conc_inv s \<and> fresh s" using assms(2)
  proof (induction rule: reach.induct)
    case start
    then show ?case using conc_inv_start [OF assms(1)] by simp
  next
    case (step s t)
    then show ?case using inv_step by blast
  qed
  then show "conc_inv s" "fresh s" by simp_all
qed

lemma step_shape: "conc_step s t \<Longrightarrow> same_shape (ring s) (ring t)"
  by (cases rule: conc_step.cases, assumption)
    (auto elim!: producer_step.cases consumer_step.cases simp: same_shape_def)

lemma reach_shape: "reach r s \<Longrightarrow> same_shape r (ring s)"
proof (induction rule: reach.induct)
  case (step s t)
  from step.IH step_shape [OF step.hyps(2)] show ?case by (simp add: same_shape_def)
qed (simp add: start_sys_def)

end
