(* ===== verification/Ring_Run.thy ===== *)
theory Ring_Run
  imports Ring_Inv
begin

text \<open>
  What the shared ring of theory \<open>Ring_Conc\<close> guarantees: its properties over all interleavings, the
  shared queue it implements, and schedules (lists of moves) that can be run. A schedule may break the
  rule of \<open>may_consume\<close>; what then happens is the last property.
\<close>

section \<open>Running a schedule\<close>

text \<open>
  What a thread does next is determined by where it is, so the step relations are the graphs of
  two functions, and a schedule can be run.
\<close>

fun producer_next :: "nat \<Rightarrow> 'a list \<Rightarrow> 'a ring_sys \<Rightarrow> 'a ring_sys" where
  "producer_next i call s =
     (case producers s i of
        P_idle \<Rightarrow> set_producer i (P_start call) s
      | P_start xs \<Rightarrow>
          set_producer i (P_head xs (head (prod_ht (ring s))) (length (accepted s))) s
      | P_head xs h g \<Rightarrow>
          (let n = grant (ring s) (of_nat (length xs)) (prod_free (ring s) h)
           in set_producer i (if n = 0 then P_idle else P_cas xs h g n) s)
      | P_cas xs h g n \<Rightarrow>
          (if single_producer (ring s) \<or> head (prod_ht (ring s)) = h
           then set_producer i (P_copy (take (unat n) xs) h (length (accepted s)) 0)
             (s\<lparr>ring := (ring s)\<lparr>prod_ht := (prod_ht (ring s))\<lparr>head := h + n\<rparr>\<rparr>,
                accepted := accepted s @ take (unat n) xs\<rparr>)
           else set_producer i (P_start xs) s)
      | P_copy xs h g j \<Rightarrow>
          (if j < length xs
           then set_producer i (P_copy xs h g (Suc j))
             (s\<lparr>ring := (ring s)\<lparr>rdata := (rdata (ring s))[slot (ring s) h j := xs ! j]\<rparr>\<rparr>)
           else if j = length xs \<and> (single_producer (ring s) \<or> tail (prod_ht (ring s)) = h)
           then set_producer i P_idle
             (s\<lparr>ring := (ring s)\<lparr>prod_ht := (prod_ht (ring s))\<lparr>tail := h + of_nat (length xs)\<rparr>\<rparr>,
                published := published s + length xs\<rparr>)
           else s))"

fun consumer_next :: "nat \<Rightarrow> u32 \<Rightarrow> 'a ring_sys \<Rightarrow> 'a ring_sys" where
  "consumer_next i call s =
     (case consumers s i of
        C_idle \<Rightarrow> set_consumer i (C_start call) s
      | C_start want \<Rightarrow> set_consumer i (C_head want (head (cons_ht (ring s))) (taken s)) s
      | C_head want h g \<Rightarrow>
          (let n = grant (ring s) want (tail (prod_ht (ring s)) - h)
           in set_consumer i (if n = 0 then C_idle else C_cas want h g n) s)
      | C_cas want h g n \<Rightarrow>
          (if single_consumer (ring s) \<or> head (cons_ht (ring s)) = h
           then set_consumer i (C_copy h (taken s) (unat n) [])
             (s\<lparr>ring := (ring s)\<lparr>cons_ht := (cons_ht (ring s))\<lparr>head := h + n\<rparr>\<rparr>,
                taken := taken s + unat n\<rparr>)
           else set_consumer i (C_start want) s)
      | C_copy h g n got \<Rightarrow>
          (if length got < n
           then set_consumer i (C_copy h g n (got @ [rdata (ring s) ! slot (ring s) h (length got)])) s
           else if length got = n \<and> (single_consumer (ring s) \<or> tail (cons_ht (ring s)) = h)
           then set_consumer i C_idle
             (s\<lparr>ring := (ring s)\<lparr>cons_ht := (cons_ht (ring s))\<lparr>tail := h + of_nat n\<rparr>\<rparr>,
                released := released s + n, returned := returned s @ [(i, got)]\<rparr>)
           else s))"

declare producer_next.simps [simp del] consumer_next.simps [simp del]

lemma producer_next_step:
  assumes "conc_inv s" "length call < 4294967296"
  shows "producer_step i s (producer_next i call s)"
proof (cases "producers s i")
  case (P_cas xs h g n)
  then show ?thesis
    using producer_step.p_cas_ok [OF P_cas] producer_step.p_cas_fail [OF P_cas]
    by (cases "single_producer (ring s) \<or> head (prod_ht (ring s)) = h") (simp_all add: producer_next.simps)
next
  case (P_copy xs h g j)
  have j: "j \<le> length xs" using conc_invD(3) [OF assms(1), of i] P_copy by simp
  show ?thesis
  proof (cases "j < length xs")
    case True
    with P_copy show ?thesis using producer_step.p_copy [OF P_copy] by (simp add: producer_next.simps)
  next
    case False
    with j P_copy have c: "producers s i = P_copy xs h g (length xs)" by simp
    then show ?thesis
      using producer_step.p_publish [OF c] producer_step.p_spin [OF c]
      by (cases "single_producer (ring s) \<or> tail (prod_ht (ring s)) = h") (simp_all add: producer_next.simps)
  qed
qed (use assms(2) in \<open>auto simp: Let_def producer_next.simps intro: producer_step.intros\<close>)

lemma producer_step_next: "producer_step i s t \<Longrightarrow> \<exists>call. t = producer_next i call s"
  by (cases rule: producer_step.cases) (auto simp: Let_def producer_next.simps)

lemma consumer_next_step:
  assumes "conc_inv s"
  shows "consumer_step i s (consumer_next i call s)"
proof (cases "consumers s i")
  case (C_cas want h g n)
  then show ?thesis
    using consumer_step.c_cas_ok [OF C_cas] consumer_step.c_cas_fail [OF C_cas]
    by (cases "single_consumer (ring s) \<or> head (cons_ht (ring s)) = h") (simp_all add: consumer_next.simps)
next
  case (C_copy h g n got)
  have "length got \<le> n" using conc_invD(4) [OF assms(1), of i] C_copy by simp
  then consider "length got < n" | "length got = n" by linarith
  then show ?thesis
  proof cases
    case 1
    with C_copy show ?thesis using consumer_step.c_copy [OF C_copy] by (simp add: consumer_next.simps)
  next
    case 2
    with C_copy show ?thesis
      using consumer_step.c_release [OF C_copy 2] consumer_step.c_spin [OF C_copy 2]
      by (cases "single_consumer (ring s) \<or> tail (cons_ht (ring s)) = h") (simp_all add: consumer_next.simps)
  qed
qed (auto simp: Let_def consumer_next.simps intro: consumer_step.intros)

lemma consumer_step_next: "consumer_step i s t \<Longrightarrow> \<exists>call. t = consumer_next i call s"
  by (cases rule: consumer_step.cases) (auto simp: Let_def consumer_next.simps)

datatype 'a move = Producer nat "'a list" | Consumer nat u32

fun run_moves :: "'a move list \<Rightarrow> 'a ring_sys \<Rightarrow> 'a ring_sys" where
  "run_moves [] s = s"
| "run_moves (Producer i call # ms) s = run_moves ms (producer_next i call s)"
| "run_moves (Consumer i want # ms) s = run_moves ms (consumer_next i want s)"

lemma run_moves_append: "run_moves (ms @ ns) s = run_moves ns (run_moves ms s)"
  by (induction ms s rule: run_moves.induct) simp_all

lemma next_positions:
  "length (accepted s) \<le> length (accepted (producer_next i call s))" "taken (producer_next i call s) = taken s"
  "accepted (consumer_next i want s) = accepted s" "taken s \<le> taken (consumer_next i want s)"
  by (auto simp: Let_def producer_next.simps consumer_next.simps split: producer.split consumer.split)

lemma run_positions:
  "length (accepted s) \<le> length (accepted (run_moves ms s)) \<and> taken s \<le> taken (run_moves ms s)"
proof (induction ms s rule: run_moves.induct)
  case (2 i call ms s)
  then show ?case using next_positions(1,2) [where s = s and i = i and call = call] by simp
next
  case (3 i want ms s)
  then show ?case using next_positions(3,4) [where s = s and i = i and want = want] by simp
qed simp

lemma fresh_small: "length (accepted s) < 4294967296 \<Longrightarrow> taken s < 4294967296 \<Longrightarrow> fresh s"
  unfolding fresh_def
proof
  fix i
  assume "length (accepted s) < 4294967296" "taken s < 4294967296"
  then show "fresh_producer (length (accepted s)) (producers s i) \<and> fresh_consumer (taken s) (consumers s i)"
    by (cases "producers s i"; cases "consumers s i") auto
qed

text \<open>A schedule that keeps to the flags leads to reachable states.\<close>

fun move_ok :: "'a BuffRing \<Rightarrow> 'a move \<Rightarrow> bool" where
  "move_ok r (Producer i call) \<longleftrightarrow> may_produce r i \<and> length call < 4294967296"
| "move_ok r (Consumer i want) \<longleftrightarrow> may_consume r i"

lemma reach_flags: "reach r s \<Longrightarrow> may_produce (ring s) = may_produce r \<and> may_consume (ring s) = may_consume r"
  using reach_shape by (auto simp: same_shape_def may_produce_def may_consume_def fun_eq_iff)

lemma run_reach:
  assumes "new_BuffRing dflt sz behav sp sc = Some r" "reach r s" "\<forall>m \<in> set ms. move_ok r m"
    "length (accepted (run_moves ms s)) < 4294967296" "taken (run_moves ms s) < 4294967296"
  shows "reach r (run_moves ms s)"
  using assms(2-5)
proof (induction ms s rule: run_moves.induct)
  case (2 i call ms s)
  let ?t = "producer_next i call s"
  have "fresh ?t" using 2(4,5) run_positions [of ?t ms] by (intro fresh_small) simp_all
  moreover have "conc_step s ?t"
    using 2(2,3) reach_inv(1) [OF assms(1) 2(2)] reach_flags [OF 2(2)]
    by (intro conc_step.by_producer [where i = i] producer_next_step) simp_all
  ultimately have "reach r ?t" using reach.step [OF 2(2)] by blast
  then show ?case using 2(1,3-5) by simp
next
  case (3 i want ms s)
  let ?t = "consumer_next i want s"
  have "fresh ?t" using 3(4,5) run_positions [of ?t ms] by (intro fresh_small) simp_all
  moreover have "conc_step s ?t"
    using 3(2,3) reach_inv(1) [OF assms(1) 3(2)] reach_flags [OF 3(2)]
    by (intro conc_step.by_consumer [where i = i] consumer_next_step) simp_all
  ultimately have "reach r ?t" using reach.step [OF 3(2)] by blast
  then show ?case using 3(1,3-5) by simp
qed simp

section \<open>The shared queue\<close>

text \<open>
  The contract of the ring with its threads: a queue of entries, the entries each producer has asked to
  put in, the ones it was granted and will put in, the entries each consumer has taken out in one piece
  and will return, and what the calls have returned. The operations are atomic. A producer is granted
  a non-empty prefix of what it asks for; in the fixed mode (\<open>fixed\<close>) all of it.
\<close>

record 'a shared_queue =
  queue :: "'a list"
  asked :: "nat \<Rightarrow> 'a list option"
  granted :: "nat \<Rightarrow> 'a list option"
  pending :: "nat \<Rightarrow> 'a list option"
  outputs :: "(nat \<times> 'a list) list"

inductive queue_step :: "bool \<Rightarrow> nat \<Rightarrow> 'a shared_queue \<Rightarrow> 'a shared_queue \<Rightarrow> bool" for fixed :: bool and cap :: nat where
  q_same: "queue_step fixed cap q q"
| q_ask: "asked q i = None \<Longrightarrow> granted q i = None \<Longrightarrow>
    queue_step fixed cap q (q\<lparr>asked := (asked q)(i \<mapsto> xs)\<rparr>)"
| q_refuse: "asked q i = Some xs \<Longrightarrow>
    queue_step fixed cap q (q\<lparr>asked := (asked q)(i := None)\<rparr>)"
| q_grant: "asked q i = Some xs \<Longrightarrow> 0 < n \<Longrightarrow> n \<le> length xs \<Longrightarrow> (fixed \<Longrightarrow> n = length xs) \<Longrightarrow>
    queue_step fixed cap q (q\<lparr>asked := (asked q)(i := None), granted := (granted q)(i \<mapsto> take n xs)\<rparr>)"
| q_enqueue: "granted q i = Some xs \<Longrightarrow> xs \<noteq> [] \<Longrightarrow> length (queue q) + length xs \<le> cap \<Longrightarrow>
    queue_step fixed cap q (q\<lparr>queue := queue q @ xs, granted := (granted q)(i := None)\<rparr>)"
| q_dequeue: "pending q i = None \<Longrightarrow> xs \<noteq> [] \<Longrightarrow> queue q = xs @ rest \<Longrightarrow>
    queue_step fixed cap q (q\<lparr>queue := rest, pending := (pending q)(i \<mapsto> xs)\<rparr>)"
| q_return: "pending q i = Some xs \<Longrightarrow>
    queue_step fixed cap q (q\<lparr>pending := (pending q)(i := None), outputs := outputs q @ [(i, xs)]\<rparr>)"

fun asking :: "'a producer \<Rightarrow> 'a list option" where
  "asking (P_start xs) = Some xs"
| "asking (P_head xs h g) = Some xs"
| "asking (P_cas xs h g n) = Some xs"
| "asking p = None"

fun putting :: "'a producer \<Rightarrow> 'a list option" where
  "putting (P_copy xs h g j) = Some xs"
| "putting p = None"

definition promised :: "'a list \<Rightarrow> 'a consumer \<Rightarrow> 'a list option" where
  "promised hist c = (case c of C_copy h g n got \<Rightarrow> Some (take n (drop g hist)) | _ \<Rightarrow> None)"

lemma promised_simps [simp]:
  "promised hist C_idle = None" "promised hist (C_start want) = None" "promised hist (C_head want h g) = None"
  "promised hist (C_cas want h g m) = None" "promised hist (C_copy h g n got) = Some (take n (drop g hist))"
  by (simp_all add: promised_def)

definition abs_queue :: "'a ring_sys \<Rightarrow> 'a shared_queue" where
  "abs_queue s = \<lparr>queue = drop (taken s) (take (published s) (accepted s)),
     asked = (\<lambda>i. asking (producers s i)), granted = (\<lambda>i. putting (producers s i)),
     pending = (\<lambda>i. promised (accepted s) (consumers s i)), outputs = returned s\<rparr>"

lemma promised_more:
  assumes "consumer_ok s c" "taken s \<le> length (accepted s)"
  shows "promised (accepted s @ ys) c = promised (accepted s) c"
  using assms by (cases c) auto

lemma drop_take_split:
  assumes "a + n \<le> p"
  shows "drop a (take p xs) = take n (drop a xs) @ drop (a + n) (take p xs)"
proof -
  have "p - a = n + (p - (a + n))" using assms by simp
  then show ?thesis by (simp add: drop_take take_add add.commute)
qed

text \<open>In the fixed mode a call that is granted anything is granted all it asks for.\<close>

definition all_granted :: "'a ring_sys \<Rightarrow> bool" where
  "all_granted s \<longleftrightarrow> (behavior (ring s) = kRingQueueFixed \<longrightarrow>
     (\<forall>i xs h g n. producers s i = P_cas xs h g n \<longrightarrow> unat n = length xs))"

lemma all_granted_producer:
  assumes "producer_step i s t" "all_granted s" "conc_inv s"
  shows "all_granted t"
  using assms(1)
proof (cases rule: producer_step.cases)
  case (p_granted xs h g n)
  have "length xs < 4294967296" using conc_invD(3) [OF assms(3), of i] p_granted(2) by simp
  then have "unat (of_nat (length xs) :: u32) = length xs" by (simp add: unat_of_nat)
  then have "behavior (ring s) = kRingQueueFixed \<Longrightarrow> unat n = length xs"
    using p_granted(3,4) by (auto simp: grant_def split: if_splits)
  then show ?thesis using p_granted(1) assms(2) by (auto simp: all_granted_def)
qed (use assms(2) in \<open>auto simp: all_granted_def\<close>)

lemma all_granted_consumer: "consumer_step i s t \<Longrightarrow> all_granted s \<Longrightarrow> all_granted t"
  by (erule consumer_step.cases) (auto simp: all_granted_def)

lemma reach_all_granted:
  assumes "new_BuffRing dflt sz behav sp sc = Some r" "reach r s"
  shows "all_granted s"
  using assms(2)
proof induction
  case start
  show ?case by (simp add: all_granted_def start_sys_def)
next
  case (step s t)
  then show ?case using reach_inv(1) [OF assms(1)] all_granted_producer all_granted_consumer
    by (metis conc_step.cases)
qed

lemma producer_refines:
  assumes step: "producer_step i s t" and inv: "conc_inv s" "may_produce (ring s) i" and ag: "all_granted s"
  shows "queue_step (behavior (ring s) = kRingQueueFixed) (unat (capacity (ring s))) (abs_queue s) (abs_queue t)"
    (is "queue_step ?fixed ?cap _ _")
proof -
  have put: "abs_queue (set_producer i p s) =
      (abs_queue s)\<lparr>asked := (asked (abs_queue s))(i := asking p), granted := (granted (abs_queue s))(i := putting p)\<rparr>" for p
    by (auto simp: abs_queue_def fun_eq_iff)
  have same: "queue_step ?fixed ?cap (abs_queue s) (abs_queue (set_producer i p s))"
    if "asking p = asking (producers s i)" "putting p = putting (producers s i)" for p
  proof -
    have "abs_queue (set_producer i p s) = abs_queue s" using that by (auto simp: abs_queue_def fun_eq_iff)
    then show ?thesis by (simp add: q_same)
  qed
  from step show ?thesis
  proof (cases rule: producer_step.cases)
    case (p_call xs)
    have "asked (abs_queue s) i = None" "granted (abs_queue s) i = None" using p_call(2) by (simp_all add: abs_queue_def)
    moreover have "abs_queue t = (abs_queue s)\<lparr>asked := (asked (abs_queue s))(i \<mapsto> xs)\<rparr>"
      using p_call(1,2) by (auto simp: abs_queue_def fun_eq_iff)
    ultimately show ?thesis by (metis q_ask)
  next
    case (p_refused xs h g)
    have "asked (abs_queue s) i = Some xs" using p_refused(2) by (simp add: abs_queue_def)
    moreover have "abs_queue t = (abs_queue s)\<lparr>asked := (asked (abs_queue s))(i := None)\<rparr>"
      using p_refused(1,2) by (auto simp: abs_queue_def fun_eq_iff)
    ultimately show ?thesis by (metis q_refuse)
  next
    case (p_cas_ok xs h g n)
    note w = positions_window [OF inv(1)]
    have ok: "0 < unat n" "unat n \<le> length xs" "?fixed \<Longrightarrow> unat n = length xs"
      using conc_invD(3) [OF inv(1), of i] ag p_cas_ok(2)
      by (auto simp: all_granted_def unat_gt_0)
    have a: "asked (abs_queue s) i = Some xs" using p_cas_ok(2) by (simp add: abs_queue_def)
    have t: "abs_queue t = (abs_queue s)\<lparr>asked := (asked (abs_queue s))(i := None),
        granted := (granted (abs_queue s))(i \<mapsto> take (unat n) xs)\<rparr>"
      using p_cas_ok(1) promised_more [OF conc_invD(4) [OF inv(1)]] w by (auto simp: abs_queue_def fun_eq_iff)
    show ?thesis unfolding t using a ok by (intro q_grant)
  next
    case (p_publish xs h g)
    note w = positions_window [OF inv(1)]
    have g: "published s = g" using published_at [OF inv p_publish(2,3)] .
    have ok: "xs \<noteq> []" "g + length xs \<le> length (accepted s)" "take (length xs) (drop g (accepted s)) = xs"
      using conc_invD(3) [OF inv(1), of i] p_publish(2) by simp_all
    have "drop (taken s) (take (g + length xs) (accepted s)) = drop (taken s) (take g (accepted s)) @ xs"
      using ok(2,3) w g by (simp add: take_add)
    then have "abs_queue t = (abs_queue s)\<lparr>queue := queue (abs_queue s) @ xs,
        granted := (granted (abs_queue s))(i := None)\<rparr>"
      using p_publish(1,2) g by (auto simp: abs_queue_def fun_eq_iff)
    moreover have "granted (abs_queue s) i = Some xs" using p_publish(2) by (simp add: abs_queue_def)
    moreover have "length (queue (abs_queue s)) + length xs \<le> unat (capacity (ring s))"
    proof -
      have "length (accepted s) \<le> released s + unat (capacity (ring s))"
        using conc_invD(2) [OF inv(1)] by (simp add: positions_ok_def)
      then have "published s - taken s + length xs \<le> unat (capacity (ring s))" using g ok(2) w by linarith
      then show ?thesis using w by (simp add: abs_queue_def)
    qed
    ultimately show ?thesis using ok(1) by (metis q_enqueue)
  next
    case (p_copy xs h g j)
    have "abs_queue t = abs_queue s" using p_copy(1,2) by (auto simp: abs_queue_def fun_eq_iff)
    then show ?thesis by (simp add: q_same)
  next
    case p_spin
    then show ?thesis by (simp add: q_same)
  next
    case (p_read_head xs)
    show ?thesis unfolding p_read_head(1) by (rule same) (simp_all add: p_read_head(2))
  next
    case (p_granted xs h g n)
    show ?thesis unfolding p_granted(1) by (rule same) (simp_all add: p_granted(2))
  next
    case (p_cas_fail xs h g n)
    show ?thesis unfolding p_cas_fail(1) by (rule same) (simp_all add: p_cas_fail(2))
  qed
qed

lemma consumer_refines:
  assumes step: "consumer_step i s t" and inv: "conc_inv s" "may_consume (ring s) i" "fresh s"
  shows "queue_step fixed cap (abs_queue s) (abs_queue t)"
proof -
  have same: "abs_queue (set_consumer i c s) = abs_queue s"
    if "promised (accepted s) c = promised (accepted s) (consumers s i)" for c
    using that by (simp add: abs_queue_def fun_eq_iff)
  from step show ?thesis
  proof (cases rule: consumer_step.cases)
    case (c_cas_ok want h g n)
    note w = positions_window [OF inv(1)]
    let ?xs = "take (unat n) (drop (taken s) (accepted s))"
    have g: "g = taken s" using taken_at [OF inv(1,3,2) c_cas_ok(2,3)] .
    have ok: "unat n \<noteq> 0" "taken s + unat n \<le> published s"
      using conc_invD(4) [OF inv(1), of i] c_cas_ok(2) g by (simp_all add: unat_eq_0)
    have "queue (abs_queue s) = ?xs @ queue (abs_queue t)"
      using c_cas_ok(1) drop_take_split [OF ok(2)] by (simp add: abs_queue_def)
    moreover have "?xs \<noteq> []" using ok w by simp
    moreover have "pending (abs_queue s) i = None" using c_cas_ok(2) by (simp add: abs_queue_def)
    moreover have "abs_queue t = (abs_queue s)\<lparr>queue := queue (abs_queue t), pending := (pending (abs_queue s))(i \<mapsto> ?xs)\<rparr>"
      using c_cas_ok(1) by (simp add: abs_queue_def fun_eq_iff)
    ultimately show ?thesis by (metis q_dequeue)
  next
    case (c_release h g n got)
    have "got = take n (drop g (accepted s))"
      using conc_invD(4) [OF inv(1), of i] c_release(2,3) by simp
    then have "pending (abs_queue s) i = Some got" using c_release(2) by (simp add: abs_queue_def)
    moreover have "abs_queue t = (abs_queue s)\<lparr>pending := (pending (abs_queue s))(i := None),
        outputs := outputs (abs_queue s) @ [(i, got)]\<rparr>"
      using c_release(1) by (simp add: abs_queue_def fun_eq_iff)
    ultimately show ?thesis by (metis q_return)
  qed (auto simp: same intro: q_same)
qed

section \<open>Properties\<close>

text \<open>
  C1. In every interleaving of the producers with the consumers in the runs of \<open>reach\<close>, that is, with sequentially consistent memory, threads that keep to the flags the
  ring was made with, and no thread that sleeps between its read of a head and its compare-and-swap while
  \<open>2^32\<close> entries are reserved,
  what the calls of \<open>DoDequeue\<close> have returned is, in the order of their returns, a prefix of the entries in
  the order in which their reservations succeeded, and never more than the capacity of them are
  outstanding: no entry is lost, torn, duplicated, reordered or overwritten before it is read.
\<close>

theorem conc_fifo:
  assumes "new_BuffRing dflt sz behav sp sc = Some r" "reach r s"
  shows "\<exists>rest. accepted s = concat (map snd (returned s)) @ rest \<and> length rest \<le> unat (RingCapacity r)"
proof -
  have inv: "conc_inv s" using reach_inv(1) [OF assms] .
  have "accepted s = concat (map snd (returned s)) @ drop (released s) (accepted s)"
    using conc_invD(9) [OF inv] by simp
  moreover have "length (accepted s) - released s \<le> unat (capacity (ring s))"
    using conc_invD(2) [OF inv] unfolding positions_ok_def by linarith
  moreover have "capacity (ring s) = RingCapacity r"
    using reach_shape [OF assms(2)] by (simp add: same_shape_def RingCapacity_def)
  ultimately show ?thesis
    by (intro exI [of _ "drop (released s) (accepted s)"] conjI) simp_all
qed

text \<open>
  C7. A producer in the middle of \<open>ENQUEUE_PTRS\<close> writes inside the array, into a slot that no
  other producer writes, that no consumer is about to read and that holds no published entry yet to
  be released. This holds in the runs of \<open>reach\<close>, that is, with sequentially consistent memory, threads that keep to the flags the
  ring was made with, and no thread that sleeps between its read of a head and its compare-and-swap while
  \<open>2^32\<close> entries are reserved.
\<close>

theorem conc_slots_exclusive:
  assumes "new_BuffRing dflt sz behav sp sc = Some r" "reach r s"
    and "producers s i = P_copy xs h g j" "j < length xs"
  shows "slot (ring s) h j < length (rdata (ring s)) \<and>
    (\<forall>k ys h' g' m. k \<noteq> i \<and> producers s k = P_copy ys h' g' m \<and> m < length ys \<longrightarrow>
       slot (ring s) h' m \<noteq> slot (ring s) h j) \<and>
    (\<forall>k h' g' n got. consumers s k = C_copy h' g' n got \<and> length got < n \<longrightarrow>
       slot (ring s) h' (length got) \<noteq> slot (ring s) h j) \<and>
    (\<forall>q. released s \<le> q \<and> q < published s \<longrightarrow> q mod unat (rsize (ring s)) \<noteq> slot (ring s) h j)"
proof -
  have inv: "conc_inv s" using reach_inv(1) [OF assms(1,2)] .
  note d = conc_invD [OF inv]
  note w = positions_window [OF inv]
  let ?m = "unat (rsize (ring s))"
  have bound: "h = of_nat g" "published s \<le> g" "g + length xs \<le> length (accepted s)"
    using d(3) [of i] assms(3) by simp_all
  then have slot: "slot (ring s) h j = (g + j) mod ?m" using slot_eq [OF d(1)] by simp
  have "slot (ring s) h j < length (rdata (ring s))"
    using slot static_okD(1) [OF d(1)] d(1) by (simp add: static_ok_def)
  moreover have "slot (ring s) h' m \<noteq> slot (ring s) h j"
    if k: "k \<noteq> i" "producers s k = P_copy ys h' g' m" "m < length ys" for k ys h' g' m
  proof -
    have b: "h' = of_nat g'" "published s \<le> g'" "g' + length ys \<le> length (accepted s)"
      using d(3) [of k] k(2) by simp_all
    have "g' + m \<noteq> g + j"
      using tiles_disjoint [OF d(5) [unfolded claims_ok_def] k(1)] k(2,3) assms(3,4) by auto
    then have "(g' + m) mod ?m \<noteq> (g + j) mod ?m"
      using b bound k(3) assms(4) w by (intro window_claims [OF inv]) auto
    then show ?thesis using slot slot_eq [OF d(1)] b(1) by simp
  qed
  moreover have other: "q mod ?m \<noteq> slot (ring s) h j" if "released s \<le> q" "q < published s" for q
    unfolding slot using that bound assms(4) w by (intro window_claims [OF inv]) auto
  moreover have "slot (ring s) h' (length got) \<noteq> slot (ring s) h j"
    if k: "consumers s k = C_copy h' g' n got" "length got < n" for k h' g' n got
  proof -
    have "h' = of_nat g'" "released s \<le> g'" "g' + n \<le> taken s" using d(4) [of k] k(1) by simp_all
    then show ?thesis using other [of "g' + length got"] slot_eq [OF d(1)] k(2) w by simp
  qed
  ultimately show ?thesis by blast
qed

text \<open>Of the threads that have reserved slots, the one with the lowest can go on.\<close>

lemma first_claim:
  assumes inv: "conc_inv s" and copy: "producers s i = P_copy xs h g j"
  shows "\<exists>k ys j'. producers s k = P_copy ys (tail (prod_ht (ring s))) (published s) j'"
proof -
  note d = conc_invD [OF inv]
  have "published s < length (accepted s)" using d(3) [of i] copy by (cases xs) auto
  then obtain k where k: "published s \<in> claim (producers s k)"
    using tiles_member [OF d(5) [unfolded claims_ok_def], of "published s"] by auto
  then obtain ys h' g' m where c: "producers s k = P_copy ys h' g' m" by (cases "producers s k") auto
  then have "g' = published s" "h' = of_nat g'" using k d(3) [of k] by auto
  then show ?thesis using c d(2) by (auto simp: positions_ok_def)
qed

lemma producer_next_moves:
  assumes "conc_inv s" "producers s k = P_copy ys (tail (prod_ht (ring s))) g j"
  shows "producers s k \<noteq> P_idle" "producers (producer_next k [] s) k \<noteq> producers s k"
  using assms(2) conc_invD(3) [OF assms(1), of k] by (auto simp: producer_next.simps)

text \<open>
  C10. The threads do not deadlock: while some producer has reserved entries it has not yet
  published, the one that is next to publish can copy or publish, and while some consumer holds
  entries it has not yet released, the one that is next to release can; so the waits in
  \<open>UpdateTail\<close> end.
\<close>

theorem conc_no_deadlock:
  assumes "new_BuffRing dflt sz behav sp sc = Some r" "reach r s"
  shows "(producers s i = P_copy xs h g j \<longrightarrow>
      (\<exists>k t ys h' m. producer_step k s t \<and> producers t k \<noteq> producers s k \<and>
         producers s k = P_copy ys h' (published s) m)) \<and>
    (consumers s i = C_copy h g n got \<longrightarrow>
      (\<exists>k t h' n' got'. consumer_step k s t \<and> consumers t k \<noteq> consumers s k \<and>
         consumers s k = C_copy h' (released s) n' got'))"
proof (intro conjI impI)
  have inv: "conc_inv s" using reach_inv(1) [OF assms] .
  note d = conc_invD [OF inv]
  {
    assume p: "producers s i = P_copy xs h g j"
    obtain k ys m where k: "producers s k = P_copy ys (tail (prod_ht (ring s))) (published s) m"
      using first_claim [OF inv p] by blast
    then show "\<exists>k t ys h' m. producer_step k s t \<and> producers t k \<noteq> producers s k \<and>
         producers s k = P_copy ys h' (published s) m"
      using producer_next_step [OF inv, of "[]" k] producer_next_moves [OF inv k] by fastforce
  next
    assume c: "consumers s i = C_copy h g n got"
    have "released s < taken s" using d(4) [of i] c by auto
    then obtain k where k: "released s \<in> hold (consumers s k)"
      using tiles_member [OF d(6) [unfolded holds_ok_def], of "released s"] by auto
    then obtain h' g' n' got' where c': "consumers s k = C_copy h' g' n' got'" by (cases "consumers s k") auto
    then have g: "g' = released s" "h' = of_nat g'" using k d(4) [of k] by auto
    have "tail (cons_ht (ring s)) = h'" using d(2) g by (simp add: positions_ok_def)
    then have "consumers (consumer_next k 0 s) k \<noteq> consumers s k"
      using c' d(4) [of k] by (auto simp: consumer_next.simps)
    then show "\<exists>k t h' n' got'. consumer_step k s t \<and> consumers t k \<noteq> consumers s k \<and>
         consumers s k = C_copy h' (released s) n' got'"
      using consumer_next_step [OF inv, of k 0] c' g(1) by fastforce
  }
qed

text \<open>
  C6. The ring with its threads is a shared queue: whatever step a thread takes, it is either
  invisible or one atomic operation on the queue, namely a producer's call, its refusal, the
  grant of a non-empty prefix of the call's entries (of all of them in the fixed mode), the enqueue in one
  piece of the entries granted, the dequeue of a non-empty piece from the front, or the return of the
  entries dequeued. This holds in the runs of \<open>reach\<close>, that is, with sequentially consistent memory, threads that keep to the flags the
  ring was made with, and no thread that sleeps between its read of a head and its compare-and-swap while
  \<open>2^32\<close> entries are reserved.
\<close>

theorem conc_refines:
  assumes "new_BuffRing dflt sz behav sp sc = Some r" "reach r s" "conc_step s t"
  shows "queue_step (behav = kRingQueueFixed) (unat (RingCapacity r)) (abs_queue s) (abs_queue t)"
proof -
  have inv: "conc_inv s" "fresh s" using reach_inv [OF assms(1,2)] by simp_all
  have "behavior r = behav" using assms(1) by (auto simp: new_BuffRing_def bind_eq_Some_conv)
  then have shape: "capacity (ring s) = RingCapacity r" "behavior (ring s) = behav"
    using reach_shape [OF assms(2)] by (simp_all add: same_shape_def RingCapacity_def)
  with assms(3) show ?thesis
    using producer_refines [OF _ inv(1) _ reach_all_granted [OF assms(1,2)]] consumer_refines [OF _ inv(1) _ inv(2)]
    by (cases rule: conc_step.cases) metis+
qed

lemma slot_frame [simp]:
  "slot (r\<lparr>prod_ht := p\<rparr>) = slot r" "slot (r\<lparr>cons_ht := c\<rparr>) = slot r" "slot (r\<lparr>rdata := d\<rparr>) = slot r"
  by (simp_all add: slot_def fun_eq_iff)

lemma grant_frame [simp]:
  "grant (r\<lparr>prod_ht := p\<rparr>) = grant r" "grant (r\<lparr>cons_ht := c\<rparr>) = grant r" "grant (r\<lparr>rdata := d\<rparr>) = grant r"
  by (simp_all add: grant_def fun_eq_iff)

text \<open>
  C8. A ring made for a single consumer breaks when two threads take entries from it: an entry
  put in once can be handed to both of them.
\<close>

theorem single_consumer_shared:
  assumes "new_BuffRing dflt sz behav sp True = Some r" "0 < unat (RingCapacity r)"
  shows "\<exists>moves. let s = run_moves moves (start_sys r) in
    accepted s = [x] \<and> returned s = [(0, [x]), (1, [x])]"
proof -
  have single: "single_consumer r" "head (prod_ht r) = 0" "tail (prod_ht r) = 0" "head (cons_ht r) = 0"
    "tail (cons_ht r) = 0" using assms(1) by (auto simp: new_BuffRing_def bind_eq_Some_conv)
  have st: "static_ok r" using conc_invD(1) [OF conc_inv_start(1) [OF assms(1)]] by (simp add: start_sys_def)
  have "0 < length (rdata r)" using st static_okD(1) [OF st] by (simp add: static_ok_def)
  moreover have "slot r 0 0 = 0" using slot_eq [OF st, of 0 0] by simp
  moreover have "grant r 1 (prod_free r 0) = 1"
  proof -
    have "capacity r \<noteq> 0" using assms(2) by (auto simp: RingCapacity_def)
    then have "\<not> 1 > capacity r" by (simp add: word_less_1 not_less word_le_nat_alt unat_gt_0)
    then show ?thesis using single by (simp add: grant_def prod_free_def)
  qed
  moreover have "grant r 1 1 = 1" by (simp add: grant_def)
  moreover define moves where "moves = [Producer 0 [x], Producer 0 [x], Producer 0 [x], Producer 0 [x],
    Producer 0 [x], Producer 0 [x], Consumer 0 1, Consumer 1 1, Consumer 0 1, Consumer 1 1, Consumer 0 1,
    Consumer 1 1, Consumer 0 1, Consumer 1 1, Consumer 0 1, Consumer 1 1, Consumer 0 1, Consumer 1 1]"
  ultimately have "accepted (run_moves moves (start_sys r)) = [x]"
    "returned (run_moves moves (start_sys r)) = [(0, [x]), (1, [x])]"
    using single by (simp_all add: start_sys_def producer_next.simps consumer_next.simps)
  then show ?thesis by (intro exI [of _ moves]) (simp add: Let_def)
qed

section \<open>Sample runs\<close>

text \<open>
  Two producers and two consumers on a ring of four slots. In \<open>both_copying\<close> both producers have
  reserved before the first one has copied anything; in \<open>both_taking\<close> all is published and both
  consumers have taken entries and not yet returned; in \<open>all_returned\<close> they have.
\<close>

definition small_ring :: "nat BuffRing" where
  "small_ring = \<lparr>rsize = 4, rmask = 3, capacity = 3, behavior = kRingQueueVariable,
     single_producer = False, single_consumer = False,
     prod_ht = \<lparr>head = 0, tail = 0\<rparr>, cons_ht = \<lparr>head = 0, tail = 0\<rparr>, rdata = [0, 0, 0, 0]\<rparr>"

lemma small_ring_new: "new_BuffRing 0 4 kRingQueueVariable False False = Some small_ring"
  "new_BuffRing 0 4 kRingQueueVariable False True = Some (small_ring\<lparr>single_consumer := True\<rparr>)"
proof -
  have "replicate 4 (0 :: nat) = [0, 0, 0, 0]" by (simp add: numeral_eq_Suc)
  then show "new_BuffRing 0 4 kRingQueueVariable False False = Some small_ring"
    "new_BuffRing 0 4 kRingQueueVariable False True = Some (small_ring\<lparr>single_consumer := True\<rparr>)"
    by (simp_all add: new_BuffRing_def small_ring_def RoundupPowerOf2_def IsPowerOf2_def)
qed

definition both_copying :: "nat move list" where
  "both_copying = [Producer 0 [1, 2], Producer 1 [3], Producer 0 [], Producer 1 [], Producer 0 [],
     Producer 1 [], Producer 1 [], Producer 0 [], Producer 0 [], Producer 0 [], Producer 0 []]"

definition both_taking :: "nat move list" where
  "both_taking = both_copying @ [Producer 1 [], Producer 1 [], Producer 0 [], Producer 0 [], Producer 0 [],
     Consumer 0 2, Consumer 1 1, Consumer 0 0, Consumer 1 0, Consumer 0 0, Consumer 1 0,
     Consumer 1 0, Consumer 0 0, Consumer 0 0, Consumer 0 0, Consumer 0 0]"

definition all_returned :: "nat move list" where
  "all_returned = both_taking @ [Consumer 0 0, Consumer 0 0, Consumer 1 0, Consumer 1 0, Consumer 0 0]"

lemmas run_simps = producer_next.simps consumer_next.simps start_sys_def small_ring_def grant_def
  prod_free_def slot_def Let_def

lemma both_copying_state:
  "producers (run_moves both_copying (start_sys small_ring)) 0 = P_copy [1, 2] 1 1 0"
  "producers (run_moves both_copying (start_sys small_ring)) 1 = P_copy [3] 0 0 0"
  "accepted (run_moves both_copying (start_sys small_ring)) = [3, 1, 2]"
  "taken (run_moves both_copying (start_sys small_ring)) = 0"
  by (simp_all add: both_copying_def run_simps)

lemma both_taking_state:
  "consumers (run_moves both_taking (start_sys small_ring)) 0 = C_copy 1 1 2 []"
  "consumers (run_moves both_taking (start_sys small_ring)) 1 = C_copy 0 0 1 []"
  "accepted (run_moves both_taking (start_sys small_ring)) = [3, 1, 2]"
  "taken (run_moves both_taking (start_sys small_ring)) = 3"
  by (simp_all add: both_taking_def both_copying_def run_simps)

lemma all_returned_state:
  "returned (run_moves all_returned (start_sys small_ring)) = [(1, [3]), (0, [1, 2])]"
  "accepted (run_moves all_returned (start_sys small_ring)) = [3, 1, 2]"
  "taken (run_moves all_returned (start_sys small_ring)) = 3"
  by (simp_all add: all_returned_def both_taking_def both_copying_def run_simps)

lemma sample_reach: "reach small_ring (run_moves both_copying (start_sys small_ring))"
  "reach small_ring (run_moves both_taking (start_sys small_ring))"
  "reach small_ring (run_moves all_returned (start_sys small_ring))"
proof -
  have "\<forall>m \<in> set all_returned. move_ok small_ring m"
    by (simp add: all_returned_def both_taking_def both_copying_def may_produce_def may_consume_def small_ring_def)
  then have ok: "\<forall>m \<in> set both_copying. move_ok small_ring m" "\<forall>m \<in> set both_taking. move_ok small_ring m"
    "\<forall>m \<in> set all_returned. move_ok small_ring m"
    by (simp_all add: all_returned_def both_taking_def)
  note go = run_reach [OF small_ring_new(1) reach.start]
  show "reach small_ring (run_moves both_copying (start_sys small_ring))"
    by (rule go [OF ok(1)]) (simp_all add: both_copying_state)
  show "reach small_ring (run_moves both_taking (start_sys small_ring))"
    by (rule go [OF ok(2)]) (simp_all add: both_taking_state)
  show "reach small_ring (run_moves all_returned (start_sys small_ring))"
    by (rule go [OF ok(3)]) (simp_all add: all_returned_state)
qed

lemma small_ring_capacity: "unat (RingCapacity small_ring) = 3"
  by (simp add: RingCapacity_def small_ring_def)

theorem conc_fifo_witness:
  "\<exists>rest. [3, 1, 2 :: nat] = concat (map snd [(1 :: nat, [3]), (0, [1, 2])]) @ rest \<and> length rest \<le> 3 \<and>
     returned (run_moves all_returned (start_sys small_ring)) = [(1, [3]), (0, [1, 2])]"
  using conc_fifo [OF small_ring_new(1) sample_reach(3)]
  unfolding all_returned_state small_ring_capacity by simp

theorem conc_slots_exclusive_witness:
  "slot (ring (run_moves both_copying (start_sys small_ring))) 0 0 \<noteq>
   slot (ring (run_moves both_copying (start_sys small_ring))) 1 0"
  using conc_slots_exclusive [OF small_ring_new(1) sample_reach(1) both_copying_state(1),
      THEN conjunct2, THEN conjunct1, rule_format, of 1 "[3]" 0 0 0] both_copying_state(2) by simp

theorem conc_no_deadlock_witness:
  "(\<exists>k t. producer_step k (run_moves both_copying (start_sys small_ring)) t \<and>
      producers t k \<noteq> producers (run_moves both_copying (start_sys small_ring)) k) \<and>
   (\<exists>k t. consumer_step k (run_moves both_taking (start_sys small_ring)) t \<and>
      consumers t k \<noteq> consumers (run_moves both_taking (start_sys small_ring)) k)"
  using conc_no_deadlock [OF small_ring_new(1) sample_reach(1)] both_copying_state(1)
    conc_no_deadlock [OF small_ring_new(1) sample_reach(2)] both_taking_state(1) by meson

theorem conc_refines_witness:
  "queue_step False 3 (abs_queue (run_moves both_taking (start_sys small_ring)))
     (abs_queue (consumer_next 1 0 (run_moves both_taking (start_sys small_ring))))"
proof -
  have "conc_step (run_moves both_taking (start_sys small_ring))
      (consumer_next 1 0 (run_moves both_taking (start_sys small_ring)))"
    using reach_inv(1) [OF small_ring_new(1) sample_reach(2)] reach_flags [OF sample_reach(2)]
    by (intro conc_step.by_consumer [where i = 1] consumer_next_step) (simp_all add: may_consume_def small_ring_def)
  then show ?thesis
    using conc_refines [OF small_ring_new(1) sample_reach(2)] unfolding small_ring_capacity by (simp add: kRingQueueFixed_def kRingQueueVariable_def)
qed

theorem single_consumer_shared_witness:
  "\<exists>moves. returned (run_moves moves (start_sys (small_ring\<lparr>single_consumer := True\<rparr>))) =
     [(0, [7]), (1, [7])]"
  using single_consumer_shared [OF small_ring_new(2), of 7]
  by (auto simp: Let_def RingCapacity_def small_ring_def)

end
