(* ===== verification/Ring_Solo.thy ===== *)
theory Ring_Solo
  imports Ring_Run
begin

text \<open>
  The two models of the ring agree: a thread that runs a call undisturbed, step by step as in theory
  \<open>Ring_Conc\<close>, does what the functions \<open>DoEnqueue\<close> and \<open>DoDequeue\<close> of theory \<open>Buff_Ring\<close> compute.
\<close>

section \<open>The copy loops\<close>

lemma ring_put_snoc:
  assumes "p < length xs" "length ys < length xs"
  shows "(ring_put xs p ys)[(p + length ys) mod length xs := y] = ring_put xs p (ys @ [y])"
proof (rule nth_equalityI)
  fix j assume "j < length ((ring_put xs p ys)[(p + length ys) mod length xs := y])"
  then have j: "j < length xs" by simp
  have "ring_dist (length xs) p j = length ys \<longleftrightarrow> j = (p + length ys) mod length xs"
    using assms j by (auto simp: ring_dist_eval mod_if)
  then show "(ring_put xs p ys)[(p + length ys) mod length xs := y] ! j = ring_put xs p (ys @ [y]) ! j"
    using assms j by (auto simp: nth_list_update nth_ring_put Let_def nth_append)
qed simp

lemma ring_slice_snoc: "ring_slice xs p (Suc n) = ring_slice xs p n @ [xs ! ((p + n) mod length xs)]"
  by (simp add: ring_slice_def)

lemma slot_unat:
  assumes "static_ok r"
  shows "slot r h j = (unat h mod unat (rsize r) + j) mod unat (rsize r)"
  using slot_eq [OF assms, of "unat h" j] by (simp add: mod_add_left_eq)

lemma run_moves_Suc: "run_moves (replicate (Suc j) m) s = run_moves [m] (run_moves (replicate j m) s)"
  using run_moves_append [of "replicate j m" "[m]" s] by (simp add: replicate_append_same)

lemma solo_copy:
  assumes "static_ok (ring s)" "producers s i = P_copy ys h g 0" "length ys < unat (rsize (ring s))" "j \<le> length ys"
  shows "run_moves (replicate j (Producer i call)) s =
    set_producer i (P_copy ys h g j) (s\<lparr>ring := (ring s)\<lparr>rdata :=
      ring_put (rdata (ring s)) (unat h mod unat (rsize (ring s))) (take j ys)\<rparr>\<rparr>)"
  using assms(4)
proof (induction j)
  case 0
  then show ?case using assms(2) by (simp add: fun_upd_idem)
next
  case (Suc j)
  let ?m = "unat (rsize (ring s))" and ?d = "rdata (ring s)"
  have d: "length ?d = ?m" using assms(1) by (simp add: static_ok_def)
  have "(ring_put ?d (unat h mod ?m) (take j ys))[(unat h mod ?m + j) mod ?m := ys ! j] =
      ring_put ?d (unat h mod ?m) (take (Suc j) ys)"
    using ring_put_snoc [of "unat h mod ?m" ?d "take j ys" "ys ! j"] Suc.prems assms(3) d
    by (simp add: take_Suc_conv_app_nth)
  then show ?case
    unfolding run_moves_Suc using Suc slot_unat [OF assms(1), of h j] by (simp add: producer_next.simps fun_upd_def cong: if_cong)
qed

lemma solo_take:
  assumes "static_ok (ring s)" "consumers s i = C_copy h g n []" "j \<le> n"
  shows "run_moves (replicate j (Consumer i want)) s =
    set_consumer i (C_copy h g n (ring_slice (rdata (ring s)) (unat h) j)) s"
  using assms(3)
proof (induction j)
  case 0
  then show ?case using assms(2) by (simp add: fun_upd_idem)
next
  case (Suc j)
  have "slot (ring s) h j = (unat h + j) mod length (rdata (ring s))"
    using slot_unat [OF assms(1), of h j] assms(1) by (simp add: static_ok_def mod_add_left_eq)
  then show ?case
    unfolding run_moves_Suc using Suc by (simp add: consumer_next.simps ring_slice_snoc fun_upd_def cong: if_cong)
qed

section \<open>Calls\<close>

lemma ring_ok_static: "ring_ok r \<Longrightarrow> static_ok r"
  by (auto simp: ring_ok_def static_ok_def)

lemma grant_admit:
  "unat (grant r want avail) = admit (ring_fixed r) (unat want) (unat avail)"
  unfolding grant_def ring_fixed_def admit_word by (simp add: admit_def)

lemma solo_enqueue:
  assumes ok: "ring_ok (ring s)" and idle: "producers s i = P_idle" and len: "length xs < 4294967296"
    and n: "n = grant (ring s) (of_nat (length xs)) (prod_free (ring s) (head (prod_ht (ring s))))"
    and k: "k = (if n = 0 then 3 else 5 + unat n)"
  shows "run_moves (replicate k (Producer i xs)) s = s\<lparr>ring := ring_push (ring s) (take (unat n) xs),
    accepted := accepted s @ take (unat n) xs, published := published s + unat n\<rparr>"
proof -
  let ?r = "ring s" and ?h = "head (prod_ht (ring s))" and ?ys = "take (unat n) xs"
  let ?go = "run_moves (replicate 3 (Producer i xs)) s"
  have go: "?go = set_producer i (if n = 0 then P_idle else P_cas xs ?h (length (accepted s)) n) s"
    using idle n by (simp add: numeral_eq_Suc producer_next.simps Let_def)
  have tail: "tail (prod_ht ?r) = ?h" using ok by (simp add: ring_ok_def)
  show ?thesis
  proof (cases "n = 0")
    case True
    then show ?thesis using go k idle ring_push_nil [OF ok] by (simp add: fun_upd_idem)
  next
    case False
    let ?s = "set_producer i (P_copy ?ys ?h (length (accepted s)) 0)
      (s\<lparr>ring := ?r\<lparr>prod_ht := (prod_ht ?r)\<lparr>head := ?h + n\<rparr>\<rparr>, accepted := accepted s @ ?ys\<rparr>)"
    have "unat n \<le> length xs" "unat n \<le> unat (prod_free ?r ?h)"
      using granted_le [of ?r "of_nat (length xs)" "prod_free ?r ?h"] n len
      by (simp_all add: word_le_nat_alt unat_of_nat32)
    moreover have "unat (prod_free ?r ?h) < unat (rsize ?r)"
      using free_entries_unat [OF ok] ring_okD(3) [OF ok] by (simp add: prod_free_def)
    ultimately have ys: "length ?ys = unat n" "length ?ys < unat (rsize ?r)" by simp_all
    have st: "static_ok (ring ?s)"
      using static_ok_shape [OF ring_ok_static [OF ok] same_shape_head_tail(1)] by simp
    have "replicate k (Producer i xs) = replicate 3 (Producer i xs) @ Producer i xs #
        replicate (unat n) (Producer i xs) @ [Producer i xs]"
      using k False by (simp add: numeral_eq_Suc replicate_append_same)
    then have "run_moves (replicate k (Producer i xs)) s = producer_next i xs
        (run_moves (replicate (unat n) (Producer i xs)) (producer_next i xs ?go))"
      by (simp add: run_moves_append)
    also have "producer_next i xs ?go = ?s" using go False by (simp add: producer_next.simps)
    also have "run_moves (replicate (unat n) (Producer i xs)) ?s = set_producer i (P_copy ?ys ?h (length (accepted s)) (unat n))
        (?s\<lparr>ring := (ring ?s)\<lparr>rdata := ring_put (rdata ?r) (unat ?h mod unat (rsize ?r)) ?ys\<rparr>\<rparr>)"
      using solo_copy [OF st, of i ?ys ?h "length (accepted s)" "unat n" xs] ys by simp
    also have "producer_next i xs \<dots> = s\<lparr>ring := ring_push (ring s) ?ys,
        accepted := accepted s @ ?ys, published := published s + unat n\<rparr>"
      using idle tail ys(1) by (simp add: producer_next.simps ring_push_def Let_def fun_upd_idem RingHeadtail_set)
    finally show ?thesis .
  qed
qed

lemma solo_dequeue:
  fixes s :: "'a ring_sys"
  assumes ok: "ring_ok (ring s)" and idle: "consumers s i = C_idle"
    and n: "n = grant (ring s) want (tail (prod_ht (ring s)) - head (cons_ht (ring s)))"
    and k: "k = (if n = 0 then 3 else 5 + unat n)"
  shows "run_moves (replicate k (Consumer i want)) s = s\<lparr>ring := ring_pop (ring s) (unat n),
    taken := taken s + unat n, released := released s + unat n,
    returned := returned s @ (if n = 0 then [] else [(i, take (unat n) (ring_contents (ring s)))])\<rparr>"
proof -
  let ?r = "ring s" and ?h = "head (cons_ht (ring s))"
  let ?go = "run_moves (replicate 3 (Consumer i want)) s"
  have go: "?go = set_consumer i (if n = 0 then C_idle else C_cas want ?h (taken s) n) s"
    using idle n by (simp add: numeral_eq_Suc consumer_next.simps Let_def)
  have tail: "tail (cons_ht ?r) = ?h" using ok by (simp add: ring_ok_def)
  show ?thesis
  proof (cases "n = 0")
    case True
    then show ?thesis using go k idle ring_pop_0 [OF ok] by (simp add: fun_upd_idem)
  next
    case False
    let ?s = "set_consumer i (C_copy ?h (taken s) (unat n) [])
      (s\<lparr>ring := ?r\<lparr>cons_ht := (cons_ht ?r)\<lparr>head := ?h + n\<rparr>\<rparr>, taken := taken s + unat n\<rparr>)"
    have st: "static_ok (ring ?s)"
      using static_ok_shape [OF ring_ok_static [OF ok] same_shape_head_tail(2)] by simp
    have used: "unat n \<le> ring_used ?r"
      using granted_le(1) [of ?r want "tail (prod_ht ?r) - ?h"] n entries_unat [OF ok]
      by (simp add: word_le_nat_alt)
    then have got: "ring_slice (rdata ?r) (unat ?h) (unat n) = take (unat n) (ring_contents ?r)"
      using tail by (simp add: ring_contents_def take_ring_slice)
    have "replicate k (Consumer i want :: 'a move) = replicate 3 (Consumer i want) @ Consumer i want #
        replicate (unat n) (Consumer i want) @ [Consumer i want]"
      using k False by (simp add: numeral_eq_Suc replicate_append_same)
    then have "run_moves (replicate k (Consumer i want)) s = consumer_next i want
        (run_moves (replicate (unat n) (Consumer i want)) (consumer_next i want ?go))"
      by (simp add: run_moves_append)
    also have "consumer_next i want ?go = ?s" using go False by (simp add: consumer_next.simps)
    also have "run_moves (replicate (unat n) (Consumer i want)) ?s =
        set_consumer i (C_copy ?h (taken s) (unat n) (ring_slice (rdata ?r) (unat ?h) (unat n))) ?s"
      using solo_take [OF st, of i ?h "taken s" "unat n" "unat n" want] by simp
    also have "consumer_next i want \<dots> = s\<lparr>ring := ring_pop (ring s) (unat n), taken := taken s + unat n,
        released := released s + unat n, returned := returned s @ [(i, take (unat n) (ring_contents ?r))]\<rparr>"
      using idle tail got used by (simp add: consumer_next.simps ring_pop_def Let_def fun_upd_idem RingHeadtail_set)
    finally show ?thesis using False by simp
  qed
qed

text \<open>C9. A call of \<open>DoEnqueue\<close> or \<open>DoDequeue\<close> that one thread runs step by step while no other
  call is under way ends after finitely many steps, and the ring and what is handed over are exactly
  what the function of the sequential model computes.\<close>

theorem steps_are_calls:
  assumes ok: "ring_ok (ring s)" and idle: "producers s i = P_idle" "consumers s i = C_idle"
    and len: "length xs < 4294967296" "length buf = unat want"
  shows "(\<exists>k n free t. run_moves (replicate k (Producer i xs)) s = t \<and>
      DoEnqueue (ring s) xs (of_nat (length xs)) = Some (n, free, ring t) \<and>
      producers t = producers s \<and> accepted t = accepted s @ take (unat n) xs) \<and>
    (\<exists>k n avail buf' t. run_moves (replicate k (Consumer i want)) s = t \<and>
      DoDequeue (ring s) buf want = Some (n, avail, buf', ring t) \<and>
      consumers t = consumers s \<and>
      concat (map snd (returned t)) = concat (map snd (returned s)) @ take (unat n) buf')"
proof
  let ?r = "ring s"
  define n where "n = grant ?r (of_nat (length xs)) (prod_free ?r (head (prod_ht ?r)))"
  have "unat n = admit (ring_fixed ?r) (length xs) (unat (capacity ?r) - ring_used ?r)"
    using free_entries_unat [OF ok] len(1) by (simp add: n_def grant_admit prod_free_def unat_of_nat32)
  moreover obtain n' free where e: "DoEnqueue ?r xs (of_nat (length xs)) = Some (n', free, ring_push ?r (take (unat n') xs))"
    "unat n' = admit (ring_fixed ?r) (length xs) (unat (capacity ?r) - ring_used ?r)"
    using DoEnqueue_eq [OF ok, of "of_nat (length xs)" xs] len(1) by (auto simp: unat_of_nat32 simp del: take_append)
  ultimately have "n' = n" by (simp add: word_unat_eq_iff)
  with e(1) have "DoEnqueue ?r xs (of_nat (length xs)) = Some (n, free, ring_push ?r (take (unat n) xs))" by simp
  then show "\<exists>k n free t. run_moves (replicate k (Producer i xs)) s = t \<and>
      DoEnqueue ?r xs (of_nat (length xs)) = Some (n, free, ring t) \<and>
      producers t = producers s \<and> accepted t = accepted s @ take (unat n) xs"
    using solo_enqueue [OF ok idle(1) len(1) n_def refl] by (intro exI conjI) (assumption | simp)+
  define m where "m = grant ?r want (tail (prod_ht ?r) - head (cons_ht ?r))"
  have m: "unat m = admit (ring_fixed ?r) (unat want) (ring_used ?r)"
    using entries_unat [OF ok] by (simp add: m_def grant_admit)
  obtain m' avail where d: "DoDequeue ?r buf want =
      Some (m', avail, take (unat m') (ring_contents ?r) @ drop (unat m') buf, ring_pop ?r (unat m'))"
    "unat m' = admit (ring_fixed ?r) (unat want) (ring_used ?r)"
    using DoDequeue_eq [OF ok, of want buf] len(2) by auto
  with m have "m' = m" by (simp add: word_unat_eq_iff)
  with d(1) have "DoDequeue ?r buf want =
      Some (m, avail, take (unat m) (ring_contents ?r) @ drop (unat m) buf, ring_pop ?r (unat m))" by simp
  moreover have "unat m \<le> ring_used ?r" using m admit_le(2) by simp
  ultimately show "\<exists>k n avail buf' t. run_moves (replicate k (Consumer i want)) s = t \<and>
      DoDequeue ?r buf want = Some (n, avail, buf', ring t) \<and> consumers t = consumers s \<and>
      concat (map snd (returned t)) = concat (map snd (returned s)) @ take (unat n) buf'"
    using solo_dequeue [OF ok idle(2) m_def refl] by (intro exI conjI) (assumption | simp)+
qed

theorem steps_are_calls_witness:
  "\<exists>k n free t. run_moves (replicate k (Producer 0 [8, 9])) (start_sys small_ring) = t \<and>
     DoEnqueue small_ring [8, 9] 2 = Some (n, free, ring t) \<and> accepted t = take (unat n) [8, 9]"
proof -
  have ok: "ring_ok small_ring" by (simp add: small_ring_def ring_ok_def IsPowerOf2_def ring_used_def)
  have s: "ring (start_sys small_ring) = small_ring" "producers (start_sys small_ring) 0 = P_idle"
    "consumers (start_sys small_ring) 0 = C_idle" "accepted (start_sys small_ring) = []"
    by (simp_all add: start_sys_def)
  show ?thesis
    using steps_are_calls [of "start_sys small_ring" 0 "[8, 9]" "[]" 0] ok unfolding s by auto
qed

end
