(* ===== verification/Ring_Stale.thy ===== *)
theory Ring_Stale
  imports Ring_Solo
begin

text \<open>
  Why the runs of theory \<open>Ring_Conc\<close> are those in which no thread sleeps through \<open>2^32\<close> reservations: a producer
  that does succeeds in its compare-and-swap with a number of free entries read a whole turn of the
  positions before, and overruns the ring.
\<close>

section \<open>Calls made beside a sleeping producer\<close>

text \<open>
  Nobody but the sleeping producers \<open>ps\<close> is in a call; \<open>a\<close> entries have been put into the ring \<open>r\<close> and \<open>b\<close>
  taken out.
\<close>

definition quiescent :: "'a BuffRing \<Rightarrow> (nat \<Rightarrow> 'a producer) \<Rightarrow> nat \<Rightarrow> nat \<Rightarrow> 'a ring_sys \<Rightarrow> bool" where
  "quiescent r ps a b s \<longleftrightarrow> ring_ok (ring s) \<and> same_shape r (ring s) \<and> producers s = ps \<and>
     consumers s = (\<lambda>_. C_idle) \<and> tail (prod_ht (ring s)) = of_nat a \<and> ring_used (ring s) + b = a \<and>
     length (accepted s) = a \<and> published s = a \<and> released s = b"

lemma grant_one: "avail \<noteq> 0 \<Longrightarrow> grant r 1 avail = 1"
  by (auto simp: grant_def word_less_nat_alt unat_eq_0)

lemma shape_push_pop [simp]: "same_shape r (ring_push q xs) = same_shape r q" "same_shape r (ring_pop q k) = same_shape r q"
  by (simp_all add: same_shape_def ring_push_def ring_pop_def Let_def)

lemma put_one:
  assumes q: "quiescent r ps a b s" "ps i = P_idle" and room: "a < b + unat (capacity r)"
  shows "quiescent r ps (Suc a) b (run_moves (replicate 6 (Producer i [x])) s)"
proof -
  note q' = q(1) [unfolded quiescent_def]
  have cap: "capacity (ring s) = capacity r" using q' by (simp add: same_shape_def)
  have ok: "ring_ok (ring s)" using q' by simp
  have used: "ring_used (ring s) + 1 \<le> unat (capacity (ring s))" using q' room cap by simp
  then have "prod_free (ring s) (head (prod_ht (ring s))) \<noteq> 0"
    using free_entries_unat [OF ok] by (auto simp: prod_free_def)
  then have n: "1 = grant (ring s) (of_nat (length [x])) (prod_free (ring s) (head (prod_ht (ring s))))"
    using grant_one by simp
  have "run_moves (replicate 6 (Producer i [x])) s = s\<lparr>ring := ring_push (ring s) [x],
      accepted := accepted s @ [x], published := published s + 1\<rparr>"
    using solo_enqueue [OF ok _ _ n refl, of i] q' q(2) by simp
  moreover have "tail (prod_ht (ring_push (ring s) [x])) = of_nat (Suc a)"
    using q' by (simp add: ring_push_def Let_def)
  ultimately show ?thesis
    using q' ring_push_ok [OF ok, of "[x]"] ring_push_used [OF ok, of "[x]"] used
    by (simp add: quiescent_def)
qed

lemma take_one:
  assumes q: "quiescent r ps a b s" and some: "b < a"
  shows "quiescent r ps a (Suc b) (run_moves (replicate 6 (Consumer 0 1)) s)"
proof -
  note q' = q [unfolded quiescent_def]
  have ok: "ring_ok (ring s)" using q' by simp
  have used: "1 \<le> ring_used (ring s)" using q' some by simp
  then have "tail (prod_ht (ring s)) - head (cons_ht (ring s)) \<noteq> 0"
    using entries_unat [OF ok] by auto
  from grant_one [OF this] have n: "1 = grant (ring s) 1 (tail (prod_ht (ring s)) - head (cons_ht (ring s)))"
    by (rule sym)
  have "\<exists>out. run_moves (replicate 6 (Consumer 0 1)) s = s\<lparr>ring := ring_pop (ring s) 1,
      taken := taken s + 1, released := released s + 1, returned := returned s @ out\<rparr>"
    using solo_dequeue [OF ok _ n refl, of 0] q' by auto
  then show ?thesis
    using q' ring_pop_ok [OF ok used] ring_pop_used [OF ok used] used
    by (auto simp: quiescent_def)
qed

lemma pass_through:
  assumes "quiescent r ps 0 0 s" "ps i = P_idle" "0 < unat (capacity r)"
  shows "\<exists>moves. quiescent r ps k k (run_moves moves s)"
proof (induction k)
  case 0
  show ?case using assms(1) by (intro exI [of _ "[]"]) simp
next
  case (Suc k)
  then obtain moves where "quiescent r ps k k (run_moves moves s)" by blast
  from take_one [OF put_one [OF this assms(2)]] assms(3)
  show ?case by (intro exI [of _ "moves @ replicate 6 (Producer i [undefined]) @ replicate 6 (Consumer 0 1)"])
    (simp add: run_moves_append)
qed

lemma fill_up:
  assumes "quiescent r ps k k s" "ps i = P_idle" "j \<le> unat (capacity r)"
  shows "\<exists>moves. quiescent r ps (k + j) k (run_moves moves s)"
  using assms(3)
proof (induction j)
  case 0
  show ?case using assms(1) by (intro exI [of _ "[]"]) simp
next
  case (Suc j)
  then obtain moves where "quiescent r ps (k + j) k (run_moves moves s)" by auto
  from put_one [OF this assms(2)] Suc.prems
  show ?case by (intro exI [of _ "moves @ replicate 6 (Producer i [undefined])"])
    (simp add: run_moves_append)
qed

section \<open>The overrun\<close>

text \<open>
  On an empty ring a producer is granted its whole capacity and sleeps before its compare-and-swap. The others pass
  \<open>2^32\<close> entries through the ring and leave it full. Then the sleeper's compare-and-swap succeeds, twice the capacity is
  reserved, and it copies over entries that are published and not yet taken.
\<close>

theorem stale_reservation:
  fixes xs :: "'a list"
  assumes new: "new_BuffRing dflt sz behav False sc = Some r" and cap: "2 \<le> unat (RingCapacity r)"
    and xs: "length xs = unat (RingCapacity r)"
  shows "\<exists>moves. let s = run_moves moves (start_sys r) in \<exists>h g. producers s 0 = P_copy xs h g 1 \<and>
    length (accepted s) = released s + 2 * unat (RingCapacity r) \<and>
    (\<exists>q. released s \<le> q \<and> q < published s \<and> q mod unat (rsize (ring s)) = slot (ring s) h 1)"
proof -
  let ?c = "unat (capacity r)"
  have sz: "unat sz \<le> 2147483648" using new new_BuffRing_ok [of sz dflt behav False sc] by (auto split: if_splits)
  have ok: "ring_ok r" "ring_contents r = []" "capacity r = rsize r - 1"
    using new_BuffRing_ok [of sz dflt behav False sc] new sz by (auto simp: RingCapacity_def RingSize_def)
  have used: "ring_used r = 0" using ok(2) by (simp flip: length_ring_contents)
  have z: "head (prod_ht r) = 0" "tail (prod_ht r) = 0" "\<not> single_producer r"
    using new by (auto simp: new_BuffRing_def bind_eq_Some_conv)
  have c: "2 \<le> ?c" "length xs = ?c" using cap xs by (simp_all add: RingCapacity_def)
  have cs: "unat (rsize r) = Suc ?c" using ok(3) ring_okD(1) [OF ok(1)] by (simp add: unat_minus_one unat_gt_0)
  have w: "of_nat (length xs) = capacity r" using c by simp
  have free: "prod_free r 0 = capacity r"
    using free_entries_unat [OF ok(1)] used z by (simp add: prod_free_def word_unat_eq_iff)
  have g: "grant r (of_nat (length xs)) (prod_free r 0) = capacity r" unfolding w free by (simp add: grant_def)
  have ne: "capacity r \<noteq> 0" using c by auto
  define ps :: "nat \<Rightarrow> 'a producer" where "ps = (\<lambda>_. P_idle)(0 := P_cas xs 0 0 (capacity r))"
  let ?s0 = "run_moves (replicate 3 (Producer 0 xs)) (start_sys r)"
  have "?s0 = (start_sys r)\<lparr>producers := ps\<rparr>"
    using z g ne by (simp add: numeral_eq_Suc producer_next.simps start_sys_def ps_def Let_def)
  then have "quiescent r ps 0 0 ?s0" using ok(1) used z by (simp add: quiescent_def start_sys_def)
  moreover have p1: "ps 1 = P_idle" by (simp add: ps_def)
  ultimately obtain ms where "quiescent r ps (4294967296 - ?c) (4294967296 - ?c) (run_moves ms ?s0)"
    using pass_through [of r ps ?s0 1] c by fastforce
  from fill_up [OF this p1 order_refl] obtain ms' where
    "quiescent r ps (4294967296 - ?c + ?c) (4294967296 - ?c) (run_moves ms' (run_moves ms ?s0))" by blast
  moreover have lt: "?c < 4294967296" using unsigned_less [of "capacity r", where ?'a = nat] by simp
  moreover define s where "s = run_moves ms' (run_moves ms ?s0)"
  ultimately have q: "quiescent r ps 4294967296 (4294967296 - ?c) s" by simp
  note q' = q [unfolded quiescent_def]
  have head: "head (prod_ht (ring s)) = 0" using q' by (simp add: ring_ok_def)
  have np: "\<not> single_producer (ring s)" and rs: "rsize (ring s) = rsize r" "static_ok (ring s)"
    using q' z ring_ok_static [of "ring s"] by (simp_all add: same_shape_def)
  have p0: "producers s 0 = P_cas xs 0 0 (capacity r)" using q' by (simp add: ps_def)
  define t where "t = run_moves [Producer 0 xs, Producer 0 xs] s"
  have t: "producers t 0 = P_copy xs 0 4294967296 1" "length (accepted t) = 4294967296 + ?c"
    "released t = 4294967296 - ?c" "published t = 4294967296" "rsize (ring t) = rsize r" "static_ok (ring t)"
    using p0 head np c q' rs static_ok_shape [OF rs(2)]
    by (simp_all add: t_def producer_next.simps same_shape_def)
  have "slot (ring t) 0 1 = 1 mod Suc ?c" using slot_eq [OF t(6), of 0 1] t(5) cs by simp
  moreover have "Suc ?c dvd 4294967296" using ring_okD(4) [OF ok(1)] cs by simp
  then have "(4294967296 - ?c) mod Suc ?c = 1 mod Suc ?c"
  proof -
    obtain m where m: "4294967296 = Suc ?c * m" using \<open>Suc ?c dvd 4294967296\<close> by blast
    then obtain m' where "m = Suc m'" by (cases m) simp_all
    then have "4294967296 - ?c = 1 + Suc ?c * m'" using m by simp
    then show ?thesis by (simp only: mod_mult_self2)
  qed
  ultimately have "\<exists>q. released t \<le> q \<and> q < published t \<and> q mod unat (rsize (ring t)) = slot (ring t) 0 1"
    using t cs c lt by (intro exI [of _ "4294967296 - ?c"]) simp
  moreover have "length (accepted t) = released t + 2 * ?c" using t lt by simp
  moreover have "t = run_moves (replicate 3 (Producer 0 xs) @ ms @ ms' @ [Producer 0 xs, Producer 0 xs]) (start_sys r)"
    by (simp add: t_def s_def run_moves_append)
  ultimately show ?thesis
    using t(1) unfolding RingCapacity_def Let_def by blast
qed

end
