(* ===== verification/Ring_C.thy ===== *)
theory Ring_C
  imports Buff_Ring
begin

text \<open>
  The C ring of \<^verbatim>\<open>buffer_ring_c.h\<close>, from which the class template was made: the structure with
  the pointers stored behind it, the reservation functions with the mode and the thread model as
  arguments, and the whole family of enqueue and dequeue functions with their error codes. The
  names of the source with leading underscores lose them.

  The enqueue and dequeue functions, as one thread runs them undisturbed, are shown to compute what those of the
  class template compute on the corresponding object, on any structure, well-formed or not; the queue interface is interpreted a second time on the
  functions of this file.
\<close>

section \<open>Structure\<close>

datatype ring_queue_behavior = RING_QUEUE_FIXED | RING_QUEUE_VARIABLE

record ring_headtail =
  ht_head :: u32
  ht_tail :: u32
  ht_single :: u32

record 'a buffer_ring =
  br_name :: string
  br_flags :: int
  br_size :: u32
  br_mask :: u32
  br_capacity :: u32
  br_prod :: ring_headtail
  br_cons :: ring_headtail
  br_objs :: "'a list"

definition IS_SP :: bool where "IS_SP = True"
definition IS_MP :: bool where "IS_MP = False"
definition IS_SC :: bool where "IS_SC = True"
definition IS_MC :: bool where "IS_MC = False"

text \<open>The error codes of \<^verbatim>\<open>errno.h\<close> on Linux.\<close>

definition ENOENT :: int where "ENOENT = 2"
definition ENOBUFS :: int where "ENOBUFS = 105"

section \<open>Operations\<close>

definition ENQUEUE_PTRS_C :: "'a buffer_ring \<Rightarrow> u32 \<Rightarrow> 'a list \<Rightarrow> u32 \<Rightarrow> 'a list option" where
  "ENQUEUE_PTRS_C r prod_head obj_table n =
     ptrs_copy (\<lambda>i idx ring. copy_elem ring idx obj_table i)
       (br_size r) (prod_head AND br_mask r) n (br_objs r)"

definition DEQUEUE_PTRS_C :: "'a buffer_ring \<Rightarrow> u32 \<Rightarrow> 'a list \<Rightarrow> u32 \<Rightarrow> 'a list option" where
  "DEQUEUE_PTRS_C r cons_head obj_table n =
     ptrs_copy (\<lambda>i idx obj_table. copy_elem obj_table i (br_objs r) idx)
       (br_size r) (cons_head AND br_mask r) n obj_table"

partial_function (option) spin_tail :: "ring_headtail \<Rightarrow> u32 \<Rightarrow> ring_headtail option" where
  "spin_tail ht old_val = (if ht_tail ht \<noteq> old_val then spin_tail ht old_val else Some ht)"

definition update_tail :: "ring_headtail \<Rightarrow> u32 \<Rightarrow> u32 \<Rightarrow> bool \<Rightarrow> ring_headtail option" where
  "update_tail ht old_val new_val single = do {
     ht \<leftarrow> (if \<not> single then spin_tail ht old_val else Some ht);
     Some (ht\<lparr>ht_tail := new_val\<rparr>) }"

partial_function (option) ring_move_prod_head ::
  "'a buffer_ring \<Rightarrow> bool \<Rightarrow> u32 \<Rightarrow> ring_queue_behavior \<Rightarrow>
   (u32 \<times> u32 \<times> u32 option \<times> u32 \<times> 'a buffer_ring) option" where
  "ring_move_prod_head r is_sp max_n behav =
     (let old_head = ht_head (br_prod r);
          cons_tail = ht_tail (br_cons r);
          free_entries = br_capacity r + cons_tail - old_head;
          n = (if max_n > free_entries
               then (if behav = RING_QUEUE_FIXED then 0 else free_entries) else max_n)
      in if n = 0 then Some (0, old_head, None, free_entries, r)
         else let new_head = old_head + n in
           if is_sp
           then Some (n, old_head, Some new_head, free_entries,
             r\<lparr>br_prod := (br_prod r)\<lparr>ht_head := new_head\<rparr>\<rparr>)
           else (case AtomicCAS (ht_head (br_prod r)) old_head new_head of (h, success) \<Rightarrow>
             if success
             then Some (n, old_head, Some new_head, free_entries,
               r\<lparr>br_prod := (br_prod r)\<lparr>ht_head := h\<rparr>\<rparr>)
             else ring_move_prod_head (r\<lparr>br_prod := (br_prod r)\<lparr>ht_head := h\<rparr>\<rparr>) is_sp max_n behav))"

definition ring_do_enqueue ::
  "'a buffer_ring \<Rightarrow> 'a list \<Rightarrow> u32 \<Rightarrow> ring_queue_behavior \<Rightarrow> bool \<Rightarrow>
   (u32 \<times> u32 \<times> 'a buffer_ring) option" where
  "ring_do_enqueue r obj_table n behav is_sp = do {
     (n, prod_head, prod_next, free_entries, r) \<leftarrow> ring_move_prod_head r is_sp n behav;
     if n = 0 then Some (n, free_entries - n, r)
     else do {
       objs \<leftarrow> ENQUEUE_PTRS_C r prod_head obj_table n;
       prod_next \<leftarrow> prod_next;
       ht \<leftarrow> update_tail (br_prod r) prod_head prod_next is_sp;
       Some (n, free_entries - n, r\<lparr>br_objs := objs, br_prod := ht\<rparr>) } }"

partial_function (option) ring_move_cons_head ::
  "'a buffer_ring \<Rightarrow> bool \<Rightarrow> u32 \<Rightarrow> ring_queue_behavior \<Rightarrow>
   (u32 \<times> u32 \<times> u32 option \<times> u32 \<times> 'a buffer_ring) option" where
  "ring_move_cons_head r is_sc max_n behav =
     (let old_head = ht_head (br_cons r);
          prod_tail = ht_tail (br_prod r);
          entries = prod_tail - old_head;
          n = (if max_n > entries
               then (if behav = RING_QUEUE_FIXED then 0 else entries) else max_n)
      in if n = 0 then Some (0, old_head, None, entries, r)
         else let new_head = old_head + n in
           if is_sc
           then Some (n, old_head, Some new_head, entries,
             r\<lparr>br_cons := (br_cons r)\<lparr>ht_head := new_head\<rparr>\<rparr>)
           else (case AtomicCAS (ht_head (br_cons r)) old_head new_head of (h, success) \<Rightarrow>
             if success
             then Some (n, old_head, Some new_head, entries,
               r\<lparr>br_cons := (br_cons r)\<lparr>ht_head := h\<rparr>\<rparr>)
             else ring_move_cons_head (r\<lparr>br_cons := (br_cons r)\<lparr>ht_head := h\<rparr>\<rparr>) is_sc max_n behav))"

definition ring_do_dequeue ::
  "'a buffer_ring \<Rightarrow> 'a list \<Rightarrow> u32 \<Rightarrow> ring_queue_behavior \<Rightarrow> bool \<Rightarrow>
   (u32 \<times> u32 \<times> 'a list \<times> 'a buffer_ring) option" where
  "ring_do_dequeue r obj_table n behav is_sc = do {
     (n, cons_head, cons_next, entries, r) \<leftarrow> ring_move_cons_head r is_sc n behav;
     if n = 0 then Some (n, entries - n, obj_table, r)
     else do {
       obj_table \<leftarrow> DEQUEUE_PTRS_C r cons_head obj_table n;
       cons_next \<leftarrow> cons_next;
       ht \<leftarrow> update_tail (br_cons r) cons_head cons_next is_sc;
       Some (n, entries - n, obj_table, r\<lparr>br_cons := ht\<rparr>) } }"

definition ring_mp_enqueue_bulk where
  "ring_mp_enqueue_bulk r obj_table n = ring_do_enqueue r obj_table n RING_QUEUE_FIXED IS_MP"

definition ring_sp_enqueue_bulk where
  "ring_sp_enqueue_bulk r obj_table n = ring_do_enqueue r obj_table n RING_QUEUE_FIXED IS_SP"

definition ring_enqueue_bulk where
  "ring_enqueue_bulk r obj_table n =
     ring_do_enqueue r obj_table n RING_QUEUE_FIXED (ht_single (br_prod r) \<noteq> 0)"

text \<open>The functions on one entry: the return code and the ring.\<close>

definition enqueue_code :: "(u32 \<times> u32 \<times> 'a buffer_ring) option \<Rightarrow> (int \<times> 'a buffer_ring) option" where
  "enqueue_code res = do { (n, free_space, r) \<leftarrow> res; Some (if n \<noteq> 0 then 0 else - ENOBUFS, r) }"

definition ring_mp_enqueue where
  "ring_mp_enqueue r obj = enqueue_code (ring_mp_enqueue_bulk r [obj] 1)"

definition ring_sp_enqueue where
  "ring_sp_enqueue r obj = enqueue_code (ring_sp_enqueue_bulk r [obj] 1)"

definition ring_enqueue where
  "ring_enqueue r obj = enqueue_code (ring_enqueue_bulk r [obj] 1)"

definition ring_mc_dequeue_bulk where
  "ring_mc_dequeue_bulk r obj_table n = ring_do_dequeue r obj_table n RING_QUEUE_FIXED IS_MC"

definition ring_sc_dequeue_bulk where
  "ring_sc_dequeue_bulk r obj_table n = ring_do_dequeue r obj_table n RING_QUEUE_FIXED IS_SC"

definition ring_dequeue_bulk where
  "ring_dequeue_bulk r obj_table n =
     ring_do_dequeue r obj_table n RING_QUEUE_FIXED (ht_single (br_cons r) \<noteq> 0)"

text \<open>The return code, the cell \<open>*obj_p\<close> and the ring.\<close>

definition dequeue_code ::
  "(u32 \<times> u32 \<times> 'a list \<times> 'a buffer_ring) option \<Rightarrow> (int \<times> 'a list \<times> 'a buffer_ring) option" where
  "dequeue_code res = do {
     (n, available, obj_p, r) \<leftarrow> res;
     Some (if n \<noteq> 0 then 0 else - ENOENT, obj_p, r) }"

definition ring_mc_dequeue where
  "ring_mc_dequeue r obj_p = dequeue_code (ring_mc_dequeue_bulk r [obj_p] 1)"

definition ring_sc_dequeue where
  "ring_sc_dequeue r obj_p = dequeue_code (ring_sc_dequeue_bulk r [obj_p] 1)"

definition ring_dequeue where
  "ring_dequeue r obj_p = dequeue_code (ring_dequeue_bulk r [obj_p] 1)"

definition ring_count_c :: "'a buffer_ring \<Rightarrow> u32" where
  "ring_count_c r =
     (let count = (ht_tail (br_prod r) - ht_tail (br_cons r)) AND br_mask r
      in if count > br_capacity r then br_capacity r else count)"

definition ring_free_count_c :: "'a buffer_ring \<Rightarrow> u32" where
  "ring_free_count_c r = br_capacity r - ring_count_c r"

definition ring_full :: "'a buffer_ring \<Rightarrow> bool" where
  "ring_full r \<longleftrightarrow> ring_free_count_c r = 0"

definition ring_empty :: "'a buffer_ring \<Rightarrow> bool" where
  "ring_empty r \<longleftrightarrow> ring_count_c r = 0"

definition ring_get_size :: "'a buffer_ring \<Rightarrow> u32" where
  "ring_get_size r = br_size r"

definition ring_get_capacity :: "'a buffer_ring \<Rightarrow> u32" where
  "ring_get_capacity r = br_capacity r"

section \<open>The C ring and the class template\<close>

fun to_behavior :: "ring_queue_behavior \<Rightarrow> int" where
  "to_behavior RING_QUEUE_FIXED = kRingQueueFixed"
| "to_behavior RING_QUEUE_VARIABLE = kRingQueueVariable"

definition to_BuffRing :: "ring_queue_behavior \<Rightarrow> bool \<Rightarrow> bool \<Rightarrow> 'a buffer_ring \<Rightarrow> 'a BuffRing" where
  "to_BuffRing behav is_sp is_sc r =
     \<lparr>rsize = br_size r, rmask = br_mask r, capacity = br_capacity r, behavior = to_behavior behav,
      single_producer = is_sp, single_consumer = is_sc,
      prod_ht = \<lparr>head = ht_head (br_prod r), tail = ht_tail (br_prod r)\<rparr>,
      cons_ht = \<lparr>head = ht_head (br_cons r), tail = ht_tail (br_cons r)\<rparr>, rdata = br_objs r\<rparr>"

definition from_BuffRing :: "'a buffer_ring \<Rightarrow> 'a BuffRing \<Rightarrow> 'a buffer_ring" where
  "from_BuffRing r b = r\<lparr>
     br_prod := (br_prod r)\<lparr>ht_head := head (prod_ht b), ht_tail := tail (prod_ht b)\<rparr>,
     br_cons := (br_cons r)\<lparr>ht_head := head (cons_ht b), ht_tail := tail (cons_ht b)\<rparr>,
     br_objs := rdata b\<rparr>"

lemma from_to [simp]: "from_BuffRing r (to_BuffRing b sp sc r) = r"
  by (simp add: from_BuffRing_def to_BuffRing_def)

lemma to_from: "to_BuffRing b sp sc (from_BuffRing r R) =
    R\<lparr>rsize := br_size r, rmask := br_mask r, capacity := br_capacity r,
      behavior := to_behavior b, single_producer := sp, single_consumer := sc\<rparr>"
  by (simp add: from_BuffRing_def to_BuffRing_def)

lemma to_behavior_fixed [simp]: "to_behavior b = kRingQueueFixed \<longleftrightarrow> b = RING_QUEUE_FIXED"
  by (cases b) auto

lemma to_BuffRing_sel [simp]:
  "rsize (to_BuffRing b sp sc r) = br_size r" "rmask (to_BuffRing b sp sc r) = br_mask r"
  "capacity (to_BuffRing b sp sc r) = br_capacity r"
  "behavior (to_BuffRing b sp sc r) = to_behavior b"
  "single_producer (to_BuffRing b sp sc r) = sp" "single_consumer (to_BuffRing b sp sc r) = sc"
  "head (prod_ht (to_BuffRing b sp sc r)) = ht_head (br_prod r)"
  "tail (prod_ht (to_BuffRing b sp sc r)) = ht_tail (br_prod r)"
  "head (cons_ht (to_BuffRing b sp sc r)) = ht_head (br_cons r)"
  "tail (cons_ht (to_BuffRing b sp sc r)) = ht_tail (br_cons r)"
  "rdata (to_BuffRing b sp sc r) = br_objs r"
  by (simp_all add: to_BuffRing_def)

text \<open>The waits return exactly when there is nothing to wait for.\<close>

lemma spin_tail_eq: "spin_tail ht old_val = (if ht_tail ht = old_val then Some ht else None)"
proof (cases "ht_tail ht = old_val")
  case False
  have "ht_tail ht = old_val" if "spin_tail ht old_val = Some ht'" for ht'
  proof (rule spin_tail.raw_induct [where P = "\<lambda>ht old_val r. ht_tail ht = old_val", OF _ that])
    fix f :: "ring_headtail \<Rightarrow> u32 \<Rightarrow> ring_headtail option" and ht old_val r
    assume "\<And>ht old_val r. f ht old_val = Some r \<Longrightarrow> ht_tail ht = old_val"
      and "(if ht_tail ht \<noteq> old_val then f ht old_val else Some ht) = Some r"
    then show "ht_tail ht = old_val" by (metis (full_types))
  qed
  then show ?thesis using False by (cases "spin_tail ht old_val") auto
qed (simp add: spin_tail.simps)

lemma ring_move_prod_head_eq:
  "ring_move_prod_head r is_sp max_n behav =
     (let free_entries = br_capacity r + ht_tail (br_cons r) - ht_head (br_prod r);
          n = (if max_n > free_entries then (if behav = RING_QUEUE_FIXED then 0 else free_entries) else max_n)
      in if n = 0 then Some (0, ht_head (br_prod r), None, free_entries, r)
         else Some (n, ht_head (br_prod r), Some (ht_head (br_prod r) + n), free_entries,
           r\<lparr>br_prod := (br_prod r)\<lparr>ht_head := ht_head (br_prod r) + n\<rparr>\<rparr>))"
  by (subst ring_move_prod_head.simps) (simp add: Let_def AtomicCAS_def)

lemma ring_move_cons_head_eq:
  "ring_move_cons_head r is_sc max_n behav =
     (let entries = ht_tail (br_prod r) - ht_head (br_cons r);
          n = (if max_n > entries then (if behav = RING_QUEUE_FIXED then 0 else entries) else max_n)
      in if n = 0 then Some (0, ht_head (br_cons r), None, entries, r)
         else Some (n, ht_head (br_cons r), Some (ht_head (br_cons r) + n), entries,
           r\<lparr>br_cons := (br_cons r)\<lparr>ht_head := ht_head (br_cons r) + n\<rparr>\<rparr>))"
  by (subst ring_move_cons_head.simps) (simp add: Let_def AtomicCAS_def)

lemma ring_do_enqueue_sim:
  "ring_do_enqueue r obj n behav is_sp =
   do { (k, free, R) \<leftarrow> DoEnqueue (to_BuffRing behav is_sp is_sc r) obj n;
        Some (k, free, from_BuffRing r R) }"
proof -
  let ?fe = "br_capacity r + ht_tail (br_cons r) - ht_head (br_prod r)"
  define k where "k = (if n > ?fe then (if behav = RING_QUEUE_FIXED then 0 else ?fe) else n)"
  define c where "c = ENQUEUE_PTRS (br_size r) (br_mask r) (br_objs r) (ht_head (br_prod r)) obj k"
  have mv: "ring_move_prod_head r is_sp n behav =
      (if k = 0 then Some (0, ht_head (br_prod r), None, ?fe, r)
       else Some (k, ht_head (br_prod r), Some (ht_head (br_prod r) + k), ?fe,
         r\<lparr>br_prod := (br_prod r)\<lparr>ht_head := ht_head (br_prod r) + k\<rparr>\<rparr>))"
    unfolding ring_move_prod_head_eq k_def Let_def by (rule refl)
  have mv': "MoveProdHead n (to_BuffRing behav is_sp is_sc r) =
      (if k = 0 then Some (0, ht_head (br_prod r), None, ?fe, to_BuffRing behav is_sp is_sc r)
       else Some (k, ht_head (br_prod r), Some (ht_head (br_prod r) + k), ?fe,
         (to_BuffRing behav is_sp is_sc r)\<lparr>prod_ht :=
           (prod_ht (to_BuffRing behav is_sp is_sc r))\<lparr>head := ht_head (br_prod r) + k\<rparr>\<rparr>))"
    unfolding MoveProdHead_eq k_def Let_def by (simp add: ring_fixed_def)
  have c': "ENQUEUE_PTRS_C (r\<lparr>br_prod := p\<rparr>) (ht_head (br_prod r)) obj k = c" for p
    by (simp add: ENQUEUE_PTRS_C_def ENQUEUE_PTRS_def c_def)
  show ?thesis
    unfolding ring_do_enqueue_def DoEnqueue_def mv mv'
    by (cases "k = 0"; cases c)
      (simp_all add: c' c_def [symmetric] update_tail_def UpdateTail_def spin_tail_eq wait_tail_eq
        from_BuffRing_def)
qed

lemma ring_do_dequeue_sim:
  "ring_do_dequeue r obj n behav is_sc =
   do { (k, avail, obj, R) \<leftarrow> DoDequeue (to_BuffRing behav is_sp is_sc r) obj n;
        Some (k, avail, obj, from_BuffRing r R) }"
proof -
  let ?en = "ht_tail (br_prod r) - ht_head (br_cons r)"
  define k where "k = (if n > ?en then (if behav = RING_QUEUE_FIXED then 0 else ?en) else n)"
  define c where "c = DEQUEUE_PTRS (br_size r) (br_mask r) (br_objs r) (ht_head (br_cons r)) obj k"
  have mv: "ring_move_cons_head r is_sc n behav =
      (if k = 0 then Some (0, ht_head (br_cons r), None, ?en, r)
       else Some (k, ht_head (br_cons r), Some (ht_head (br_cons r) + k), ?en,
         r\<lparr>br_cons := (br_cons r)\<lparr>ht_head := ht_head (br_cons r) + k\<rparr>\<rparr>))"
    unfolding ring_move_cons_head_eq k_def Let_def by (rule refl)
  have mv': "MoveConsumerHead n (to_BuffRing behav is_sp is_sc r) =
      (if k = 0 then Some (0, ht_head (br_cons r), None, ?en, to_BuffRing behav is_sp is_sc r)
       else Some (k, ht_head (br_cons r), Some (ht_head (br_cons r) + k), ?en,
         (to_BuffRing behav is_sp is_sc r)\<lparr>cons_ht :=
           (cons_ht (to_BuffRing behav is_sp is_sc r))\<lparr>head := ht_head (br_cons r) + k\<rparr>\<rparr>))"
    unfolding MoveConsumerHead_eq k_def Let_def by (simp add: ring_fixed_def)
  have c': "DEQUEUE_PTRS_C (r\<lparr>br_cons := p\<rparr>) (ht_head (br_cons r)) obj k = c" for p
    by (simp add: DEQUEUE_PTRS_C_def DEQUEUE_PTRS_def c_def)
  show ?thesis
    unfolding ring_do_dequeue_def DoDequeue_def mv mv'
    by (cases "k = 0"; cases c)
      (simp_all add: c' c_def [symmetric] update_tail_def UpdateTail_def spin_tail_eq wait_tail_eq
        from_BuffRing_def)
qed

section \<open>Invariant and contents\<close>

definition cring_view :: "'a buffer_ring \<Rightarrow> 'a BuffRing" where
  "cring_view = to_BuffRing RING_QUEUE_FIXED True True"

definition cring_ok :: "'a buffer_ring \<Rightarrow> bool" where
  "cring_ok r \<longleftrightarrow> ring_ok (cring_view r)"

definition cring_contents :: "'a buffer_ring \<Rightarrow> 'a list" where
  "cring_contents r = ring_contents (cring_view r)"

definition cring_cap :: "'a buffer_ring \<Rightarrow> nat" where
  "cring_cap r = unat (br_capacity r)"

lemma view_any_mode:
  "ring_ok (to_BuffRing b sp sc r) = cring_ok r"
  "ring_contents (to_BuffRing b sp sc r) = cring_contents r"
  "ring_used (to_BuffRing b sp sc r) = length (cring_contents r)"
  by (simp_all add: cring_ok_def cring_contents_def cring_view_def ring_ok_def ring_contents_def
      ring_used_def)

lemma to_from_same:
  assumes "rsize R = br_size r" "rmask R = br_mask r" "capacity R = br_capacity r"
  shows "cring_ok (from_BuffRing r R) = ring_ok R"
    "cring_contents (from_BuffRing r R) = ring_contents R"
    "cring_cap (from_BuffRing r R) = unat (capacity R)"
  using assms
  by (simp_all add: cring_ok_def cring_contents_def cring_view_def to_from ring_ok_def
      ring_contents_def ring_used_def cring_cap_def from_BuffRing_def)

text \<open>
  The state after an accepted enqueue, and after a dequeue.
\<close>

definition cring_push :: "'a buffer_ring \<Rightarrow> 'a list \<Rightarrow> 'a buffer_ring" where
  "cring_push r xs = from_BuffRing r (ring_push (cring_view r) xs)"

definition cring_pop :: "'a buffer_ring \<Rightarrow> nat \<Rightarrow> 'a buffer_ring" where
  "cring_pop r k = from_BuffRing r (ring_pop (cring_view r) k)"

lemma push_any_mode:
  "from_BuffRing r (ring_push (to_BuffRing b sp sc r) xs) = cring_push r xs"
  "from_BuffRing r (ring_pop (to_BuffRing b sp sc r) k) = cring_pop r k"
  by (simp_all add: cring_push_def cring_pop_def cring_view_def from_BuffRing_def ring_push_def
      ring_pop_def Let_def)

lemma cring_push_nil: "cring_ok r \<Longrightarrow> cring_push r [] = r"
  by (cases r; cases "br_prod r")
    (simp add: cring_push_def cring_view_def from_BuffRing_def ring_push_def Let_def to_BuffRing_def
      cring_ok_def ring_ok_def)

lemma cring_pop_0: "cring_ok r \<Longrightarrow> cring_pop r 0 = r"
  by (cases r; cases "br_cons r")
    (simp add: cring_pop_def cring_view_def from_BuffRing_def ring_pop_def Let_def to_BuffRing_def
      cring_ok_def ring_ok_def)

lemma cring_push_laws:
  assumes "cring_ok r" "length (cring_contents r) + length xs \<le> cring_cap r"
  shows "cring_ok (cring_push r xs)" "cring_contents (cring_push r xs) = cring_contents r @ xs"
    "cring_cap (cring_push r xs) = cring_cap r"
proof -
  have ok: "ring_ok (cring_view r)" using assms(1) by (simp add: cring_ok_def)
  have u: "ring_used (cring_view r) + length xs \<le> unat (capacity (cring_view r))"
    using assms(2) by (simp add: cring_contents_def cring_cap_def cring_view_def)
  have v: "rsize (ring_push (cring_view r) xs) = br_size r" "rmask (ring_push (cring_view r) xs) = br_mask r"
    "capacity (ring_push (cring_view r) xs) = br_capacity r"
    by (simp_all add: cring_view_def)
  show "cring_ok (cring_push r xs)"
    using ring_push_ok [OF ok u] unfolding cring_push_def to_from_same [OF v] .
  show "cring_contents (cring_push r xs) = cring_contents r @ xs"
    using ring_push_contents [OF ok u] unfolding cring_push_def to_from_same [OF v]
    by (simp add: cring_contents_def)
  show "cring_cap (cring_push r xs) = cring_cap r"
    unfolding cring_push_def to_from_same [OF v] v by (simp add: cring_cap_def)
qed

lemma cring_pop_laws:
  assumes "cring_ok r" "k \<le> length (cring_contents r)"
  shows "cring_ok (cring_pop r k)" "cring_contents (cring_pop r k) = drop k (cring_contents r)"
    "cring_cap (cring_pop r k) = cring_cap r"
proof -
  have ok: "ring_ok (cring_view r)" using assms(1) by (simp add: cring_ok_def)
  have u: "k \<le> ring_used (cring_view r)" using assms(2) by (simp add: cring_contents_def)
  have v: "rsize (ring_pop (cring_view r) k) = br_size r" "rmask (ring_pop (cring_view r) k) = br_mask r"
    "capacity (ring_pop (cring_view r) k) = br_capacity r"
    by (simp_all add: cring_view_def)
  show "cring_ok (cring_pop r k)"
    using ring_pop_ok [OF ok u] unfolding cring_pop_def to_from_same [OF v] .
  show "cring_contents (cring_pop r k) = drop k (cring_contents r)"
    using ring_pop_contents [OF ok u] unfolding cring_pop_def to_from_same [OF v]
    by (simp add: cring_contents_def)
  show "cring_cap (cring_pop r k) = cring_cap r"
    unfolding cring_pop_def to_from_same [OF v] v by (simp add: cring_cap_def)
qed

lemma ring_do_enqueue_eq:
  assumes "cring_ok r" "unat n \<le> length obj"
  shows "\<exists>k free. ring_do_enqueue r obj n behav is_sp = Some (k, free, cring_push r (take (unat k) obj)) \<and>
    unat k = admit (behav = RING_QUEUE_FIXED) (unat n) (cring_cap r - length (cring_contents r)) \<and>
    unat free = cring_cap r - length (cring_contents r) - unat k"
proof -
  have "ring_ok (to_BuffRing behav is_sp True r)" using assms(1) by (simp add: view_any_mode)
  from DoEnqueue_eq [OF this assms(2)] show ?thesis
    by (auto simp: ring_do_enqueue_sim [where is_sc = True] push_any_mode view_any_mode
        ring_fixed_def cring_cap_def)
qed

lemma ring_do_dequeue_eq:
  assumes "cring_ok r" "unat n \<le> length obj"
  shows "\<exists>k avail. ring_do_dequeue r obj n behav is_sc =
      Some (k, avail, take (unat k) (cring_contents r) @ drop (unat k) obj, cring_pop r (unat k)) \<and>
    unat k = admit (behav = RING_QUEUE_FIXED) (unat n) (length (cring_contents r)) \<and>
    unat avail = length (cring_contents r) - unat k"
proof -
  have "ring_ok (to_BuffRing behav True is_sc r)" using assms(1) by (simp add: view_any_mode)
  from DoDequeue_eq [OF this assms(2)] show ?thesis
    by (auto simp: ring_do_dequeue_sim [where is_sp = True] push_any_mode view_any_mode
        ring_fixed_def)
qed

lemma cring_counts:
  assumes "cring_ok r"
  shows "unat (ring_count_c r) = length (cring_contents r)"
    "unat (ring_free_count_c r) = cring_cap r - length (cring_contents r)"
    "length (cring_contents r) \<le> cring_cap r"
proof -
  have ok: "ring_ok (cring_view r)" using assms by (simp add: cring_ok_def)
  have "ring_count_c r = RingCount (cring_view r)" "ring_free_count_c r = RingFreeCount (cring_view r)"
    by (simp_all add: ring_count_c_def RingCount_def ring_free_count_c_def RingFreeCount_def
        cring_view_def Let_def)
  then show "unat (ring_count_c r) = length (cring_contents r)"
    "unat (ring_free_count_c r) = cring_cap r - length (cring_contents r)"
    using RingCount_unat [OF ok] RingFreeCount_unat [OF ok]
    by (simp_all add: cring_contents_def cring_cap_def cring_view_def)
  show "length (cring_contents r) \<le> cring_cap r"
    using ok by (simp add: ring_ok_def cring_contents_def cring_cap_def cring_view_def)
qed

section \<open>The C functions as a bounded queue\<close>

definition cring_enq :: "'a buffer_ring \<Rightarrow> 'a list \<Rightarrow> (nat \<times> 'a buffer_ring) option" where
  "cring_enq r xs = do { (k, free, r) \<leftarrow> ring_enqueue_bulk r xs (of_nat (length xs)); Some (unat k, r) }"

definition cring_deq :: "'a buffer_ring \<Rightarrow> 'a list \<Rightarrow> (nat \<times> 'a list \<times> 'a buffer_ring) option" where
  "cring_deq r buf = do {
     (k, available, buf, r) \<leftarrow> ring_dequeue_bulk r buf (of_nat (length buf));
     Some (unat k, buf, r) }"

lemma cring_enq_push:
  assumes "cring_ok r" "length xs < 4294967296"
  shows "cring_enq r xs =
    (let k = admit True (length xs) (cring_cap r - length (cring_contents r))
     in Some (k, cring_push r (take k xs)))"
  using ring_do_enqueue_eq [OF assms(1), of "of_nat (length xs)" xs RING_QUEUE_FIXED
      "ht_single (br_prod r) \<noteq> 0"] assms(2)
  by (auto simp: cring_enq_def ring_enqueue_bulk_def unat_of_nat32 Let_def)

lemma cring_deq_pop:
  assumes "cring_ok r" "length buf < 4294967296"
  shows "cring_deq r buf =
    (let k = admit True (length buf) (length (cring_contents r))
     in Some (k, take k (cring_contents r) @ drop k buf, cring_pop r k))"
  using ring_do_dequeue_eq [OF assms(1), of "of_nat (length buf)" buf RING_QUEUE_FIXED
      "ht_single (br_cons r) \<noteq> 0"] assms(2)
  by (auto simp: cring_deq_def ring_dequeue_bulk_def unat_of_nat32 Let_def)

lemma cring_push_admitted:
  assumes "cring_ok r"
  shows "cring_ok (cring_push r (take (admit b n (cring_cap r - length (cring_contents r))) xs))"
    "cring_contents (cring_push r (take (admit b n (cring_cap r - length (cring_contents r))) xs)) =
      cring_contents r @ take (admit b n (cring_cap r - length (cring_contents r))) xs"
    "cring_cap (cring_push r (take (admit b n (cring_cap r - length (cring_contents r))) xs)) = cring_cap r"
proof -
  have "length (cring_contents r) +
      length (take (admit b n (cring_cap r - length (cring_contents r))) xs) \<le> cring_cap r"
    using admit_le(2) [of b n "cring_cap r - length (cring_contents r)"] cring_counts(3) [OF assms]
    unfolding length_take by linarith
  from cring_push_laws [OF assms this]
  show "cring_ok (cring_push r (take (admit b n (cring_cap r - length (cring_contents r))) xs))"
    "cring_contents (cring_push r (take (admit b n (cring_cap r - length (cring_contents r))) xs)) =
      cring_contents r @ take (admit b n (cring_cap r - length (cring_contents r))) xs"
    "cring_cap (cring_push r (take (admit b n (cring_cap r - length (cring_contents r))) xs)) = cring_cap r"
    by simp_all
qed

interpretation cring: bounded_queue cring_ok cring_contents cring_cap "\<lambda>_. True" cring_enq cring_deq
  by unfold_locales
    (auto simp: cring_enq_push cring_deq_pop cring_push_admitted cring_pop_laws cring_counts
      admit_le Let_def)

interpretation cring: counted_queue cring_ok cring_contents cring_cap "\<lambda>_. True" cring_enq cring_deq
  "\<lambda>r. unat (ring_count_c r)" "\<lambda>r. unat (ring_free_count_c r)" ring_full ring_empty
proof unfold_locales
  fix q :: "'a buffer_ring"
  assume ok: "cring_ok q"
  note c = cring_counts [OF ok]
  show "unat (ring_count_c q) = length (cring_contents q)"
    "unat (ring_free_count_c q) = cring_cap q - length (cring_contents q)" using c by simp_all
  show "ring_full q \<longleftrightarrow> length (cring_contents q) = cring_cap q"
    using c by (auto simp: ring_full_def unat_eq_0 [symmetric])
  show "ring_empty q \<longleftrightarrow> cring_contents q = []"
    using c(1) by (auto simp: ring_empty_def unat_eq_0 [symmetric] length_0_conv [symmetric]
      simp del: length_0_conv)
qed

text \<open>The operations on one entry, for either thread model.\<close>

lemma enqueue_code_cases:
  assumes "cring_ok r"
  shows "if ring_full r
    then enqueue_code (ring_do_enqueue r [x] 1 RING_QUEUE_FIXED sp) = Some (- 105, r)
    else \<exists>r'. enqueue_code (ring_do_enqueue r [x] 1 RING_QUEUE_FIXED sp) = Some (0, r') \<and>
      cring_ok r' \<and> cring_contents r' = cring_contents r @ [x]"
proof -
  obtain k free where k: "ring_do_enqueue r [x] 1 RING_QUEUE_FIXED sp =
      Some (k, free, cring_push r (take (unat k) [x]))"
    "unat k = admit True 1 (cring_cap r - length (cring_contents r))"
    using ring_do_enqueue_eq [OF assms, of 1 "[x]" RING_QUEUE_FIXED sp] by auto
  have full: "ring_full r \<longleftrightarrow> length (cring_contents r) = cring_cap r"
    using cring.full_law [OF assms] .
  show ?thesis
  proof (cases "ring_full r")
    case True
    then have "unat k = 0" using k(2) full by (simp add: admit_def)
    then show ?thesis
      using True k(1) by (simp add: enqueue_code_def ENOBUFS_def unat_eq_0 cring_push_nil assms)
  next
    case False
    then have le: "length (cring_contents r) + length [x] \<le> cring_cap r"
      using full cring_counts(3) [OF assms] by simp
    then have "unat k = 1" using k(2) by (simp add: admit_def)
    then show ?thesis
      using False k(1) cring_push_laws [OF assms le] by (auto simp: enqueue_code_def)
  qed
qed

lemma dequeue_code_cases:
  assumes "cring_ok r"
  shows "if ring_empty r
    then dequeue_code (ring_do_dequeue r [x] 1 RING_QUEUE_FIXED sc) = Some (- 2, [x], r)
    else \<exists>r'. dequeue_code (ring_do_dequeue r [x] 1 RING_QUEUE_FIXED sc) =
        Some (0, [List.hd (cring_contents r)], r') \<and>
      cring_ok r' \<and> cring_contents r' = List.tl (cring_contents r)"
proof -
  obtain k avail where k: "ring_do_dequeue r [x] 1 RING_QUEUE_FIXED sc =
      Some (k, avail, take (unat k) (cring_contents r) @ drop (unat k) [x], cring_pop r (unat k))"
    "unat k = admit True 1 (length (cring_contents r))"
    using ring_do_dequeue_eq [OF assms, of 1 "[x]" RING_QUEUE_FIXED sc] by auto
  have empty: "ring_empty r \<longleftrightarrow> cring_contents r = []"
    using cring.empty_law [OF assms] .
  show ?thesis
  proof (cases "cring_contents r")
    case Nil
    then have "unat k = 0" using k(2) by (simp add: admit_def)
    then show ?thesis
      using Nil k(1) empty by (simp add: dequeue_code_def ENOENT_def unat_eq_0 cring_pop_0 assms)
  next
    case (Cons y ys)
    then have "unat k = 1" using k(2) by (simp add: admit_def)
    then show ?thesis
      using Cons k(1) empty cring_pop_laws [OF assms, of 1] by (auto simp: dequeue_code_def)
  qed
qed

section \<open>Properties\<close>

text \<open>
  C35. The two worker functions of the C ring compute what the class template computes: on any structure,
  well-formed or not, with any mode and any thread model, \<^verbatim>\<open>__ring_do_enqueue\<close> and
  \<^verbatim>\<open>__ring_do_dequeue\<close>, run by one thread undisturbed, do what \<open>DoEnqueue\<close> and
  \<open>DoDequeue\<close> do on the corresponding object, faults and endless waits included, and leave name, flags,
  size, mask and capacity alone. Undisturbed, no compare-and-swap is tried twice, and that the C ring
  declares its heads and tails \<^verbatim>\<open>volatile\<close>, which the template comments out, makes no difference.
\<close>

theorem c_ring_is_template:
  "ring_do_enqueue r obj n behav is_sp =
     do { (k, free, R) \<leftarrow> DoEnqueue (to_BuffRing behav is_sp is_sc r) obj n;
          Some (k, free, from_BuffRing r R) } \<and>
   ring_do_dequeue r obj n behav is_sc =
     do { (k, available, obj, R) \<leftarrow> DoDequeue (to_BuffRing behav is_sp is_sc r) obj n;
          Some (k, available, obj, from_BuffRing r R) }"
  using ring_do_enqueue_sim ring_do_dequeue_sim by (rule conjI)

text \<open>
  Enqueueing one entry, through any of the three entry points, returns 0 and appends the
  entry when the ring has room, and returns \<open>-ENOBUFS\<close> and changes nothing exactly when it is
  full.
\<close>

lemma ring_enqueue_codes:
  assumes "cring_ok r" "enq \<in> {ring_enqueue, ring_mp_enqueue, ring_sp_enqueue}"
  shows "if ring_full r then enq r x = Some (- 105, r)
    else \<exists>r'. enq r x = Some (0, r') \<and> cring_ok r' \<and> cring_contents r' = cring_contents r @ [x]"
  using assms(2) enqueue_code_cases [OF assms(1), of x]
  by (auto simp: ring_enqueue_def ring_mp_enqueue_def ring_sp_enqueue_def ring_enqueue_bulk_def
      ring_mp_enqueue_bulk_def ring_sp_enqueue_bulk_def)

text \<open>
  Dequeueing one entry, through any of the three entry points, returns 0 and hands over the
  oldest entry when there is one, and returns \<open>-ENOENT\<close>, leaving the caller's cell and the ring
  as they were, exactly when the ring is empty.
\<close>

lemma ring_dequeue_codes:
  assumes "cring_ok r" "deq \<in> {ring_dequeue, ring_mc_dequeue, ring_sc_dequeue}"
  shows "if ring_empty r then deq r x = Some (- 2, [x], r)
    else \<exists>r'. deq r x = Some (0, [List.hd (cring_contents r)], r') \<and> cring_ok r' \<and>
      cring_contents r' = List.tl (cring_contents r)"
  using assms(2) dequeue_code_cases [OF assms(1), of x]
  by (auto simp: ring_dequeue_def ring_mc_dequeue_def ring_sc_dequeue_def ring_dequeue_bulk_def
      ring_mc_dequeue_bulk_def ring_sc_dequeue_bulk_def)

text \<open>
  C36. Through any of the entry points for one entry: enqueueing returns 0 and appends the entry, or
  returns \<open>-ENOBUFS\<close> and changes nothing exactly when the ring is full; dequeueing returns 0 and hands
  over the oldest entry, or returns \<open>-ENOENT\<close> and leaves the caller's cell and the ring as they were
  exactly when the ring is empty.
\<close>

theorem ring_codes:
  assumes "cring_ok r" "enq \<in> {ring_enqueue, ring_mp_enqueue, ring_sp_enqueue}"
    "deq \<in> {ring_dequeue, ring_mc_dequeue, ring_sc_dequeue}"
  shows "(if ring_full r then enq r x = Some (- 105, r)
     else \<exists>r'. enq r x = Some (0, r') \<and> cring_ok r' \<and> cring_contents r' = cring_contents r @ [x]) \<and>
    (if ring_empty r then deq r x = Some (- 2, [x], r)
     else \<exists>r'. deq r x = Some (0, [List.hd (cring_contents r)], r') \<and> cring_ok r' \<and>
       cring_contents r' = List.tl (cring_contents r))"
  using ring_enqueue_codes [OF assms(1,2)] ring_dequeue_codes [OF assms(1,3)] by (rule conjI)

text \<open>
  Any sequence of bulk enqueues and dequeues on a well-formed C ring returns and is first-in
  first-out.
\<close>

theorem cring_fifo:
  assumes "cring_ok r" "\<forall>op \<in> set ops. op_size op < 4294967296"
  shows "\<exists>ins outs r'. queue_run cring_enq cring_deq ops r = Some (ins, outs, r') \<and> cring_ok r' \<and>
    cring_contents r @ ins = outs @ cring_contents r'"
  using cring.run_fifo [OF assms] by blast

section \<open>The hypotheses hold on a ring whose positions have wrapped\<close>

definition wrapped_cring :: "nat buffer_ring" where
  "wrapped_cring = \<lparr>br_name = ''log'', br_flags = 0, br_size = 4, br_mask = 3, br_capacity = 3,
     br_prod = \<lparr>ht_head = 1, ht_tail = 1, ht_single = 0\<rparr>,
     br_cons = \<lparr>ht_head = 4294967294, ht_tail = 4294967294, ht_single = 1\<rparr>,
     br_objs = [10, 11, 12, 13]\<rparr>"

lemma wrapped_cring_ok: "cring_ok wrapped_cring"
  by (simp add: cring_ok_def cring_view_def ring_ok_def wrapped_cring_def IsPowerOf2_def ring_used_def)

lemma wrapped_cring_contents: "cring_contents wrapped_cring = [12, 13, 10]"
  by (simp add: cring_contents_def cring_view_def ring_contents_def wrapped_cring_def ring_used_def
      ring_slice_def upt_rec)

lemma wrapped_cring_full: "ring_full wrapped_cring" "\<not> ring_empty wrapped_cring"
  by (simp_all add: ring_full_def ring_free_count_c_def ring_empty_def ring_count_c_def wrapped_cring_def)

lemma ring_enqueue_codes_witness:
  "ring_mp_enqueue wrapped_cring 7 = Some (- 105, wrapped_cring)"
  using ring_enqueue_codes [OF wrapped_cring_ok, of ring_mp_enqueue 7] wrapped_cring_full by simp

lemma ring_dequeue_codes_witness:
  "\<exists>r'. ring_mc_dequeue wrapped_cring 7 = Some (0, [12], r') \<and> cring_contents r' = [13, 10]"
  using ring_dequeue_codes [OF wrapped_cring_ok, of ring_mc_dequeue 7] wrapped_cring_full
  by (auto simp: wrapped_cring_contents)

theorem ring_codes_witness:
  "ring_mp_enqueue wrapped_cring 7 = Some (- 105, wrapped_cring) \<and>
   (\<exists>r'. ring_mc_dequeue wrapped_cring 7 = Some (0, [12], r') \<and> cring_contents r' = [13, 10])"
  using ring_codes [OF wrapped_cring_ok, of ring_mp_enqueue ring_mc_dequeue 7] wrapped_cring_full
  by (auto simp: wrapped_cring_contents)

theorem cring_fifo_witness:
  "\<exists>ins outs r'. queue_run cring_enq cring_deq [Enq [7, 8], Deq [0, 0], Enq [9]] wrapped_cring =
     Some (ins, outs, r') \<and> cring_ok r' \<and> [12, 13, 10] @ ins = outs @ cring_contents r'"
  using cring_fifo [OF wrapped_cring_ok, of "[Enq [7, 8], Deq [0, 0], Enq [9]]"]
  by (simp add: wrapped_cring_contents)

end
