(* ===== verification/Ring_Buffer.thy ===== *)
theory Ring_Buffer
  imports Pow2
begin

text \<open>
  The class template \<open>RingBuff<T>\<close> of \<^verbatim>\<open>ring_buffer.h\<close>: \<open>Put\<close> of one element, \<open>GetHalf\<close> of half a
  buffer, \<open>GetAll\<close>, on two 32-bit positions that only grow. The full and half-full tests compare
  positions (\<open>wd >= rd + size\<close>) instead of subtracting them, so they are right only while
  \<open>rd + size\<close> does not wrap; the properties say what holds below that bound and what the class
  does when the positions reach it.
\<close>

section \<open>State and operations\<close>

definition is_power_of_2 :: "u32 \<Rightarrow> bool" where
  "is_power_of_2 n \<longleftrightarrow> n \<noteq> 0 \<and> (n AND (n - 1)) = 0"

definition roundup_power_of_2 :: "u32 \<Rightarrow> u32 option" where
  "roundup_power_of_2 a =
     (if is_power_of_2 a then Some a
      else do { position \<leftarrow> position_loop a 0; Some (push_bit (unat position) 1) })"

record 'a RingBuff =
  wd_index :: u32
  rd_index :: u32
  rb_size :: u32
  rb_data :: "'a list"

definition new_RingBuff :: "'a \<Rightarrow> u32 \<Rightarrow> 'a RingBuff option" where
  "new_RingBuff dflt sz = do {
     sz \<leftarrow> roundup_power_of_2 sz;
     Some \<lparr>wd_index = 0, rd_index = 0, rb_size = sz, rb_data = replicate (unat sz) dflt\<rparr> }"

text \<open>
  \<open>ATOM_FINC\<close> returns the value before the increment. The calls return their \<^verbatim>\<open>int\<close>, the caller's
  buffer where they write to it, and the object.
\<close>

definition Put :: "'a RingBuff \<Rightarrow> 'a \<Rightarrow> (int \<times> 'a RingBuff) option" where
  "Put r item =
     (if wd_index r \<ge> rd_index r + rb_size r then Some (-1, r)
      else let wd_idx = wd_index r; idx = wd_idx AND (rb_size r - 1) in do {
        dat \<leftarrow> mem_set (rb_data r) (unat idx) item;
        Some (0, r\<lparr>wd_index := wd_idx + 1, rb_data := dat\<rparr>) })"

definition GetHalf :: "'a RingBuff \<Rightarrow> 'a list \<Rightarrow> (int \<times> 'a list \<times> 'a RingBuff) option" where
  "GetHalf r item =
     (let half_size = drop_bit 1 (rb_size r) in
      if wd_index r \<ge> rd_index r + half_size
      then let idx = rd_index r AND (rb_size r - 1) in do {
        item \<leftarrow> memcpy item 0 (rb_data r) (unat idx) (unat half_size);
        Some (1, item, r\<lparr>rd_index := rd_index r + half_size\<rparr>) }
      else Some (0, item, r))"

definition GetAll :: "'a RingBuff \<Rightarrow> 'a list \<Rightarrow> (int \<times> 'a list \<times> 'a RingBuff) option" where
  "GetAll r item =
     (let sz = wd_index r - rd_index r; idx = rd_index r AND (rb_size r - 1) in do {
        item \<leftarrow> memcpy item 0 (rb_data r) (unat idx) (unat (rb_size r));
        Some (sint sz, item, r\<lparr>rd_index := wd_index r\<rparr>) })"

definition Size :: "'a RingBuff \<Rightarrow> u32" where
  "Size r = rb_size r"

text \<open>A run of calls: the elements accepted, the elements delivered, and the object.\<close>

datatype 'a rb_op = OpPut 'a | OpGetHalf "'a list"

fun rb_run :: "'a rb_op list \<Rightarrow> 'a RingBuff \<Rightarrow> ('a list \<times> 'a list \<times> 'a RingBuff) option" where
  "rb_run [] r = Some ([], [], r)"
| "rb_run (OpPut x # ops) r = do {
     (ret, r) \<leftarrow> Put r x;
     (ins, outs, r) \<leftarrow> rb_run ops r;
     Some (if ret = 0 then x # ins else ins, outs, r) }"
| "rb_run (OpGetHalf buf # ops) r = do {
     (ret, buf, r') \<leftarrow> GetHalf r buf;
     (ins, outs, r') \<leftarrow> rb_run ops r';
     Some (ins, if ret = 1 then take (unat (rb_size r) div 2) buf @ outs else outs, r') }"

section \<open>Invariant and contents\<close>

definition rb_cap :: "'a RingBuff \<Rightarrow> nat" where
  "rb_cap r = unat (rb_size r)"

definition rb_used :: "'a RingBuff \<Rightarrow> nat" where
  "rb_used r = unat (wd_index r) - unat (rd_index r)"

definition rb_contents :: "'a RingBuff \<Rightarrow> 'a list" where
  "rb_contents r = ring_slice (rb_data r) (unat (rd_index r)) (rb_used r)"

definition rb_ok :: "'a RingBuff \<Rightarrow> bool" where
  "rb_ok r \<longleftrightarrow> IsPowerOf2 (rb_size r) \<and> length (rb_data r) = rb_cap r \<and>
     unat (rd_index r) \<le> unat (wd_index r) \<and> rb_used r \<le> rb_cap r \<and>
     (unat (rd_index r) mod rb_cap r = 0 \<or> unat (rd_index r) mod rb_cap r = rb_cap r div 2)"

lemma length_rb_contents [simp]: "length (rb_contents r) = rb_used r"
  by (simp add: rb_contents_def)

lemma roundup_power_of_2_eq: "roundup_power_of_2 = RoundupPowerOf2"
  by (rule ext) (simp add: roundup_power_of_2_def RoundupPowerOf2_def is_power_of_2_def IsPowerOf2_def)

lemma rb_sizeD:
  assumes "IsPowerOf2 (rb_size r)"
  shows "0 < rb_cap r" "unat (x AND (rb_size r - 1)) = unat x mod rb_cap r"
    "unat (drop_bit 1 (rb_size r)) = rb_cap r div 2" "rb_cap r = 1 \<or> rb_cap r = 2 * (rb_cap r div 2)"
proof -
  obtain k where k: "k < 32" "unat (rb_size r) = 2 ^ k"
    using assms by (auto simp: IsPowerOf2_iff)
  have sz: "rb_size r = 2 ^ k" using k unat_exp32 by (metis word_unat_eq_iff)
  show "0 < rb_cap r" using k by (simp add: rb_cap_def)
  have "rb_size r - 1 = mask k" by (simp add: sz mask_eq_decr_exp)
  then show "unat (x AND (rb_size r - 1)) = unat x mod rb_cap r"
    by (simp add: unat_and_mask rb_cap_def k(2))
  show "unat (drop_bit 1 (rb_size r)) = rb_cap r div 2"
    unfolding rb_cap_def unat_drop_bit_eq by (simp add: drop_bit_eq_div)
  show "rb_cap r = 1 \<or> rb_cap r = 2 * (rb_cap r div 2)"
    using k by (cases k) (simp_all add: rb_cap_def)
qed

lemma rb_rd_plus_half:
  assumes "IsPowerOf2 (rb_size r)" "unat (rd_index r) + rb_cap r div 2 < 4294967296"
  shows "unat (rd_index r + drop_bit 1 (rb_size r)) = unat (rd_index r) + rb_cap r div 2"
  using assms(2) unfolding rb_sizeD(3) [OF assms(1), symmetric] by (rule unat_add_no_wrap)

lemma rb_okD:
  assumes "rb_ok r"
  shows "IsPowerOf2 (rb_size r)" "length (rb_data r) = rb_cap r" "rb_used r \<le> rb_cap r"
    "unat (wd_index r) = unat (rd_index r) + rb_used r" "0 < rb_cap r"
  using assms rb_sizeD(1) [of r] by (auto simp: rb_ok_def rb_used_def)

lemma new_RingBuff_Some:
  assumes "RoundupPowerOf2 sz = Some s" "IsPowerOf2 s"
  shows "\<exists>r. new_RingBuff dflt sz = Some r \<and> rb_ok r \<and> rb_contents r = [] \<and> rb_size r = s \<and>
    wd_index r = 0 \<and> rd_index r = 0"
  using assms
  by (simp add: new_RingBuff_def roundup_power_of_2_eq rb_ok_def rb_cap_def rb_contents_def rb_used_def)

section \<open>The operations below the wrap-around\<close>

definition rb_push :: "'a RingBuff \<Rightarrow> 'a \<Rightarrow> 'a RingBuff" where
  "rb_push r x = r\<lparr>wd_index := wd_index r + 1,
     rb_data := (rb_data r)[unat (wd_index r) mod rb_cap r := x]\<rparr>"

definition rb_pop_half :: "'a RingBuff \<Rightarrow> 'a RingBuff" where
  "rb_pop_half r = r\<lparr>rd_index := rd_index r + drop_bit 1 (rb_size r)\<rparr>"

lemma Put_eq:
  assumes "rb_ok r" "unat (rd_index r) + rb_cap r < 4294967296"
  shows "Put r x = (if rb_used r = rb_cap r then Some (-1, r) else Some (0, rb_push r x))"
proof -
  note d = rb_okD [OF assms(1)]
  have "rd_index r + rb_size r \<le> wd_index r \<longleftrightarrow> rb_used r = rb_cap r"
    using assms(2) d(3,4)
    by (auto simp: word_le_nat_alt unat_add_no_wrap rb_cap_def)
  then show ?thesis
    using d by (auto simp: Put_def rb_push_def Let_def mem_set_in rb_sizeD)
qed

lemma rb_push_ok:
  assumes "rb_ok r" "unat (rd_index r) + rb_cap r < 4294967296" "rb_used r < rb_cap r"
  shows "rb_ok (rb_push r x)" "rb_contents (rb_push r x) = rb_contents r @ [x]"
    "rd_index (rb_push r x) = rd_index r" "rb_size (rb_push r x) = rb_size r"
proof -
  note d = rb_okD [OF assms(1)]
  have w: "unat (wd_index r + 1) = Suc (unat (wd_index r))"
    using d(4) assms(2,3) by (simp add: unat_add_no_wrap)
  have cap: "rb_cap (rb_push r x) = rb_cap r" by (simp add: rb_cap_def rb_push_def)
  have used: "rb_used (rb_push r x) = Suc (rb_used r)"
    using d(4) by (simp add: rb_used_def rb_push_def w)
  show "rb_ok (rb_push r x)"
    using assms(1,3) cap used by (simp add: rb_ok_def) (simp add: rb_push_def w)
  have nm: "\<not> i + rb_cap r \<le> j mod rb_cap r" for i j
    using mod_less_divisor [OF d(5), of j] by linarith
  have put: "(rb_data r)[(unat (rd_index r) + rb_used r) mod rb_cap r := x] =
      ring_put (rb_data r) ((unat (rd_index r) + rb_used r) mod length (rb_data r)) [x]"
    using d by (intro nth_equalityI) (auto simp: nth_ring_put nth_list_update ring_dist_eval nm)
  show "rb_contents (rb_push r x) = rb_contents r @ [x]"
    using ring_slice_put_append [of "rb_data r" "rb_used r" "[x]" "unat (rd_index r)"] d assms(3)
    by (simp add: rb_contents_def used) (simp add: rb_push_def put d(4))
  show "rd_index (rb_push r x) = rd_index r" "rb_size (rb_push r x) = rb_size r"
    by (simp_all add: rb_push_def)
qed

lemma half_aligned:
  assumes "rb_ok r"
  shows "unat (rd_index r) mod rb_cap r + rb_cap r div 2 \<le> rb_cap r"
    "(unat (rd_index r) + rb_cap r div 2) mod rb_cap r = 0 \<or>
     (unat (rd_index r) + rb_cap r div 2) mod rb_cap r = rb_cap r div 2"
proof -
  note d = rb_okD [OF assms]
  have al: "unat (rd_index r) mod rb_cap r = 0 \<or> unat (rd_index r) mod rb_cap r = rb_cap r div 2"
    using assms by (simp add: rb_ok_def)
  then show "unat (rd_index r) mod rb_cap r + rb_cap r div 2 \<le> rb_cap r" by auto
  have "(unat (rd_index r) + rb_cap r div 2) mod rb_cap r =
      (unat (rd_index r) mod rb_cap r + rb_cap r div 2) mod rb_cap r"
    by (simp add: mod_add_left_eq)
  with al rb_sizeD(4) [OF d(1)] d(5)
  show "(unat (rd_index r) + rb_cap r div 2) mod rb_cap r = 0 \<or>
     (unat (rd_index r) + rb_cap r div 2) mod rb_cap r = rb_cap r div 2"
    by (auto simp: mult_2 [symmetric])
qed

lemma GetHalf_eq:
  assumes "rb_ok r" "unat (rd_index r) + rb_cap r div 2 < 4294967296" "rb_cap r div 2 \<le> length item"
  shows "GetHalf r item =
    (if rb_cap r div 2 \<le> rb_used r
     then Some (1, take (rb_cap r div 2) (rb_contents r) @ drop (rb_cap r div 2) item, rb_pop_half r)
     else Some (0, item, r))"
proof -
  note d = rb_okD [OF assms(1)]
  note s = rb_sizeD [OF d(1)]
  have c: "rd_index r + drop_bit 1 (rb_size r) \<le> wd_index r \<longleftrightarrow> rb_cap r div 2 \<le> rb_used r"
    unfolding word_le_nat_alt rb_rd_plus_half [OF d(1) assms(2)] d(4) by simp
  have t: "take (rb_cap r div 2) (drop (unat (rd_index r) mod rb_cap r) (rb_data r)) =
      take (rb_cap r div 2) (rb_contents r)" if "rb_cap r div 2 \<le> rb_used r"
    using ring_slice_contiguous [of "unat (rd_index r) mod rb_cap r" "rb_cap r div 2" "rb_data r"]
      ring_slice_mod [of "rb_data r" "unat (rd_index r)" "rb_cap r div 2"]
      half_aligned(1) [OF assms(1)] that d(2)
    by (simp add: rb_contents_def take_ring_slice)
  show ?thesis
  proof (cases "rb_cap r div 2 \<le> rb_used r")
    case True
    have "memcpy item 0 (rb_data r) (unat (rd_index r) mod rb_cap r) (rb_cap r div 2) =
        Some (take (rb_cap r div 2) (rb_contents r) @ drop (rb_cap r div 2) item)"
      unfolding t [OF True, symmetric]
      using memcpy_in [of 0 "rb_cap r div 2" item "unat (rd_index r) mod rb_cap r" "rb_data r"]
        assms(3) half_aligned(1) [OF assms(1)] d(2) by simp
    with True show ?thesis
      unfolding GetHalf_def Let_def c s(2,3) rb_pop_half_def by simp
  next
    case False
    then show ?thesis unfolding GetHalf_def Let_def c by simp
  qed
qed

lemma rb_pop_half_ok:
  assumes "rb_ok r" "unat (rd_index r) + rb_cap r div 2 < 4294967296" "rb_cap r div 2 \<le> rb_used r"
  shows "rb_ok (rb_pop_half r)" "rb_contents (rb_pop_half r) = drop (rb_cap r div 2) (rb_contents r)"
    "wd_index (rb_pop_half r) = wd_index r" "rb_size (rb_pop_half r) = rb_size r"
    "unat (rd_index (rb_pop_half r)) = unat (rd_index r) + rb_cap r div 2"
proof -
  note d = rb_okD [OF assms(1)]
  note s = rb_sizeD [OF d(1)]
  have cap: "rb_cap (rb_pop_half r) = rb_cap r" by (simp add: rb_cap_def rb_pop_half_def)
  show rd: "unat (rd_index (rb_pop_half r)) = unat (rd_index r) + rb_cap r div 2"
    using rb_rd_plus_half [OF d(1) assms(2)] by (simp add: rb_pop_half_def)
  have used: "rb_used (rb_pop_half r) = rb_used r - rb_cap r div 2"
    unfolding rb_used_def rd by (simp add: rb_pop_half_def)
  show "wd_index (rb_pop_half r) = wd_index r" "rb_size (rb_pop_half r) = rb_size r"
    by (simp_all add: rb_pop_half_def)
  show "rb_ok (rb_pop_half r)"
    using assms(1,3) half_aligned(2) [OF assms(1)] d
    by (simp add: rb_ok_def cap used rd) (simp add: rb_pop_half_def)
  show "rb_contents (rb_pop_half r) = drop (rb_cap r div 2) (rb_contents r)"
    unfolding rb_contents_def used rd by (simp add: drop_ring_slice rb_pop_half_def)
qed

section \<open>Runs\<close>

lemma rb_run_append:
  "rb_run (ops @ ops') r = do {
     (ins, outs, r) \<leftarrow> rb_run ops r;
     (ins', outs', r) \<leftarrow> rb_run ops' r;
     Some (ins @ ins', outs @ outs', r) }"
proof (induction ops arbitrary: r)
  case Nil
  then show ?case by (cases "rb_run ops' r") auto
next
  case (Cons op ops)
  show ?case
  proof (cases op)
    case (OpPut x)
    then show ?thesis
      by (cases "Put r x"; cases "rb_run ops (snd (the (Put r x)))")
        (auto simp: Cons.IH split: Option.bind_splits)
  next
    case (OpGetHalf buf)
    then show ?thesis
      by (cases "GetHalf r buf"; cases "rb_run ops (snd (snd (the (GetHalf r buf))))")
        (auto simp: Cons.IH split: Option.bind_splits)
  qed
qed

fun buffer_fits :: "nat \<Rightarrow> 'a rb_op \<Rightarrow> bool" where
  "buffer_fits n (OpPut x) \<longleftrightarrow> True"
| "buffer_fits n (OpGetHalf buf) \<longleftrightarrow> n \<le> length buf"

lemma rb_run_below_wrap:
  assumes "rb_ok r" "unat (wd_index r) + length ops + rb_cap r < 4294967296"
    "\<forall>op \<in> set ops. buffer_fits (rb_cap r div 2) op"
  shows "\<exists>ins outs r'. rb_run ops r = Some (ins, outs, r') \<and> rb_ok r' \<and> rb_cap r' = rb_cap r \<and>
    rb_contents r @ ins = outs @ rb_contents r'"
  using assms
proof (induction ops arbitrary: r)
  case (Cons op ops)
  note d = rb_okD [OF Cons.prems(1)]
  show ?case
  proof (cases op)
    case (OpPut x)
    have room: "unat (rd_index r) + rb_cap r < 4294967296" using Cons.prems(2) d(4) by simp
    show ?thesis
    proof (cases "rb_used r = rb_cap r")
      case True
      then show ?thesis using Cons.IH [of r] Cons.prems by (simp add: OpPut Put_eq room)
    next
      case False
      then have lt: "rb_used r < rb_cap r" using d(3) by simp
      note p = rb_push_ok [OF Cons.prems(1) room lt, of x]
      have cap: "rb_cap (rb_push r x) = rb_cap r" using p(4) by (simp add: rb_cap_def)
      have "unat (wd_index (rb_push r x)) = Suc (unat (wd_index r))"
        using Cons.prems(2) by (simp add: rb_push_def unat_add_no_wrap)
      then show ?thesis
        using Cons.IH [OF p(1)] Cons.prems False by (auto simp: OpPut Put_eq room p(2) cap)
    qed
  next
    case (OpGetHalf buf)
    have room: "unat (rd_index r) + rb_cap r div 2 < 4294967296" using Cons.prems(2) d(4) by simp
    have fits: "rb_cap r div 2 \<le> length buf" using Cons.prems(3) OpGetHalf by simp
    note g = GetHalf_eq [OF Cons.prems(1) room fits]
    show ?thesis
    proof (cases "rb_cap r div 2 \<le> rb_used r")
      case True
      note p = rb_pop_half_ok [OF Cons.prems(1) room True]
      have cap: "rb_cap (rb_pop_half r) = rb_cap r" using p(4) by (simp add: rb_cap_def)
      obtain ins outs r' where r': "rb_run ops (rb_pop_half r) = Some (ins, outs, r')" "rb_ok r'"
        "rb_cap r' = rb_cap r" "rb_contents (rb_pop_half r) @ ins = outs @ rb_contents r'"
        using Cons.IH [OF p(1)] Cons.prems by (auto simp: p(3) cap)
      have "rb_contents r @ ins = (take (rb_cap r div 2) (rb_contents r) @ outs) @ rb_contents r'"
        using r'(4) p(2) by (metis append_assoc append_take_drop_id)
      then show ?thesis using True r' by (simp add: OpGetHalf g rb_cap_def [symmetric] min_def)
    next
      case False
      then show ?thesis using Cons.IH [of r] Cons.prems by (simp add: OpGetHalf g)
    qed
  qed
qed simp

section \<open>The wrap-around of the positions\<close>

text \<open>\<open>n\<close> calls of \<open>Put\<close>, and a cycle that fills and empties half of the buffer.\<close>

lemma rb_run_puts:
  assumes "rb_ok r" "unat (rd_index r) + rb_cap r < 4294967296" "rb_used r + n \<le> rb_cap r"
  shows "\<exists>r'. rb_run (replicate n (OpPut x)) r = Some (replicate n x, [], r') \<and> rb_ok r' \<and>
    rb_contents r' = rb_contents r @ replicate n x \<and> rd_index r' = rd_index r \<and> rb_size r' = rb_size r"
  using assms
proof (induction n arbitrary: r)
  case (Suc n)
  then have lt: "rb_used r < rb_cap r" by simp
  note p = rb_push_ok [OF Suc.prems(1,2) lt, of x]
  have "rb_used (rb_push r x) = Suc (rb_used r)" "rb_cap (rb_push r x) = rb_cap r"
    using arg_cong [OF p(2), of length] p(4) by (simp_all add: rb_cap_def)
  then show ?case
    using Suc.IH [OF p(1)] Suc.prems lt p
    by (auto simp: Put_eq [OF Suc.prems(1,2)] replicate_app_Cons_same)
qed simp

definition half_cycle :: "nat \<Rightarrow> 'a \<Rightarrow> 'a rb_op list" where
  "half_cycle n x = replicate n (OpPut x) @ [OpGetHalf (replicate n x)]"

lemma rb_run_cycle:
  assumes "rb_ok r" "rb_used r = 0" "unat (rd_index r) + rb_cap r < 4294967296"
  shows "\<exists>xs r'. rb_run (half_cycle (rb_cap r div 2) x) r = Some (xs, xs, r') \<and> rb_ok r' \<and>
    rb_used r' = 0 \<and> rb_size r' = rb_size r \<and>
    unat (rd_index r') = unat (rd_index r) + rb_cap r div 2"
proof -
  let ?h = "rb_cap r div 2"
  obtain r1 where r1: "rb_run (replicate ?h (OpPut x)) r = Some (replicate ?h x, [], r1)" "rb_ok r1"
    "rb_contents r1 = rb_contents r @ replicate ?h x" "rd_index r1 = rd_index r" "rb_size r1 = rb_size r"
    using rb_run_puts [OF assms(1,3), of ?h x] assms(2) by auto
  have cap: "rb_cap r1 = rb_cap r" using r1(5) by (simp add: rb_cap_def)
  have c0: "rb_contents r = []" using assms(2) by (simp add: length_0_conv [symmetric])
  have used: "rb_used r1 = ?h" using arg_cong [OF r1(3), of length] assms(2) by simp
  have room: "unat (rd_index r1) + rb_cap r1 div 2 < 4294967296" using assms(3) r1(4) cap by simp
  note g = GetHalf_eq [OF r1(2) room, of "replicate ?h x"]
  note p = rb_pop_half_ok [OF r1(2) room]
  have "rb_used (rb_pop_half r1) = 0"
    using arg_cong [OF p(2), of length] used cap by simp
  then show ?thesis
    using r1 g p used cap c0 by (auto simp: half_cycle_def rb_run_append rb_cap_def [symmetric])
qed

lemma rb_run_cycles:
  assumes "rb_ok r" "rb_used r = 0" "0 < rb_cap r div 2"
    "unat (rd_index r) + m * (rb_cap r div 2) + rb_cap r \<le> 4294967296"
  shows "\<exists>xs r'. rb_run (concat (replicate m (half_cycle (rb_cap r div 2) x))) r = Some (xs, xs, r') \<and>
    rb_ok r' \<and> rb_used r' = 0 \<and> rb_size r' = rb_size r \<and>
    unat (rd_index r') = unat (rd_index r) + m * (rb_cap r div 2)"
  using assms
proof (induction m arbitrary: r)
  case (Suc m)
  have room: "unat (rd_index r) + rb_cap r < 4294967296"
    using Suc.prems(3,4) by (simp add: algebra_simps)
  obtain xs r1 where r1: "rb_run (half_cycle (rb_cap r div 2) x) r = Some (xs, xs, r1)" "rb_ok r1"
    "rb_used r1 = 0" "rb_size r1 = rb_size r" "unat (rd_index r1) = unat (rd_index r) + rb_cap r div 2"
    using rb_run_cycle [OF Suc.prems(1,2) room, of x] by auto
  have cap: "rb_cap r1 = rb_cap r" using r1(4) by (simp add: rb_cap_def)
  obtain ys r2 where r2: "rb_run (concat (replicate m (half_cycle (rb_cap r div 2) x))) r1 = Some (ys, ys, r2)"
    "rb_ok r2" "rb_used r2 = 0" "rb_size r2 = rb_size r1"
    "unat (rd_index r2) = unat (rd_index r1) + m * (rb_cap r div 2)"
    using Suc.IH [OF r1(2,3)] Suc.prems(3,4) r1(5) by (auto simp: cap)
  show ?case using r1 r2 by (auto simp: rb_run_append)
qed (auto simp: rb_contents_def)

text \<open>An empty buffer whose read position is one buffer size below \<open>2^32\<close> is stuck.\<close>

lemma stuck_ops:
  assumes "IsPowerOf2 (rb_size r)" "2 \<le> rb_cap r" "rd_index r = wd_index r"
    "unat (rd_index r) + rb_cap r = 4294967296"
  shows "Put r x = Some (-1, r)" "GetHalf r buf = Some (0, buf, r)"
proof -
  note s = rb_sizeD [OF assms(1)]
  have "unat (rd_index r + rb_size r) = 0"
    using assms(4) by (simp add: rb_cap_def unat_word_ariths)
  then have "rd_index r + rb_size r = 0" by (simp only: unat_eq_0)
  then show "Put r x = Some (-1, r)" by (simp add: Put_def)
  have "rb_cap r div 2 < rb_cap r" "0 < rb_cap r div 2" using assms(2) by auto
  then have "unat (rd_index r + drop_bit 1 (rb_size r)) = unat (rd_index r) + rb_cap r div 2"
    "0 < rb_cap r div 2"
    using rb_rd_plus_half [OF assms(1)] assms(4) by auto
  then have "\<not> rd_index r + drop_bit 1 (rb_size r) \<le> wd_index r"
    unfolding word_le_nat_alt assms(3) by simp
  then show "GetHalf r buf = Some (0, buf, r)" by (simp add: GetHalf_def Let_def)
qed

lemma stuck_run:
  assumes "IsPowerOf2 (rb_size r)" "2 \<le> rb_cap r" "rd_index r = wd_index r"
    "unat (rd_index r) + rb_cap r = 4294967296"
  shows "rb_run ops r = Some ([], [], r)"
proof (induction ops)
  case (Cons op ops)
  then show ?case by (cases op) (simp_all add: stuck_ops [OF assms])
qed simp

lemma cycles_to_wrap:
  assumes "IsPowerOf2 s" "2 \<le> unat s"
  shows "\<exists>m h. 2 * h = unat s \<and> 0 < h \<and> m * h + unat s = 4294967296 \<and> 2 \<le> m"
proof -
  obtain k where k: "k < 32" "unat s = 2 ^ k" using assms(1) by (auto simp: IsPowerOf2_iff)
  then obtain j where j: "k = Suc j" using assms(2) by (cases k) auto
  have e: "(2 :: nat) ^ 32 = 2 ^ (32 - j) * 2 ^ j" using k j by (simp add: power_add [symmetric])
  have f: "(2 :: nat) ^ 2 \<le> 2 ^ (32 - j)" using k j by (intro power_increasing) auto
  have "2 * 2 ^ j \<le> (4294967296 :: nat)"
    using k j power_increasing [of "Suc j" 32 "2 :: nat"] by simp
  then have "(2 ^ (32 - j) - 2) * 2 ^ j + unat s = 4294967296" "(2 :: nat) \<le> 2 ^ (32 - j) - 2"
    using e f k j by (simp_all add: diff_mult_distrib del: mult_le_cancel2)
  then show ?thesis using j k
    by (intro exI [of _ "2 ^ (32 - j) - 2"] exI [of _ "2 ^ j"]) simp
qed

section \<open>Several producers\<close>

text \<open>
  \<open>Put\<close> as a producer thread runs it: the test reads \<^verbatim>\<open>wd_index_\<close> and \<^verbatim>\<open>rd_index_\<close> one after the other (C++ leaves
  open which first), then come the \<open>ATOM_FINC\<close> and the copy, and nothing makes them one. The one consumer
  thread runs \<open>GetHalf\<close> in three steps, the test (only this thread writes \<^verbatim>\<open>rd_index_\<close>), the copy and the
  \<open>ATOM_ADD\<close>.
\<close>

datatype 'a putter = PutIdle | PutWd u32 'a | PutRd u32 'a | PutChecked 'a | PutStore u32 'a

datatype getter = GetIdle | GetCopy | GetAdd

record 'a rb_sys =
  rbs_ring :: "'a RingBuff"
  putters :: "'a putter list"
  getter :: getter
  half_buf :: "'a list"

abbreviation set_putter :: "nat \<Rightarrow> 'a putter \<Rightarrow> 'a rb_sys \<Rightarrow> 'a rb_sys" where
  "set_putter i p s \<equiv> s\<lparr>putters := (putters s)[i := p]\<rparr>"

inductive put_step :: "'a rb_sys \<Rightarrow> 'a rb_sys \<Rightarrow> bool" where
  put_read_wd: "i < length (putters s) \<Longrightarrow> putters s ! i = PutIdle \<Longrightarrow>
    put_step s (set_putter i (PutWd (wd_index (rbs_ring s)) x) s)"
| put_read_rd: "i < length (putters s) \<Longrightarrow> putters s ! i = PutIdle \<Longrightarrow>
    put_step s (set_putter i (PutRd (rd_index (rbs_ring s)) x) s)"
| put_test_rd: "i < length (putters s) \<Longrightarrow> putters s ! i = PutWd wd x \<Longrightarrow>
    put_step s (set_putter i
      (if wd \<ge> rd_index (rbs_ring s) + rb_size (rbs_ring s) then PutIdle else PutChecked x) s)"
| put_test_wd: "i < length (putters s) \<Longrightarrow> putters s ! i = PutRd rd x \<Longrightarrow>
    put_step s (set_putter i
      (if wd_index (rbs_ring s) \<ge> rd + rb_size (rbs_ring s) then PutIdle else PutChecked x) s)"
| put_reserve: "i < length (putters s) \<Longrightarrow> putters s ! i = PutChecked x \<Longrightarrow>
    put_step s (set_putter i (PutStore (wd_index (rbs_ring s)) x)
      (s\<lparr>rbs_ring := (rbs_ring s)\<lparr>wd_index := wd_index (rbs_ring s) + 1\<rparr>\<rparr>))"
| put_store: "i < length (putters s) \<Longrightarrow> putters s ! i = PutStore wd_idx x \<Longrightarrow>
    mem_set (rb_data (rbs_ring s)) (unat (wd_idx AND (rb_size (rbs_ring s) - 1))) x = Some dat \<Longrightarrow>
    put_step s (set_putter i PutIdle (s\<lparr>rbs_ring := (rbs_ring s)\<lparr>rb_data := dat\<rparr>\<rparr>))"
| get_test: "getter s = GetIdle \<Longrightarrow>
    put_step s (if wd_index (rbs_ring s) \<ge> rd_index (rbs_ring s) + drop_bit 1 (rb_size (rbs_ring s))
      then s\<lparr>getter := GetCopy\<rparr> else s)"
| get_copy: "getter s = GetCopy \<Longrightarrow>
    memcpy (half_buf s) 0 (rb_data (rbs_ring s)) (unat (rd_index (rbs_ring s) AND (rb_size (rbs_ring s) - 1)))
      (unat (drop_bit 1 (rb_size (rbs_ring s)))) = Some buf \<Longrightarrow>
    put_step s (s\<lparr>getter := GetAdd, half_buf := buf\<rparr>)"
| get_add: "getter s = GetAdd \<Longrightarrow>
    put_step s (s\<lparr>getter := GetIdle,
      rbs_ring := (rbs_ring s)\<lparr>rd_index := rd_index (rbs_ring s) + drop_bit 1 (rb_size (rbs_ring s))\<rparr>\<rparr>)"

inductive put_steps :: "nat \<Rightarrow> 'a rb_sys \<Rightarrow> 'a rb_sys \<Rightarrow> bool" where
  put_steps_0: "put_steps 0 s s"
| put_steps_Suc: "put_steps n s s' \<Longrightarrow> put_step s' s'' \<Longrightarrow> put_steps (Suc n) s s''"

text \<open>
  The producers that may still reserve an element once the read position is so far that positions below
  \<open>t\<close> pass the test: those that have passed it, and those that have read a write position below \<open>t\<close>.
\<close>

fun may_reserve :: "nat \<Rightarrow> 'a putter \<Rightarrow> bool" where
  "may_reserve t (PutWd wd x) \<longleftrightarrow> unat wd < t"
| "may_reserve t (PutChecked x) \<longleftrightarrow> True"
| "may_reserve t _ \<longleftrightarrow> False"

definition pending :: "nat \<Rightarrow> 'a rb_sys \<Rightarrow> nat" where
  "pending t s = length (filter (may_reserve t) (putters s))"

lemma length_filter_update:
  "i < length xs \<Longrightarrow> length (filter P (xs[i := y])) + (if P (xs ! i) then 1 else 0) =
     length (filter P xs) + (if P y then 1 else 0)"
proof (induction xs arbitrary: i)
  case (Cons x xs)
  then show ?case by (cases i) (auto simp del: nth_mem simp: Cons.IH add.commute [of _ "Suc 0"])
qed simp

lemma pending_update:
  assumes "i < length (putters s)" "putters s' = (putters s)[i := y]"
  shows "pending t s' + (if may_reserve t (putters s ! i) then 1 else 0) = pending t s + (if may_reserve t y then 1 else 0)"
  using length_filter_update [OF assms(1), of "may_reserve t" y] assms(2) by (simp add: pending_def)

lemma pending_same: "putters s' = putters s \<Longrightarrow> pending t s' = pending t s"
  by (simp add: pending_def)

lemma pending_le: "pending t s \<le> length (putters s)"
  by (simp add: pending_def)

text \<open>
  After \<open>n\<close> steps from write position \<open>w\<close>, with \<open>p\<close> producers on a buffer of \<open>c\<close> elements. The last
  clause is kept by the consumer because it speaks of all later read positions.
\<close>

definition overshoot_inv :: "nat \<Rightarrow> nat \<Rightarrow> nat \<Rightarrow> nat \<Rightarrow> 'a rb_sys \<Rightarrow> bool" where
  "overshoot_inv w n p c s \<longleftrightarrow> length (putters s) = p \<and>
     IsPowerOf2 (rb_size (rbs_ring s)) \<and> rb_cap (rbs_ring s) = c \<and>
     unat (rd_index (rbs_ring s)) \<le> unat (wd_index (rbs_ring s)) \<and> unat (wd_index (rbs_ring s)) \<le> w + n \<and>
     (getter s \<noteq> GetIdle \<longrightarrow> unat (rd_index (rbs_ring s)) + c div 2 \<le> unat (wd_index (rbs_ring s))) \<and>
     (\<forall>i < p. \<forall>rd x. putters s ! i = PutRd rd x \<longrightarrow> unat rd \<le> unat (rd_index (rbs_ring s))) \<and>
     (\<forall>t \<ge> unat (rd_index (rbs_ring s)) + c. unat (wd_index (rbs_ring s)) + pending t s \<le> t + (p - 1))"

lemma overshootD:
  assumes "overshoot_inv w n p c s"
  shows "length (putters s) = p" "IsPowerOf2 (rb_size (rbs_ring s))" "rb_cap (rbs_ring s) = c"
    "unat (rd_index (rbs_ring s)) \<le> unat (wd_index (rbs_ring s))" "unat (wd_index (rbs_ring s)) \<le> w + n"
    "getter s \<noteq> GetIdle \<Longrightarrow> unat (rd_index (rbs_ring s)) + c div 2 \<le> unat (wd_index (rbs_ring s))"
    "i < p \<Longrightarrow> putters s ! i = PutRd rd x \<Longrightarrow> unat rd \<le> unat (rd_index (rbs_ring s))"
    "unat (rd_index (rbs_ring s)) + c \<le> t \<Longrightarrow> unat (wd_index (rbs_ring s)) + pending t s \<le> t + (p - 1)"
  using assms by (auto simp: overshoot_inv_def)

text \<open>A step of producer \<open>i\<close> that leaves the positions alone.\<close>

lemma overshoot_putter:
  assumes inv: "overshoot_inv w n p c s" and i: "i < length (putters s)"
    and rd: "\<forall>rd x. y = PutRd rd x \<longrightarrow> unat rd \<le> unat (rd_index (rbs_ring s))"
    and keep: "\<And>t. unat (rd_index (rbs_ring s)) + c \<le> t \<Longrightarrow> may_reserve t y \<Longrightarrow>
      may_reserve t (putters s ! i) \<or> unat (wd_index (rbs_ring s)) < t"
  shows "overshoot_inv w (Suc n) p c (set_putter i y s)"
proof -
  note d = overshootD [OF inv]
  have "unat (wd_index (rbs_ring s)) + pending t (set_putter i y s) \<le> t + (p - 1)"
    if t: "unat (rd_index (rbs_ring s)) + c \<le> t" for t
  proof (cases "may_reserve t y \<and> \<not> may_reserve t (putters s ! i)")
    case True
    then have "unat (wd_index (rbs_ring s)) < t" using keep [OF t] by simp
    moreover have "pending t (set_putter i y s) \<le> p" using pending_le [of t "set_putter i y s"] d(1) by simp
    moreover have "0 < p" using i d(1) by simp
    ultimately show ?thesis by simp
  next
    case False
    then have "pending t (set_putter i y s) \<le> pending t s"
      using pending_update [OF i, of "set_putter i y s" y t] by (auto split: if_splits)
    then show ?thesis using d(8) [OF t] by linarith
  qed
  moreover have "unat r \<le> unat (rd_index (rbs_ring s))"
    if "j < p" "(putters s)[i := y] ! j = PutRd r x" for j r x
    using that rd d(7) [of j r x] i by (cases "j = i") simp_all
  ultimately show ?thesis using d(1-6) unfolding overshoot_inv_def by simp
qed

lemma put_step_overshoot:
  assumes "put_step s s'" and inv: "overshoot_inv w n p c s" and small: "w + Suc n + c < 4294967296"
  shows "overshoot_inv w (Suc n) p c s'"
  using assms(1)
proof (cases rule: put_step.cases)
  case (put_read_wd i x)
  then show ?thesis using overshoot_putter [OF inv, of i "PutWd (wd_index (rbs_ring s)) x"] by simp
next
  case (put_read_rd i x)
  then show ?thesis using overshoot_putter [OF inv, of i "PutRd (rd_index (rbs_ring s)) x"] by simp
next
  case (put_test_rd i wd x)
  have size: "unat (rd_index (rbs_ring s) + rb_size (rbs_ring s)) = unat (rd_index (rbs_ring s)) + c"
    using overshootD(3-5) [OF inv] small unfolding rb_cap_def by (simp add: unat_add_no_wrap)
  show ?thesis unfolding put_test_rd(1)
  proof (rule overshoot_putter [OF inv put_test_rd(2)])
    fix t assume "unat (rd_index (rbs_ring s)) + c \<le> t"
      "may_reserve t (if wd \<ge> rd_index (rbs_ring s) + rb_size (rbs_ring s) then PutIdle else PutChecked x)"
    then have "unat wd < t" using size by (auto simp: word_le_nat_alt split: if_splits)
    then show "may_reserve t (putters s ! i) \<or> unat (wd_index (rbs_ring s)) < t" using put_test_rd(3) by simp
  qed (simp split: if_splits)
next
  case (put_test_wd i rd x)
  have i: "i < p" using put_test_wd(2) overshootD(1) [OF inv] by simp
  have r: "unat rd \<le> unat (rd_index (rbs_ring s))" using overshootD(7) [OF inv i put_test_wd(3)] .
  have size: "unat (rd + rb_size (rbs_ring s)) = unat rd + c"
    using r overshootD(3-5) [OF inv] small unfolding rb_cap_def by (simp add: unat_add_no_wrap)
  show ?thesis unfolding put_test_wd(1)
  proof (rule overshoot_putter [OF inv put_test_wd(2)])
    fix t assume "unat (rd_index (rbs_ring s)) + c \<le> t"
      "may_reserve t (if wd_index (rbs_ring s) \<ge> rd + rb_size (rbs_ring s) then PutIdle else PutChecked x)"
    then have "unat (wd_index (rbs_ring s)) < t" using size r by (auto simp: word_le_nat_alt split: if_splits)
    then show "may_reserve t (putters s ! i) \<or> unat (wd_index (rbs_ring s)) < t" ..
  qed (simp split: if_splits)
next
  case (put_reserve i x)
  note d = overshootD [OF inv]
  have w: "unat (wd_index (rbs_ring s) + 1) = Suc (unat (wd_index (rbs_ring s)))"
    using d(5) small by (simp add: unat_add_no_wrap)
  have "Suc (pending t s') = pending t s" for t
    using pending_update [OF put_reserve(2), of s' "PutStore (wd_index (rbs_ring s)) x" t] put_reserve(1,3) by simp
  then have sum: "Suc (unat (wd_index (rbs_ring s)) + pending t s') = unat (wd_index (rbs_ring s)) + pending t s" for t
    by (metis add_Suc_right)
  have ring: "wd_index (rbs_ring s') = wd_index (rbs_ring s) + 1" "rd_index (rbs_ring s') = rd_index (rbs_ring s)"
    "rb_size (rbs_ring s') = rb_size (rbs_ring s)" "getter s' = getter s"
    "putters s' = (putters s)[i := PutStore (wd_index (rbs_ring s)) x]"
    using put_reserve(1) by simp_all
  have "rb_cap (rbs_ring s') = c" using ring(3) d(3) by (simp add: rb_cap_def)
  moreover have "unat r \<le> unat (rd_index (rbs_ring s))" if "j < p" "putters s' ! j = PutRd r y" for j r y
    using that d(7) [of j r y] put_reserve(2) by (cases "j = i") (simp_all add: ring)
  moreover have "unat (wd_index (rbs_ring s)) + 1 + pending t s' \<le> t + (p - 1)"
    if "unat (rd_index (rbs_ring s)) + c \<le> t" for t
    using d(8) [OF that] sum [of t] by simp
  moreover have "getter s \<noteq> GetIdle \<longrightarrow> unat (rd_index (rbs_ring s)) + c div 2 \<le> Suc (unat (wd_index (rbs_ring s)))"
    using d(6) le_SucI by blast
  ultimately show ?thesis using d(1,2,4,5) unfolding overshoot_inv_def ring(1-4) w by (simp add: ring(5))
next
  case (put_store i wd x dat)
  have "overshoot_inv w (Suc n) p c (set_putter i PutIdle s)"
    using put_store(2) by (intro overshoot_putter [OF inv]) simp_all
  then show ?thesis using put_store(1) pending_same [of s' "set_putter i PutIdle s"]
    by (simp add: overshoot_inv_def rb_cap_def)
next
  case get_test
  note d = overshootD [OF inv]
  have "unat (rd_index (rbs_ring s)) + rb_cap (rbs_ring s) div 2 < 4294967296" using d(3-5) small by auto
  note h = rb_rd_plus_half [OF d(2) this]
  show ?thesis using d get_test(1) h pending_same [of s' s] by (auto simp: overshoot_inv_def word_le_nat_alt)
next
  case (get_copy buf)
  note d = overshootD [OF inv]
  then show ?thesis using get_copy(1,2) pending_same [of s' s] by (auto simp: overshoot_inv_def)
next
  case get_add
  note d = overshootD [OF inv]
  have "unat (rd_index (rbs_ring s)) + rb_cap (rbs_ring s) div 2 < 4294967296" using d(3-5) small by auto
  note h = rb_rd_plus_half [OF d(2) this]
  have half: "unat (rd_index (rbs_ring s)) + c div 2 \<le> unat (wd_index (rbs_ring s))" using d(6) get_add(2) by simp
  have ring: "wd_index (rbs_ring s') = wd_index (rbs_ring s)" "rb_size (rbs_ring s') = rb_size (rbs_ring s)"
    "unat (rd_index (rbs_ring s')) = unat (rd_index (rbs_ring s)) + c div 2"
    "putters s' = putters s" "getter s' = GetIdle"
    using get_add(1) h d(3) by simp_all
  have cap: "rb_cap (rbs_ring s') = c" using ring(2) d(3) by (simp add: rb_cap_def)
  have "unat (wd_index (rbs_ring s)) + pending t s' \<le> t + (p - 1)" if "unat (rd_index (rbs_ring s')) + c \<le> t" for t
    using d(8) [of t] that ring(3) pending_same [OF ring(4)] by simp
  moreover have "unat rd \<le> unat (rd_index (rbs_ring s'))" if "i < p" "putters s ! i = PutRd rd x" for i rd x
    using d(7) [OF that] ring(3) by simp
  ultimately show ?thesis using d(1,2,5) half ring cap by (simp add: overshoot_inv_def)
qed

lemma put_steps_overshoot:
  assumes "put_steps n s s'" "overshoot_inv w 0 p c s" "w + n + c < 4294967296"
  shows "overshoot_inv w n p c s'"
  using assms
proof (induction rule: put_steps.induct)
  case (put_steps_Suc n s s' s'')
  then show ?case by (intro put_step_overshoot [OF put_steps_Suc.hyps(2)]) simp_all
qed simp

lemma GetAll_eq:
  assumes "rb_ok r" "rb_cap r \<le> length item"
  shows "GetAll r item =
    (if unat (rd_index r) mod rb_cap r = 0
     then Some (sint (wd_index r - rd_index r), rb_data r @ drop (rb_cap r) item,
       r\<lparr>rd_index := wd_index r\<rparr>)
     else None)"
proof -
  note d = rb_okD [OF assms(1)]
  have "unat (rd_index r AND (rb_size r - 1)) = unat (rd_index r) mod rb_cap r"
    by (rule rb_sizeD(2) [OF d(1)])
  then show ?thesis
    using assms(2) d(2) by (auto simp: GetAll_def Let_def memcpy_in memcpy_out rb_cap_def [symmetric])
qed

lemma sint_of_small: "n < 2147483648 \<Longrightarrow> sint (of_nat n :: u32) = int n"
  by (simp add: signed_of_nat signed_take_bit_int_eq_self)

section \<open>Properties\<close>

text \<open>
  Below the wrap-around of the positions \<open>Put\<close> refuses exactly when the buffer is full and
  appends otherwise, and \<open>GetHalf\<close> delivers the oldest half buffer exactly when there is one,
  leaving everything as it was otherwise.
\<close>

theorem ring_buff_calls:
  assumes "rb_ok r" "unat (rd_index r) + rb_cap r < 4294967296" "rb_cap r div 2 \<le> length buf"
  shows "(if length (rb_contents r) = rb_cap r then Put r x = Some (-1, r)
     else \<exists>r'. Put r x = Some (0, r') \<and> rb_ok r' \<and> rb_contents r' = rb_contents r @ [x]) \<and>
   (if length (rb_contents r) < rb_cap r div 2 then GetHalf r buf = Some (0, buf, r)
    else \<exists>out r'. GetHalf r buf = Some (1, out, r') \<and> rb_ok r' \<and>
      out = take (rb_cap r div 2) (rb_contents r) @ drop (rb_cap r div 2) buf \<and>
      rb_contents r' = drop (rb_cap r div 2) (rb_contents r))"
proof -
  have room: "unat (rd_index r) + rb_cap r div 2 < 4294967296"
    using assms(2) by (rule le_less_trans [rotated]) simp
  show ?thesis
    using Put_eq [OF assms(1,2)] rb_push_ok [OF assms(1,2)] rb_okD(3) [OF assms(1)]
      GetHalf_eq [OF assms(1) room assms(3)] rb_pop_half_ok [OF assms(1) room]
    by (simp add: not_less le_neq_implies_less)
qed

text \<open>
  C28. Any sequence of \<open>Put\<close> and \<open>GetHalf\<close> calls that stays below the wrap-around is first-in
  first-out: the old contents and the accepted elements are the delivered ones and the new
  contents.
\<close>

theorem ring_buff_fifo:
  assumes "rb_ok r" "unat (wd_index r) + length ops + rb_cap r < 4294967296"
    "\<forall>op \<in> set ops. buffer_fits (rb_cap r div 2) op"
  shows "\<exists>ins outs r'. rb_run ops r = Some (ins, outs, r') \<and> rb_ok r' \<and>
    rb_contents r @ ins = outs @ rb_contents r'"
  using rb_run_below_wrap [OF assms] by auto

text \<open>
  C30. \<open>GetAll\<close> copies a whole buffer from the read position on, so it delivers the contents only
  when the read position is at the start of the array, that is, after an even number of
  \<open>GetHalf\<close>s; otherwise it reads outside the array.
\<close>

theorem ring_buff_get_all:
  assumes "rb_ok r" "rb_cap r \<le> length item" "rb_used r < 2147483648"
  shows "if unat (rd_index r) mod rb_cap r = 0
    then \<exists>out r'. GetAll r item = Some (int (length (rb_contents r)), out, r') \<and>
      take (length (rb_contents r)) out = rb_contents r \<and> rb_contents r' = []
    else GetAll r item = None"
proof (cases "unat (rd_index r) mod rb_cap r = 0")
  case True
  note d = rb_okD [OF assms(1)]
  have "rb_contents r = take (rb_used r) (rb_data r)"
    using ring_slice_mod [of "rb_data r" "unat (rd_index r)" "rb_used r"]
      ring_slice_contiguous [of 0 "rb_used r" "rb_data r"] True d(2,3)
    by (simp add: rb_contents_def)
  moreover have "wd_index r - rd_index r = of_nat (rb_used r)"
    using assms(1) by (simp add: rb_ok_def rb_used_def of_nat_diff)
  ultimately show ?thesis
    using True d(2,3) assms(3)
    by (simp add: GetAll_eq [OF assms(1,2)] sint_of_small rb_contents_def rb_used_def)
qed (simp add: GetAll_eq [OF assms(1,2)])

text \<open>
  C27. The positions do not survive the end of the 32-bit range: from a fresh buffer of any size
  from 2 to \<open>2^31\<close> there is a run, every element of which is delivered, after which the buffer is
  empty and refuses every \<open>Put\<close>, whatever is called.
\<close>

theorem ring_buff_wedges:
  assumes "2 \<le> unat sz" "unat sz \<le> 2147483648"
  shows "\<exists>r0 ops xs r. new_RingBuff x sz = Some r0 \<and> rb_run ops r0 = Some (xs, xs, r) \<and>
    rb_contents r = [] \<and> (\<forall>ops'. rb_run ops' r = Some ([], [], r)) \<and>
    (\<forall>y. Put r y = Some (-1, r))"
proof -
  obtain s k where s: "RoundupPowerOf2 sz = Some s" "k < 32" "unat s = 2 ^ k" "unat sz \<le> unat s"
    using RoundupPowerOf2_spec [OF assms(2)] by blast
  then have p2: "IsPowerOf2 s" by (auto simp: IsPowerOf2_iff)
  obtain r0 where r0: "new_RingBuff x sz = Some r0" "rb_ok r0" "rb_contents r0 = []" "rb_size r0 = s"
    "wd_index r0 = 0" "rd_index r0 = 0"
    using new_RingBuff_Some [OF s(1) p2, of x] by blast
  have "2 \<le> unat s" using assms(1) s(4) by linarith
  then obtain m h where m: "2 * h = unat s" "0 < h" "m * h + unat s = 4294967296"
    using cycles_to_wrap [OF p2] by blast
  have h: "rb_cap r0 div 2 = h" "rb_cap r0 = 2 * h" using r0(4) m(1) by (simp_all add: rb_cap_def)
  obtain xs r where r: "rb_run (concat (replicate m (half_cycle h x))) r0 = Some (xs, xs, r)"
    "rb_ok r" "rb_used r = 0" "rb_size r = s" "unat (rd_index r) = m * h"
    using rb_run_cycles [OF r0(2), unfolded h(1), of m x] r0 m h(2) by (auto simp: rb_used_def)
  have p2r: "IsPowerOf2 (rb_size r)" using r(4) p2 by simp
  have st: "2 \<le> rb_cap r" "rd_index r = wd_index r" "unat (rd_index r) + rb_cap r = 4294967296"
    using r m \<open>2 \<le> unat s\<close> rb_okD(4) [OF r(2)] by (auto simp: rb_cap_def word_unat_eq_iff)
  have "rb_contents r = []" using r(3) by (simp add: length_0_conv [symmetric])
  then show ?thesis
    using r0(1) r(1) stuck_run [OF p2r st] stuck_ops(1) [OF p2r st] by blast
qed

text \<open>
  C29. Producers that run \<open>Put\<close> at the same time, beside one consumer, can pass the full test together, so the
  buffer can be overrun, but by less than one element per producer: with \<open>p\<close> producers, from a well-formed
  buffer nobody is using, and as long as the positions stay below \<open>2^32\<close>, there are never more than
  \<open>p - 1\<close> elements beyond its size.
\<close>

theorem ring_buff_overshoot:
  assumes "put_steps n s s'" "rb_ok (rbs_ring s)" "\<forall>p \<in> set (putters s). p = PutIdle" "getter s = GetIdle"
    "unat (wd_index (rbs_ring s)) + n + rb_cap (rbs_ring s) < 4294967296"
  shows "unat (rd_index (rbs_ring s')) \<le> unat (wd_index (rbs_ring s')) \<and>
    rb_used (rbs_ring s') \<le> rb_cap (rbs_ring s) + (length (putters s) - 1)"
proof -
  let ?c = "rb_cap (rbs_ring s)"
  note d0 = rb_okD [OF assms(2)]
  have "pending t s = 0" for t using assms(3) by (auto simp: pending_def filter_empty_conv)
  moreover have "unat (wd_index (rbs_ring s)) \<le> unat (rd_index (rbs_ring s)) + ?c"
    using d0(3) by (simp add: rb_used_def)
  moreover have "\<forall>i < length (putters s). putters s ! i = PutIdle" using assms(3) by simp
  ultimately have "overshoot_inv (unat (wd_index (rbs_ring s))) 0 (length (putters s)) ?c s"
    using assms(4) d0(1,4) unfolding overshoot_inv_def by simp
  note d = overshootD [OF put_steps_overshoot [OF assms(1) this assms(5)]]
  show ?thesis using d(4) d(8) [OF order_refl] by (simp add: rb_used_def)
qed

section \<open>The hypotheses hold on concrete buffers\<close>

definition small_buff :: "nat RingBuff" where
  "small_buff = \<lparr>wd_index = 9, rd_index = 6, rb_size = 4, rb_data = [8, 5, 6, 7]\<rparr>"

lemma small_buff_ok: "rb_ok small_buff" "rb_cap small_buff = 4" "rb_used small_buff = 3"
  "rb_contents small_buff = [6, 7, 8]" "unat (rd_index small_buff) = 6" "unat (wd_index small_buff) = 9"
  by (simp_all add: rb_ok_def rb_cap_def rb_used_def rb_contents_def small_buff_def IsPowerOf2_def
      ring_slice_def upt_rec)

theorem ring_buff_calls_witness:
  "(\<exists>r'. Put small_buff 9 = Some (0, r') \<and> rb_ok r' \<and> rb_contents r' = [6, 7, 8, 9]) \<and>
   (\<exists>out r'. GetHalf small_buff [0, 0] = Some (1, out, r') \<and> out = [6, 7] \<and> rb_contents r' = [8])"
  using ring_buff_calls [of small_buff "[0, 0]" 9] small_buff_ok by auto

theorem ring_buff_fifo_witness:
  "\<exists>ins outs r'. rb_run [OpGetHalf [0, 0], OpPut 9, OpPut 10, OpGetHalf [0, 0]] small_buff =
     Some (ins, outs, r') \<and> rb_ok r' \<and> [6, 7, 8] @ ins = outs @ rb_contents r'"
  using ring_buff_fifo [of small_buff "[OpGetHalf [0, 0], OpPut 9, OpPut 10, OpGetHalf [0, 0]]"]
    small_buff_ok by simp

theorem ring_buff_get_all_witness: "GetAll small_buff [0, 0, 0, 0] = None"
  using ring_buff_get_all [of small_buff "[0, 0, 0, 0]"] small_buff_ok by simp

theorem ring_buff_wedges_witness:
  "\<exists>r0 ops xs r. new_RingBuff (0 :: nat) 1000 = Some r0 \<and> rb_run ops r0 = Some (xs, xs, r) \<and>
    rb_contents r = [] \<and> (\<forall>ops'. rb_run ops' r = Some ([], [], r)) \<and> (\<forall>y. Put r y = Some (-1, r))"
  using ring_buff_wedges [of 1000 0] by simp

text \<open>Two producers, one free element: both read the positions before either reserves.\<close>

definition two_putters :: "nat rb_sys" where
  "two_putters = \<lparr>rbs_ring = small_buff, putters = [PutIdle, PutIdle], getter = GetIdle, half_buf = [0, 0]\<rparr>"

definition both_reserved :: "nat rb_sys" where
  "both_reserved = two_putters\<lparr>rbs_ring := small_buff\<lparr>wd_index := 11\<rparr>,
     putters := [PutStore 9 21, PutStore 10 22]\<rparr>"

lemma two_putters_run: "put_steps 6 two_putters both_reserved"
proof -
  let ?s1 = "two_putters\<lparr>putters := [PutWd 9 21, PutIdle]\<rparr>"
  let ?s2 = "two_putters\<lparr>putters := [PutWd 9 21, PutRd 6 22]\<rparr>"
  let ?s3 = "two_putters\<lparr>putters := [PutChecked 21, PutRd 6 22]\<rparr>"
  let ?s4 = "two_putters\<lparr>putters := [PutChecked 21, PutChecked 22]\<rparr>"
  let ?s5 = "two_putters\<lparr>rbs_ring := small_buff\<lparr>wd_index := 10\<rparr>, putters := [PutStore 9 21, PutChecked 22]\<rparr>"
  have a: "put_step two_putters ?s1"
    using put_read_wd [of 0 two_putters 21] by (simp add: two_putters_def small_buff_def)
  have b: "put_step ?s1 ?s2"
    using put_read_rd [of 1 ?s1 22] by (simp add: two_putters_def small_buff_def)
  have c: "put_step ?s2 ?s3"
    using put_test_rd [of 0 ?s2 9 21] by (simp add: two_putters_def small_buff_def)
  have d: "put_step ?s3 ?s4"
    using put_test_wd [of 1 ?s3 6 22] by (simp add: two_putters_def small_buff_def)
  have e: "put_step ?s4 ?s5"
    using put_reserve [of 0 ?s4 21] by (simp add: two_putters_def small_buff_def)
  have f: "put_step ?s5 both_reserved"
    using put_reserve [of 1 ?s5 22] by (simp add: both_reserved_def two_putters_def small_buff_def)
  have "put_steps (Suc (Suc (Suc (Suc (Suc (Suc 0)))))) two_putters both_reserved"
    by (rule put_steps_Suc [OF put_steps_Suc [OF put_steps_Suc [OF put_steps_Suc [OF put_steps_Suc
          [OF put_steps_Suc [OF put_steps_0 a] b] c] d] e] f])
  then show ?thesis by (simp add: eval_nat_numeral)
qed

theorem ring_buff_overshoot_witness:
  "put_steps 6 two_putters both_reserved \<and> rb_used (rbs_ring both_reserved) = 5 \<and>
   rb_used (rbs_ring both_reserved) \<le> 4 + (2 - 1)"
  using two_putters_run ring_buff_overshoot [OF two_putters_run] small_buff_ok
  by (simp add: two_putters_def) (simp add: both_reserved_def two_putters_def small_buff_def rb_used_def)

end
