(* ===== verification/Rw_Lock.thy ===== *)
theory Rw_Lock
  imports Prelude
begin

text \<open>
  The spinning reader-writer lock of \<^verbatim>\<open>rwlock.h\<close>: one \<^verbatim>\<open>int32_t\<close> counter, -1 while a writer holds
  the lock and the number of readers otherwise. Each function is the step function of a thread
  that runs it, a step being one access to the counter; the threads interleave freely.
\<close>

section \<open>State and steps\<close>

text \<open>
  Where a thread is: outside the lock functions without the lock, about to load \<open>cnt\<close> or to
  compare-and-swap it in one of the functions (with the value it has loaded), or holding the lock.
\<close>

datatype rw_pc = Outside | ReadLoad | ReadCas u32 | TryLoad | TryCas u32 | WriteLoad | WriteCas
  | Reading | Writing

record RwLock =
  cnt :: u32

definition rwlock_init :: "RwLock \<Rightarrow> RwLock" where
  "rwlock_init rwl = rwl\<lparr>cnt := 0\<rparr>"

text \<open>\<^verbatim>\<open>__sync_bool_compare_and_swap\<close> on the counter.\<close>

definition cnt_cas :: "RwLock \<Rightarrow> u32 \<Rightarrow> u32 \<Rightarrow> RwLock \<times> bool" where
  "cnt_cas rwl old_val new_val =
     (if cnt rwl = old_val then (rwl\<lparr>cnt := new_val\<rparr>, True) else (rwl, False))"

fun rwlock_read_lock :: "RwLock \<Rightarrow> rw_pc \<Rightarrow> RwLock \<times> rw_pc" where
  "rwlock_read_lock rwl ReadLoad = (if cnt rwl <s 0 then (rwl, ReadLoad) else (rwl, ReadCas (cnt rwl)))"
| "rwlock_read_lock rwl (ReadCas x) = (case cnt_cas rwl x (x + 1) of (rwl, success) \<Rightarrow>
     if success then (rwl, Reading) else (rwl, ReadLoad))"
| "rwlock_read_lock rwl pc = (rwl, pc)"

fun rwlock_read_trylock :: "RwLock \<Rightarrow> rw_pc \<Rightarrow> RwLock \<times> rw_pc" where
  "rwlock_read_trylock rwl TryLoad = (if cnt rwl <s 0 then (rwl, Outside) else (rwl, TryCas (cnt rwl)))"
| "rwlock_read_trylock rwl (TryCas x) = (case cnt_cas rwl x (x + 1) of (rwl, success) \<Rightarrow>
     if success then (rwl, Reading) else (rwl, TryLoad))"
| "rwlock_read_trylock rwl pc = (rwl, pc)"

fun rwlock_read_unlock :: "RwLock \<Rightarrow> rw_pc \<Rightarrow> RwLock \<times> rw_pc" where
  "rwlock_read_unlock rwl Reading = (rwl\<lparr>cnt := cnt rwl - 1\<rparr>, Outside)"
| "rwlock_read_unlock rwl pc = (rwl, pc)"

fun rwlock_write_lock :: "RwLock \<Rightarrow> rw_pc \<Rightarrow> RwLock \<times> rw_pc" where
  "rwlock_write_lock rwl WriteLoad = (if cnt rwl \<noteq> 0 then (rwl, WriteLoad) else (rwl, WriteCas))"
| "rwlock_write_lock rwl WriteCas = (case cnt_cas rwl 0 (- 1) of (rwl, success) \<Rightarrow>
     if success then (rwl, Writing) else (rwl, WriteLoad))"
| "rwlock_write_lock rwl pc = (rwl, pc)"

fun rwlock_write_unlock :: "RwLock \<Rightarrow> rw_pc \<Rightarrow> RwLock \<times> rw_pc" where
  "rwlock_write_unlock rwl Writing = (rwl\<lparr>cnt := cnt rwl + 1\<rparr>, Outside)"
| "rwlock_write_unlock rwl pc = (rwl, pc)"

text \<open>The next step of a thread inside one of the locking functions.\<close>

fun rw_next :: "RwLock \<Rightarrow> rw_pc \<Rightarrow> RwLock \<times> rw_pc" where
  "rw_next rwl ReadLoad = rwlock_read_lock rwl ReadLoad"
| "rw_next rwl (ReadCas x) = rwlock_read_lock rwl (ReadCas x)"
| "rw_next rwl TryLoad = rwlock_read_trylock rwl TryLoad"
| "rw_next rwl (TryCas x) = rwlock_read_trylock rwl (TryCas x)"
| "rw_next rwl WriteLoad = rwlock_write_lock rwl WriteLoad"
| "rw_next rwl WriteCas = rwlock_write_lock rwl WriteCas"
| "rw_next rwl pc = (rwl, pc)"

record rw_sys =
  rw_lock :: RwLock
  pcs :: "rw_pc list"

definition set_thread :: "rw_sys \<Rightarrow> nat \<Rightarrow> RwLock \<times> rw_pc \<Rightarrow> rw_sys" where
  "set_thread s i p = s\<lparr>rw_lock := fst p, pcs := (pcs s)[i := snd p]\<rparr>"

definition run_thread :: "nat \<Rightarrow> rw_sys \<Rightarrow> rw_sys" where
  "run_thread i s = set_thread s i (rw_next (rw_lock s) (pcs s ! i))"

inductive rw_step :: "rw_sys \<Rightarrow> rw_sys \<Rightarrow> bool" where
  rw_call: "i < length (pcs s) \<Longrightarrow> pcs s ! i = Outside \<Longrightarrow> pc \<in> {ReadLoad, TryLoad, WriteLoad} \<Longrightarrow>
    rw_step s (set_thread s i (rw_lock s, pc))"
| rw_run: "i < length (pcs s) \<Longrightarrow> rw_step s (run_thread i s)"
| rw_read_unlock: "i < length (pcs s) \<Longrightarrow> pcs s ! i = Reading \<Longrightarrow>
    rw_step s (set_thread s i (rwlock_read_unlock (rw_lock s) Reading))"
| rw_write_unlock: "i < length (pcs s) \<Longrightarrow> pcs s ! i = Writing \<Longrightarrow>
    rw_step s (set_thread s i (rwlock_write_unlock (rw_lock s) Writing))"

text \<open>The states \<open>n\<close> threads reach on a lock from \<open>rwlock_init\<close>.\<close>

inductive rw_reach :: "nat \<Rightarrow> rw_sys \<Rightarrow> bool" for n where
  rw_start: "rw_reach n \<lparr>rw_lock = rwlock_init rwl, pcs = replicate n Outside\<rparr>"
| rw_more: "rw_reach n s \<Longrightarrow> rw_step s s' \<Longrightarrow> rw_reach n s'"

section \<open>Invariant\<close>

definition readers :: "rw_sys \<Rightarrow> nat" where
  "readers s = count_list (pcs s) Reading"

definition writers :: "rw_sys \<Rightarrow> nat" where
  "writers s = count_list (pcs s) Writing"

text \<open>A value a reader carries to its compare-and-swap is not negative.\<close>

fun pc_ok :: "rw_pc \<Rightarrow> bool" where
  "pc_ok (ReadCas x) \<longleftrightarrow> \<not> x <s 0"
| "pc_ok (TryCas x) \<longleftrightarrow> \<not> x <s 0"
| "pc_ok pc \<longleftrightarrow> True"

definition rw_inv :: "nat \<Rightarrow> rw_sys \<Rightarrow> bool" where
  "rw_inv n s \<longleftrightarrow> length (pcs s) = n \<and> (\<forall>pc \<in> set (pcs s). pc_ok pc) \<and>
     (writers s = 0 \<and> cnt (rw_lock s) = of_nat (readers s) \<or>
      writers s = 1 \<and> readers s = 0 \<and> cnt (rw_lock s) = - 1)"

lemma count_list_update:
  "i < length xs \<Longrightarrow> count_list (xs[i := y]) z + (if xs ! i = z then 1 else 0) =
     count_list xs z + (if y = z then 1 else 0)"
proof (induction xs arbitrary: i)
  case (Cons x xs)
  show ?case
  proof (cases i)
    case (Suc j)
    then show ?thesis using Cons.IH [of j] Cons.prems by auto
  qed simp
qed simp

lemma holders_set_thread:
  assumes "i < length (pcs s)"
  shows "readers (set_thread s i (l, pc)) + (if pcs s ! i = Reading then 1 else 0) =
      readers s + (if pc = Reading then 1 else 0)"
    "writers (set_thread s i (l, pc)) + (if pcs s ! i = Writing then 1 else 0) =
      writers s + (if pc = Writing then 1 else 0)"
  using count_list_update [OF assms] by (simp_all add: readers_def writers_def set_thread_def)

lemma holders_le: "readers s + writers s \<le> length (pcs s)"
proof -
  have "count_list xs Reading + count_list xs Writing \<le> length xs" for xs :: "rw_pc list"
    by (induction xs) auto
  then show ?thesis by (simp add: readers_def writers_def)
qed

lemma set_thread_sel [simp]:
  "length (pcs (set_thread s i p)) = length (pcs s)" "rw_lock (set_thread s i (l, pc)) = l"
  "i < length (pcs s) \<Longrightarrow> pcs (set_thread s i (l, pc)) ! i = pc"
  by (simp_all add: set_thread_def)

lemma set_thread_ok:
  "\<forall>pc \<in> set (pcs s). pc_ok pc \<Longrightarrow> pc_ok pc \<Longrightarrow> \<forall>pc \<in> set (pcs (set_thread s i (l, pc))). pc_ok pc"
  by (auto simp: set_thread_def dest: set_update_subset_insert [THEN subsetD])

lemma minus_one_neg: "(- 1 :: u32) <s 0"
  by (simp add: word_sless_alt)

lemma of_nat_nonneg: "n < 2147483648 \<Longrightarrow> \<not> (of_nat n :: u32) <s 0"
  by (simp add: word_sless_alt signed_of_nat signed_take_bit_int_eq_self)

text \<open>One thread's change of state, by what it does to the counter.\<close>

lemma rw_inv_set_thread:
  assumes "rw_inv n s" "i < length (pcs s)" "pc_ok pc"
    "pcs s ! i \<noteq> Reading \<and> pcs s ! i \<noteq> Writing \<and> pc \<noteq> Reading \<and> pc \<noteq> Writing \<and> c = cnt (rw_lock s) \<or>
     pcs s ! i \<noteq> Reading \<and> pcs s ! i \<noteq> Writing \<and> pc = Reading \<and> c = cnt (rw_lock s) + 1 \<and> \<not> cnt (rw_lock s) <s 0 \<or>
     pcs s ! i \<noteq> Reading \<and> pcs s ! i \<noteq> Writing \<and> pc = Writing \<and> c = - 1 \<and> cnt (rw_lock s) = 0 \<or>
     pcs s ! i = Reading \<and> pc = Outside \<and> c = cnt (rw_lock s) - 1 \<or>
     pcs s ! i = Writing \<and> pc = Outside \<and> c = cnt (rw_lock s) + 1"
    "n < 2147483648"
  shows "rw_inv n (set_thread s i (\<lparr>cnt = c\<rparr>, pc))"
proof -
  have r: "readers s + writers s < 4294967296"
    using holders_le [of s] assms(1,5) by (simp add: rw_inv_def)
  have z: "cnt (rw_lock s) = 0 \<Longrightarrow> writers s = 0 \<and> readers s = 0"
    using assms(1) r by (auto simp: rw_inv_def dest: arg_cong [of _ _ unat] simp: unat_of_nat32)
  let ?s' = "set_thread s i (\<lparr>cnt = c\<rparr>, pc)"
  define r' where "r' = readers ?s'"
  define w' where "w' = writers ?s'"
  note h = holders_set_thread [OF assms(2), of "\<lparr>cnt = c\<rparr>" pc, folded r'_def w'_def]
  have "w' = 0 \<and> c = of_nat (r') \<or> w' = 1 \<and> r' = 0 \<and> c = - 1"
    using assms(4)
  proof (elim disjE conjE)
    assume "pcs s ! i = Reading" "pc = Outside" "c = cnt (rw_lock s) - 1"
    moreover from this have "readers s = Suc (r')" "w' = writers s" using h by simp_all
    ultimately show ?thesis using assms(1) by (auto simp: rw_inv_def)
  next
    assume "pcs s ! i = Writing" "pc = Outside" "c = cnt (rw_lock s) + 1"
    moreover from this have "r' = readers s" "writers s = Suc (w')" using h by simp_all
    ultimately show ?thesis using assms(1) by (auto simp: rw_inv_def)
  next
    assume "pc = Reading" "c = cnt (rw_lock s) + 1" "\<not> cnt (rw_lock s) <s 0"
      "pcs s ! i \<noteq> Reading" "pcs s ! i \<noteq> Writing"
    moreover from this have "r' = Suc (readers s)" "w' = writers s" using h by simp_all
    ultimately show ?thesis using assms(1) minus_one_neg by (auto simp: rw_inv_def)
  next
    assume "pc = Writing" "c = - 1" "cnt (rw_lock s) = 0" "pcs s ! i \<noteq> Reading" "pcs s ! i \<noteq> Writing"
    moreover from this have "r' = readers s" "w' = Suc (writers s)" using h by simp_all
    ultimately show ?thesis using z by simp
  next
    assume "pcs s ! i \<noteq> Reading" "pcs s ! i \<noteq> Writing" "pc \<noteq> Reading" "pc \<noteq> Writing"
      "c = cnt (rw_lock s)"
    moreover from this have "r' = readers s" "w' = writers s" using h by simp_all
    ultimately show ?thesis using assms(1) by (auto simp: rw_inv_def)
  qed
  then show ?thesis
    using assms(1) set_thread_ok [OF _ assms(3), of s i "\<lparr>cnt = c\<rparr>"] by (simp add: rw_inv_def r'_def w'_def)
qed

lemma RwLock_eta: "\<lparr>cnt = cnt rwl\<rparr> = rwl"
  by (cases rwl) simp

lemma rw_inv_run_thread:
  assumes "rw_inv n s" "i < length (pcs s)" "n < 2147483648"
  shows "rw_inv n (run_thread i s)"
proof -
  obtain l pc where e: "rw_next (rw_lock s) (pcs s ! i) = (l, pc)" by force
  have ok: "pc_ok (pcs s ! i)" using assms(1,2) by (simp add: rw_inv_def)
  show ?thesis
  proof (cases "pcs s ! i = Reading \<or> pcs s ! i = Writing")
    case True
    then have "run_thread i s = s" by (auto simp: run_thread_def set_thread_def list_update_same_conv assms(2))
    then show ?thesis using assms(1) by simp
  next
    case False
    then have "pc_ok pc" and
      "pc \<noteq> Reading \<and> pc \<noteq> Writing \<and> cnt l = cnt (rw_lock s) \<or>
       pc = Reading \<and> cnt l = cnt (rw_lock s) + 1 \<and> \<not> cnt (rw_lock s) <s 0 \<or>
       pc = Writing \<and> cnt l = - 1 \<and> cnt (rw_lock s) = 0"
      using e ok by (cases "pcs s ! i"; auto simp: cnt_cas_def split: if_splits)+
    then show ?thesis
      using rw_inv_set_thread [OF assms(1,2) _ _ assms(3), of pc "cnt l"] False
      unfolding run_thread_def e RwLock_eta by auto
  qed
qed

lemma rw_inv_step:
  assumes "rw_step s s'" "rw_inv n s" "n < 2147483648"
  shows "rw_inv n s'"
  using assms(1)
proof (cases rule: rw_step.cases)
  case (rw_call i pc)
  then show ?thesis
    using rw_inv_set_thread [OF assms(2) rw_call(2) _ _ assms(3), of pc "cnt (rw_lock s)"]
    by (auto simp: RwLock_eta)
next
  case (rw_run i)
  then show ?thesis using rw_inv_run_thread [OF assms(2) rw_run(2) assms(3)] by simp
next
  case (rw_read_unlock i)
  then show ?thesis
    using rw_inv_set_thread [OF assms(2) rw_read_unlock(2) _ _ assms(3), of Outside "cnt (rw_lock s) - 1"]
    by (cases "rw_lock s") simp
next
  case (rw_write_unlock i)
  then show ?thesis
    using rw_inv_set_thread [OF assms(2) rw_write_unlock(2) _ _ assms(3), of Outside "cnt (rw_lock s) + 1"]
    by (cases "rw_lock s") simp
qed

lemma rw_reach_inv:
  assumes "rw_reach n s" "n < 2147483648"
  shows "rw_inv n s"
  using assms
proof (induction rule: rw_reach.induct)
  case (rw_start rwl)
  have "count_list (replicate n Outside) Reading = 0" "count_list (replicate n Outside) Writing = 0"
    by (simp_all add: count_list_0_iff)
  then show ?case by (simp add: rw_inv_def readers_def writers_def rwlock_init_def)
next
  case (rw_more s s')
  then show ?case using rw_inv_step by blast
qed

section \<open>Progress\<close>

lemma run_thread_at:
  assumes "i < length (pcs s)" "rw_next (rw_lock s) (pcs s ! i) = (l, pc)"
  shows "rw_lock (run_thread i s) = l" "pcs (run_thread i s) ! i = pc"
    "length (pcs (run_thread i s)) = length (pcs s)"
  using assms by (simp_all add: run_thread_def)

text \<open>From a load, two steps of the thread alone take the lock; a failed swap costs one more.\<close>

lemma runs_two:
  assumes "i < length (pcs s)" "rw_next (rw_lock s) (pcs s ! i) = (rw_lock s, pc1)"
    "rw_next (rw_lock s) pc1 = (l, pc)"
  shows "pcs ((run_thread i ^^ 2) s) ! i = pc"
proof -
  note a = run_thread_at [OF assms(1,2)]
  have "i < length (pcs (run_thread i s))" using a(3) assms(1) by simp
  from run_thread_at(2) [OF this, of l pc] show ?thesis
    using a assms(3) by (simp add: numeral_2_eq_2)
qed

lemma runs_three:
  assumes "i < length (pcs s)" "rw_next (rw_lock s) (pcs s ! i) = (rw_lock s, pc0)"
    "rw_next (rw_lock s) pc0 = (rw_lock s, pc1)" "rw_next (rw_lock s) pc1 = (l, pc)"
  shows "pcs ((run_thread i ^^ 3) s) ! i = pc"
proof -
  note a = run_thread_at [OF assms(1,2)]
  have "pcs ((run_thread i ^^ 2) (run_thread i s)) ! i = pc"
    using runs_two [of i "run_thread i s" pc1 l pc] a assms by simp
  then show ?thesis by (simp add: funpow_swap1 numeral_3_eq_3 numeral_2_eq_2)
qed

lemma reader_acquires:
  assumes "i < length (pcs s)" "\<not> cnt (rw_lock s) <s 0"
    "pcs s ! i \<in> {ReadLoad, TryLoad} \<or> (\<exists>x. pcs s ! i \<in> {ReadCas x, TryCas x})"
  shows "\<exists>k\<le>3. pcs ((run_thread i ^^ k) s) ! i = Reading"
proof -
  let ?l = "(rw_lock s)\<lparr>cnt := cnt (rw_lock s) + 1\<rparr>"
  have swap: "rw_next (rw_lock s) (ReadCas (cnt (rw_lock s))) = (?l, Reading)"
    "rw_next (rw_lock s) (TryCas (cnt (rw_lock s))) = (?l, Reading)"
    by (simp_all add: cnt_cas_def)
  have load: "rw_next (rw_lock s) ReadLoad = (rw_lock s, ReadCas (cnt (rw_lock s)))"
    "rw_next (rw_lock s) TryLoad = (rw_lock s, TryCas (cnt (rw_lock s)))"
    using assms(2) by simp_all
  have fail: "rw_next (rw_lock s) (ReadCas x) = (rw_lock s, ReadLoad)"
    "rw_next (rw_lock s) (TryCas x) = (rw_lock s, TryLoad)" if "x \<noteq> cnt (rw_lock s)" for x
    using that by (simp_all add: cnt_cas_def)
  consider "pcs s ! i = ReadLoad" | "pcs s ! i = TryLoad"
    | x where "pcs s ! i = ReadCas x" | x where "pcs s ! i = TryCas x"
    using assms(3) by auto
  then show ?thesis
  proof cases
    case 1
    then show ?thesis using runs_two [OF assms(1), of _ ?l Reading] load(1) swap(1)
      by (intro exI [of _ 2]) simp
  next
    case 2
    then show ?thesis using runs_two [OF assms(1), of _ ?l Reading] load(2) swap(2)
      by (intro exI [of _ 2]) simp
  next
    case (3 x)
    show ?thesis
    proof (cases "x = cnt (rw_lock s)")
      case True
      then show ?thesis using run_thread_at(2) [OF assms(1)] 3 swap(1) by (intro exI [of _ 1]) simp
    next
      case False
      then show ?thesis using runs_three [OF assms(1) _ load(1) swap(1)] 3 fail(1)
        by (intro exI [of _ 3]) simp
    qed
  next
    case (4 x)
    show ?thesis
    proof (cases "x = cnt (rw_lock s)")
      case True
      then show ?thesis using run_thread_at(2) [OF assms(1)] 4 swap(2) by (intro exI [of _ 1]) simp
    next
      case False
      then show ?thesis using runs_three [OF assms(1) _ load(2) swap(2)] 4 fail(2)
        by (intro exI [of _ 3]) simp
    qed
  qed
qed

lemma writer_acquires:
  assumes "i < length (pcs s)" "cnt (rw_lock s) = 0" "pcs s ! i \<in> {WriteLoad, WriteCas}"
  shows "\<exists>k\<le>3. pcs ((run_thread i ^^ k) s) ! i = Writing"
proof -
  let ?l = "(rw_lock s)\<lparr>cnt := - 1\<rparr>"
  have swap: "rw_next (rw_lock s) WriteCas = (?l, Writing)"
    using assms(2) by (simp add: cnt_cas_def)
  have load: "rw_next (rw_lock s) WriteLoad = (rw_lock s, WriteCas)"
    using assms(2) by simp
  consider "pcs s ! i = WriteLoad" | "pcs s ! i = WriteCas" using assms(3) by auto
  then show ?thesis
  proof cases
    case 1
    then show ?thesis using runs_two [OF assms(1) _ swap] load by (intro exI [of _ 2]) simp
  next
    case 2
    then show ?thesis using run_thread_at(2) [OF assms(1)] swap by (intro exI [of _ 1]) simp
  qed
qed

section \<open>Properties\<close>

text \<open>
  C17. Mutual exclusion: in every state that fewer than \<open>2^31\<close> threads reach on an initialised
  lock, there is at most one writer, there are no readers beside a writer, and the counter is -1
  or the number of readers.
\<close>

theorem rw_exclusion:
  assumes "rw_reach n s" "n < 2147483648"
  shows "writers s = 0 \<and> sint (cnt (rw_lock s)) = int (readers s) \<or>
    writers s = 1 \<and> readers s = 0 \<and> sint (cnt (rw_lock s)) = - 1"
proof -
  have i: "rw_inv n s" by (rule rw_reach_inv [OF assms])
  then have "readers s < 2147483648" using holders_le [of s] assms(2) by (simp add: rw_inv_def)
  then show ?thesis using i by (auto simp: rw_inv_def signed_of_nat signed_take_bit_int_eq_self)
qed

text \<open>
  C38. The lock is not lost: a thread in one of the read functions that runs by itself holds the
  lock after at most three steps when no writer holds it, and so does a thread in the write
  function when nobody holds it; while a writer holds it, the read lock spins without touching
  anything and the try-lock returns without the lock.
\<close>

theorem rw_progress:
  assumes "rw_reach n s" "n < 2147483648" "i < n"
  shows "(writers s = 0 \<and> (pcs s ! i \<in> {ReadLoad, TryLoad} \<or> (\<exists>x. pcs s ! i \<in> {ReadCas x, TryCas x})) \<longrightarrow>
     (\<exists>k\<le>3. pcs ((run_thread i ^^ k) s) ! i = Reading)) \<and>
   (readers s = 0 \<and> writers s = 0 \<and> pcs s ! i \<in> {WriteLoad, WriteCas} \<longrightarrow>
     (\<exists>k\<le>3. pcs ((run_thread i ^^ k) s) ! i = Writing)) \<and>
   (writers s = 1 \<longrightarrow> (pcs s ! i = ReadLoad \<longrightarrow> run_thread i s = s) \<and>
     (pcs s ! i = TryLoad \<longrightarrow> run_thread i s = set_thread s i (rw_lock s, Outside)))"
proof -
  have i: "rw_inv n s" by (rule rw_reach_inv [OF assms(1,2)])
  then have r: "readers s < 2147483648" and len: "i < length (pcs s)"
    using holders_le [of s] assms(2,3) by (simp_all add: rw_inv_def)
  have "\<not> cnt (rw_lock s) <s 0" if "writers s = 0"
    using i that of_nat_nonneg [OF r] by (auto simp: rw_inv_def)
  moreover have "cnt (rw_lock s) = 0" if "writers s = 0" "readers s = 0"
    using i that by (auto simp: rw_inv_def)
  moreover have "cnt (rw_lock s) <s 0" if "writers s = 1"
    using i that minus_one_neg by (auto simp: rw_inv_def)
  ultimately show ?thesis
    using reader_acquires [OF len] writer_acquires [OF len] len
    by (simp add: run_thread_def set_thread_def list_update_same_conv)
qed

section \<open>The hypotheses hold on a run of two threads\<close>

definition reader_and_writer :: rw_sys where
  "reader_and_writer = \<lparr>rw_lock = \<lparr>cnt = 1\<rparr>, pcs = [Reading, WriteLoad]\<rparr>"

lemma reader_and_writer_reached: "rw_reach 2 reader_and_writer"
proof -
  let ?s0 = "\<lparr>rw_lock = rwlock_init \<lparr>cnt = 7\<rparr>, pcs = replicate 2 Outside\<rparr>"
  let ?s1 = "set_thread ?s0 0 (rw_lock ?s0, ReadLoad)"
  let ?s2 = "run_thread 0 ?s1"
  let ?s3 = "run_thread 0 ?s2"
  let ?s4 = "set_thread ?s3 1 (rw_lock ?s3, WriteLoad)"
  have "rw_reach 2 ?s1"
    by (rule rw_more [OF rw_start]) (rule rw_call, simp_all)
  then have "rw_reach 2 ?s2" by (rule rw_more) (rule rw_run, simp)
  then have "rw_reach 2 ?s3" by (rule rw_more) (rule rw_run, simp add: run_thread_def)
  then have "rw_reach 2 ?s4"
    by (rule rw_more) (rule rw_call, simp_all add: run_thread_def set_thread_def numeral_2_eq_2)
  then show ?thesis
    by (simp add: reader_and_writer_def run_thread_def set_thread_def rwlock_init_def cnt_cas_def
        numeral_2_eq_2)
qed

theorem rw_exclusion_witness:
  "rw_reach 2 reader_and_writer \<and> readers reader_and_writer = 1 \<and> writers reader_and_writer = 0 \<and>
   sint (cnt (rw_lock reader_and_writer)) = 1"
  using reader_and_writer_reached rw_exclusion [OF reader_and_writer_reached]
  by (simp add: reader_and_writer_def readers_def writers_def)

text \<open>The same run, the reader gone.\<close>

definition lone_writer :: rw_sys where
  "lone_writer = set_thread reader_and_writer 0 (rwlock_read_unlock (rw_lock reader_and_writer) Reading)"

theorem rw_progress_witness:
  "\<exists>k\<le>3. pcs ((run_thread 1 ^^ k) lone_writer) ! 1 = Writing"
proof -
  have "rw_reach 2 lone_writer"
    unfolding lone_writer_def
    by (rule rw_more [OF reader_and_writer_reached], rule rw_read_unlock)
      (simp_all add: reader_and_writer_def)
  from rw_progress [OF this, of 1] show ?thesis
    by (simp add: lone_writer_def reader_and_writer_def set_thread_def readers_def writers_def)
qed

end
