(* ===== verification/Clock_Time.thy ===== *)
theory Clock_Time
  imports Prelude "HOL-Library.Signed_Division"
begin

text \<open>
  The stop watch \<open>ClockTime\<close> of \<^verbatim>\<open>clock_time.h\<close>: two clock readings, overwritten in turn, and their
  difference. A reading of the clock and of the cycle counter is a parameter of the operations.
  The floating-point figures \<open>PrintDuration\<close> prints besides and returns are left out. The build
  defines \<^verbatim>\<open>NDEBUG\<close>, so the assertion in \<open>MinusTimespec\<close> is empty.
\<close>

section \<open>Time stamps\<close>

datatype timespec = Timespec (tv_sec: int) (tv_nsec: int)

instantiation timespec :: linorder
begin

definition less_timespec :: "timespec \<Rightarrow> timespec \<Rightarrow> bool" where
  "less_timespec a b \<longleftrightarrow> tv_sec a < tv_sec b \<or> tv_sec a = tv_sec b \<and> tv_nsec a < tv_nsec b"

definition less_eq_timespec :: "timespec \<Rightarrow> timespec \<Rightarrow> bool" where
  "less_eq_timespec a b \<longleftrightarrow> tv_sec a < tv_sec b \<or> tv_sec a = tv_sec b \<and> tv_nsec a \<le> tv_nsec b"

instance
  by standard (auto simp: less_timespec_def less_eq_timespec_def intro: timespec.expand)

end

definition nanoseconds :: "timespec \<Rightarrow> int" where
  "nanoseconds t = 1000000000 * tv_sec t + tv_nsec t"

definition normal :: "timespec \<Rightarrow> bool" where
  "normal t \<longleftrightarrow> 0 \<le> tv_sec t \<and> 0 \<le> tv_nsec t \<and> tv_nsec t < 1000000000"

lemma nanoseconds_mono:
  assumes "normal a" "normal b"
  shows "a < b \<longleftrightarrow> nanoseconds a < nanoseconds b"
  using assms by (auto simp: normal_def nanoseconds_def less_timespec_def)

section \<open>The stop watch\<close>

record ClockTime =
  val0 :: timespec
  val1 :: timespec
  rdtsc0 :: u64
  rdtsc1 :: u64
  idx :: u64
  is_print_destroy :: bool

definition new_ClockTime :: "bool \<Rightarrow> ClockTime" where
  "new_ClockTime print = \<lparr>val0 = Timespec 0 0, val1 = Timespec 0 0, rdtsc0 = 0, rdtsc1 = 0, idx = 0,
     is_print_destroy = print\<rparr>"

text \<open>The cycle counter goes to \<^verbatim>\<open>rdtsc_[idx_ & 1]\<close>; the time to the cell passed, given by its index.\<close>

definition store_rdtsc :: "u64 \<Rightarrow> ClockTime \<Rightarrow> ClockTime" where
  "store_rdtsc tsc c = (if idx c AND 1 = 0 then c\<lparr>rdtsc0 := tsc\<rparr> else c\<lparr>rdtsc1 := tsc\<rparr>)"

definition GetClockTime :: "timespec \<times> u64 \<Rightarrow> bool \<Rightarrow> ClockTime \<Rightarrow> ClockTime" where
  "GetClockTime now second c =
     (let c = store_rdtsc (snd now) c
      in if second then c\<lparr>val1 := fst now\<rparr> else c\<lparr>val0 := fst now\<rparr>)"

definition GatherNow :: "timespec \<times> u64 \<Rightarrow> ClockTime \<Rightarrow> ClockTime" where
  "GatherNow now c = (let c = GetClockTime now (idx c AND 1 \<noteq> 0) c in c\<lparr>idx := idx c + 1\<rparr>)"

definition CheckUpdateLater :: "ClockTime \<Rightarrow> bool" where
  "CheckUpdateLater c =
     (if tv_sec (val1 c) < tv_sec (val0 c) then True
      else if tv_sec (val1 c) = tv_sec (val0 c) then
        (if tv_nsec (val1 c) < tv_nsec (val0 c) then True else False)
      else False)"

text \<open>The new value of \<open>tp1\<close>.\<close>

definition MinusTimespec :: "timespec \<Rightarrow> timespec \<Rightarrow> timespec" where
  "MinusTimespec tp1 tp2 =
     (if tv_sec tp1 > tv_sec tp2 then
        (if tv_nsec tp1 < tv_nsec tp2
         then Timespec (tv_sec tp1 - 1 - tv_sec tp2) (tv_nsec tp1 + (1000 * 1000 * 1000 - tv_nsec tp2))
         else Timespec (tv_sec tp1 - tv_sec tp2) (tv_nsec tp1 - tv_nsec tp2))
      else Timespec 0 (tv_nsec tp1 - tv_nsec tp2))"

text \<open>The seconds, milliseconds, microseconds and nanoseconds printed, and the object.\<close>

definition PrintDuration :: "timespec \<times> u64 \<Rightarrow> ClockTime \<Rightarrow> (int \<times> int \<times> int \<times> int) \<times> ClockTime" where
  "PrintDuration now c =
     (let c = (if CheckUpdateLater c then GetClockTime now True c else c);
          c = c\<lparr>val1 := MinusTimespec (val1 c) (val0 c)\<rparr>;
          tp = val1 c;
          ms = tv_nsec tp sdiv 1000 sdiv 1000;
          vs = (tv_nsec tp smod (1000 * 1000)) sdiv 1000;
          ns = tv_nsec tp smod 1000
      in ((tv_sec tp, ms, vs, ns), c))"

text \<open>The destructor: what it prints, if it does.\<close>

definition destroy_ClockTime :: "timespec \<times> u64 \<Rightarrow> ClockTime \<Rightarrow> (int \<times> int \<times> int \<times> int) option" where
  "destroy_ClockTime now c = (if is_print_destroy c then Some (fst (PrintDuration now c)) else None)"

text \<open>The cycle counter from its two halves, which the processor delivers.\<close>

definition Rdtsc :: "u32 \<Rightarrow> u32 \<Rightarrow> u64" where
  "Rdtsc lo hi = (push_bit 32 (ucast hi) OR ucast lo)"

section \<open>Differences\<close>

lemma CheckUpdateLater_less: "CheckUpdateLater c \<longleftrightarrow> val1 c < val0 c"
  by (simp add: CheckUpdateLater_def less_timespec_def)

lemma MinusTimespec_spec:
  assumes "normal a" "normal b" "b \<le> a"
  shows "nanoseconds (MinusTimespec a b) = nanoseconds a - nanoseconds b" "normal (MinusTimespec a b)"
  using assms by (auto simp: MinusTimespec_def nanoseconds_def normal_def less_eq_timespec_def)

definition shown :: "int \<times> int \<times> int \<times> int \<Rightarrow> int" where
  "shown d = (case d of (s, ms, us, ns) \<Rightarrow> 1000000000 * s + 1000000 * ms + 1000 * us + ns)"

lemma signed_nonneg:
  assumes "0 \<le> (n :: int)" "0 < k"
  shows "n sdiv k = n div k" "n smod k = n mod k"
  using assms by (cases "n = 0"; simp add: signed_divide_int_def signed_modulo_int_def sgn_if)+

lemma shown_split:
  assumes "0 \<le> n"
  shows "shown (s, n sdiv 1000 sdiv 1000, (n smod (1000 * 1000)) sdiv 1000, n smod 1000) =
    1000000000 * s + n"
proof -
  define m where "m = n mod 1000000"
  have n0: "0 \<le> n div 1000" "0 \<le> m" using assms by (simp_all add: m_def)
  have e1: "n sdiv 1000 sdiv 1000 = n div 1000000"
    using signed_nonneg(1) [OF assms, of 1000] signed_nonneg(1) [OF n0(1), of 1000]
      zdiv_zmult2_eq [of 1000 n 1000] by simp
  have e2: "(n smod (1000 * 1000)) sdiv 1000 = m div 1000"
    using signed_nonneg(2) [OF assms, of 1000000] signed_nonneg(1) [OF n0(2), of 1000]
    by (simp add: m_def)
  have e3: "n smod 1000 = m mod 1000"
    unfolding m_def using signed_nonneg(2) [OF assms, of 1000] mod_mod_cancel [of 1000 1000000 n] by simp
  have s1: "1000000 * (n div 1000000) + m = n" unfolding m_def by (rule mult_div_mod_eq)
  have s2: "1000 * (m div 1000) + m mod 1000 = m" by (rule mult_div_mod_eq)
  show ?thesis
    unfolding shown_def e1 e2 e3 prod.case using s1 s2 by linarith
qed

lemma PrintDuration_shows:
  assumes "normal (val0 c)" "normal (if val1 c < val0 c then fst now else val1 c)"
    "val0 c \<le> (if val1 c < val0 c then fst now else val1 c)"
  shows "shown (fst (PrintDuration now c)) =
    nanoseconds (if val1 c < val0 c then fst now else val1 c) - nanoseconds (val0 c)"
proof -
  let ?b = "if val1 c < val0 c then fst now else val1 c"
  note m = MinusTimespec_spec [OF assms(2,1,3)]
  have "fst (PrintDuration now c) = (let tp = MinusTimespec ?b (val0 c) in
      (tv_sec tp, tv_nsec tp sdiv 1000 sdiv 1000, (tv_nsec tp smod (1000 * 1000)) sdiv 1000,
       tv_nsec tp smod 1000))"
    by (simp add: PrintDuration_def CheckUpdateLater_less GetClockTime_def store_rdtsc_def Let_def)
  then show ?thesis
    using shown_split [of "tv_nsec (MinusTimespec ?b (val0 c))"] m
    by (simp add: Let_def normal_def nanoseconds_def)
qed

text \<open>
  \<open>PrintDuration\<close> leaves the difference in place of the second reading, so the next one, in the
  destructor for instance, takes a new reading when the difference is less than the first reading:
  after two readings at \<open>a\<close> and \<open>b\<close> it shows the time up to itself.
\<close>

lemma PrintDuration_again:
  assumes n: "normal (val0 c)" "normal (val1 c)" "val0 c \<le> val1 c" "is_print_destroy c"
    and later: "normal (fst now')" "val0 c \<le> fst now'" "MinusTimespec (val1 c) (val0 c) < val0 c"
  shows "\<exists>d. destroy_ClockTime now' (snd (PrintDuration now c)) = Some d \<and>
    shown d = nanoseconds (fst now') - nanoseconds (val0 c)"
proof -
  have "\<not> val1 c < val0 c" using n(3) by (simp add: not_less)
  then have c1: "val0 (snd (PrintDuration now c)) = val0 c" "is_print_destroy (snd (PrintDuration now c))"
    "val1 (snd (PrintDuration now c)) = MinusTimespec (val1 c) (val0 c)"
    using n(4) by (simp_all add: PrintDuration_def CheckUpdateLater_less Let_def)
  show ?thesis using PrintDuration_shows [of "snd (PrintDuration now c)" now'] n(1) later c1
    by (simp add: destroy_ClockTime_def)
qed

lemma Rdtsc_value: "uint (Rdtsc lo hi) = 4294967296 * uint hi + uint lo"
proof -
  have "push_bit 32 (uint hi) AND uint lo = 0"
    by (rule bit_eqI) (auto simp: bit_and_iff bit_push_bit_iff bit_uint_iff)
  then have "push_bit 32 (uint hi) OR uint lo = push_bit 32 (uint hi) + uint lo"
    by (simp add: disjunctive_add_eq_or)
  moreover have "uint (Rdtsc lo hi) = push_bit 32 (uint hi) OR uint lo"
    unfolding Rdtsc_def
    by (rule bit_eqI) (auto simp: bit_uint_iff bit_or_iff bit_push_bit_iff bit_unsigned_iff dest: bit_imp_le_length)
  ultimately show ?thesis by (simp add: push_bit_eq_mult)
qed

section \<open>Properties\<close>

text \<open>
  The stop watch measures: after one reading at \<open>a\<close>, printing at a later time \<open>b\<close> shows the
  nanoseconds from \<open>a\<close> to \<open>b\<close>, and after two readings at \<open>a\<close> and \<open>b\<close> it shows that difference
  whenever it is printed; seconds, milliseconds, microseconds and nanoseconds are in range.
\<close>

theorem clock_measures:
  assumes "normal (fst a)" "normal (fst b)" "Timespec 0 0 < fst a" "fst a \<le> fst b"
  shows "shown (fst (PrintDuration b (GatherNow a (new_ClockTime p)))) =
      nanoseconds (fst b) - nanoseconds (fst a) \<and>
    shown (fst (PrintDuration later (GatherNow b (GatherNow a (new_ClockTime p))))) =
      nanoseconds (fst b) - nanoseconds (fst a)"
proof -
  have one: "val0 (GatherNow a (new_ClockTime p)) = fst a" "val1 (GatherNow a (new_ClockTime p)) = Timespec 0 0"
    by (simp_all add: GatherNow_def GetClockTime_def store_rdtsc_def new_ClockTime_def Let_def)
  have two: "val0 (GatherNow b (GatherNow a (new_ClockTime p))) = fst a"
    "val1 (GatherNow b (GatherNow a (new_ClockTime p))) = fst b"
    by (simp_all add: GatherNow_def GetClockTime_def store_rdtsc_def new_ClockTime_def Let_def)
  show ?thesis
    using PrintDuration_shows [of "GatherNow a (new_ClockTime p)" b]
      PrintDuration_shows [of "GatherNow b (GatherNow a (new_ClockTime p))" later] assms
    by (simp add: one two not_less [symmetric])
qed

theorem clock_measures_witness:
  "shown (fst (PrintDuration (Timespec 12 5, 0) (GatherNow (Timespec 10 999999999, 0) (new_ClockTime False)))) =
    1000000006"
  using clock_measures [of "(Timespec 10 999999999, 0)" "(Timespec 12 5, 0)" False]
  by (simp add: normal_def nanoseconds_def less_timespec_def less_eq_timespec_def)

end
