(* ===== verification/Util_Str.thy ===== *)
theory Util_Str
  imports Prelude
begin

text \<open>
  The string functions of \<^verbatim>\<open>util.cpp\<close>: trimming, splitting, \<open>key = value\<close> lines. A \<^verbatim>\<open>std::string\<close> is
  a list of characters, a position \<^verbatim>\<open>npos\<close> is \<open>None\<close>. Strings passed by reference are returned.
\<close>

section \<open>The members of \<open>std::string\<close> the functions use\<close>

definition find_first_not_of :: "string \<Rightarrow> string \<Rightarrow> nat option" where
  "find_first_not_of s cs =
     (let n = length (takeWhile (\<lambda>c. c \<in> set cs) s) in if n < length s then Some n else None)"

definition find_last_not_of :: "string \<Rightarrow> string \<Rightarrow> nat option" where
  "find_last_not_of s cs =
     (let n = length (takeWhile (\<lambda>c. c \<in> set cs) (rev s))
      in if n < length s then Some (length s - 1 - n) else None)"

definition str_find :: "string \<Rightarrow> char \<Rightarrow> nat option" where
  "str_find s c = (let n = length (takeWhile (\<lambda>x. x \<noteq> c) s) in if n < length s then Some n else None)"

section \<open>The functions\<close>

text \<open>\<^verbatim>\<open>" \t\n\r"\<close>\<close>

definition blanks :: string where
  "blanks = [CHR '' '', CHR 0x09, CHR 0x0A, CHR 0x0D]"

definition LTrim :: "string \<Rightarrow> string" where
  "LTrim s = (case find_first_not_of s blanks of None \<Rightarrow> [] | Some n \<Rightarrow> drop n s)"

text \<open>\<^verbatim>\<open>npos + 1\<close> wraps around to 0.\<close>

definition RTrim :: "string \<Rightarrow> string" where
  "RTrim s = take (case find_last_not_of s blanks of None \<Rightarrow> 0 | Some n \<Rightarrow> n + 1) s"

definition Trim :: "string \<Rightarrow> string" where
  "Trim s = RTrim (LTrim s)"

text \<open>The loop \<^verbatim>\<open>while (getline(ss, item, delim)) elems.push_back(item);\<close>\<close>

fun getline_loop :: "char \<Rightarrow> string \<Rightarrow> string list \<Rightarrow> string list" where
  "getline_loop delim [] elems = elems"
| "getline_loop delim (c # s) elems =
     getline_loop delim (drop (Suc (length (takeWhile (\<lambda>x. x \<noteq> delim) (c # s)))) (c # s))
       (elems @ [takeWhile (\<lambda>x. x \<noteq> delim) (c # s)])"

definition Split :: "string \<Rightarrow> char \<Rightarrow> string list \<Rightarrow> string list" where
  "Split s delim elems = getline_loop delim s elems"

text \<open>The return value, \<open>key\<close> and \<open>value\<close>.\<close>

definition GetKeyValueWithEqualSign :: "string \<Rightarrow> int \<times> string \<times> string" where
  "GetKeyValueWithEqualSign str =
     (if length str = 0 then (0, [], [])
      else if str ! 0 = CHR ''#'' \<or> str ! 0 = CHR '';'' then (0, [], [])
      else case str_find str (CHR ''='') of
        None \<Rightarrow> (0, [], [])
      | Some n \<Rightarrow>
          let key = Trim (take n str); val = Trim (drop (n + 1) str)
          in (1, key, if length val = 0 then '' '' else val))"

text \<open>The return value, \<open>str\<close> and \<open>value\<close>; \<^verbatim>\<open>ADD_ADD_WHITH_SPACE_AFTER_EQUAL\<close> is defined.\<close>

definition ReplaceValueAfterEqualSign :: "string \<Rightarrow> string \<Rightarrow> int \<times> string \<times> string" where
  "ReplaceValueAfterEqualSign str val =
     (case str_find str (CHR ''='') of
        None \<Rightarrow> (-1, str, [])
      | Some n \<Rightarrow> (0, take (n + 1) str @ CHR '' '' # val, CHR '' '' # val))"

text \<open>
  The buffer has 40960 characters; \<open>text\<close> is what \<^verbatim>\<open>vsnprintf\<close> is asked to print, and the
  \<^verbatim>\<open>std::string\<close> made from the buffer ends at the first null character.
\<close>

definition FormatStr :: "string \<Rightarrow> string" where
  "FormatStr txt = takeWhile (\<lambda>c. c \<noteq> CHR 0x00) (take 40959 txt)"

definition IsPathExist :: "(string \<Rightarrow> bool) \<Rightarrow> string \<Rightarrow> int" where
  "IsPathExist access_ok path = (if \<not> access_ok path then 0 else 1)"

section \<open>Trimming\<close>

abbreviation blank :: "char \<Rightarrow> bool" where
  "blank c \<equiv> c \<in> set blanks"

lemma LTrim_eq: "LTrim s = dropWhile blank s"
proof (cases "length (takeWhile blank s) < length s")
  case True
  then show ?thesis by (simp add: LTrim_def find_first_not_of_def Let_def dropWhile_eq_drop)
next
  case False
  then have "takeWhile blank s = s"
    using length_takeWhile_le [of blank s] by (metis le_antisym not_less takeWhile_eq_take take_all)
  then have "dropWhile blank s = []" by (metis dropWhile_eq_drop drop_all order_refl)
  then show ?thesis
    using False by (simp add: LTrim_def find_first_not_of_def Let_def del: dropWhile_eq_Nil_conv)
qed

lemma RTrim_eq: "RTrim s = rev (dropWhile blank (rev s))"
proof -
  let ?n = "length (takeWhile blank (rev s))"
  have "?n \<le> length s" using length_takeWhile_le [of blank "rev s"] by simp
  moreover have "RTrim s = take (length s - ?n) s"
    by (simp add: RTrim_def find_last_not_of_def Let_def Suc_diff_Suc)
  ultimately show ?thesis by (simp add: dropWhile_eq_drop rev_drop)
qed

lemma dropWhile_split: "\<exists>l. xs = l @ dropWhile P xs \<and> (\<forall>x \<in> set l. P x)"
  by (intro exI [of _ "takeWhile P xs"]) (auto dest: set_takeWhileD)

lemma Trim_parts:
  "\<exists>l r. s = l @ Trim s @ r \<and> (\<forall>c \<in> set l \<union> set r. blank c)"
proof -
  obtain l where l: "s = l @ LTrim s" "\<forall>c \<in> set l. blank c"
    using dropWhile_split [of s blank] by (auto simp: LTrim_eq)
  obtain r where r: "rev (LTrim s) = r @ dropWhile blank (rev (LTrim s))" "\<forall>c \<in> set r. blank c"
    using dropWhile_split [of "rev (LTrim s)" blank] by auto
  then have "LTrim s = Trim s @ rev r"
    by (metis RTrim_eq Trim_def rev_append rev_rev_ident)
  then show ?thesis using l r(2) by (intro exI [of _ l] exI [of _ "rev r"]) auto
qed

lemma Trim_ends: "Trim s = [] \<or> \<not> blank (hd (Trim s)) \<and> \<not> blank (last (Trim s))"
proof (cases "Trim s = []")
  case False
  then have ne: "dropWhile blank (rev (LTrim s)) \<noteq> []" by (simp add: Trim_def RTrim_eq)
  have "\<not> blank (last (Trim s))"
    using hd_dropWhile [OF ne] by (simp add: Trim_def RTrim_eq last_rev)
  moreover have "hd (Trim s) = hd (LTrim s)"
  proof -
    obtain r where "rev (LTrim s) = r @ dropWhile blank (rev (LTrim s))"
      using dropWhile_split [of "rev (LTrim s)" blank] by blast
    then have "LTrim s = Trim s @ rev r" by (metis RTrim_eq Trim_def rev_append rev_rev_ident)
    then show ?thesis using False by (metis hd_append2)
  qed
  moreover have "\<not> blank (hd (LTrim s))"
  proof -
    have "LTrim s \<noteq> []" using ne by auto
    then show ?thesis using hd_dropWhile [of blank s] by (simp add: LTrim_eq)
  qed
  ultimately show ?thesis by simp
qed simp

lemma Trim_id:
  assumes "s = [] \<or> \<not> blank (hd s) \<and> \<not> blank (last s)"
  shows "Trim s = s"
proof (cases s)
  case (Cons c cs)
  then have "LTrim s = s" using assms by (simp add: LTrim_eq)
  moreover have "\<not> blank (hd (rev s))" unfolding hd_rev using Cons assms by blast
  then have "dropWhile blank (rev s) = rev s" by (simp add: dropWhile_eq_self_iff)
  ultimately show ?thesis by (simp add: Trim_def RTrim_eq)
qed (simp add: Trim_def LTrim_eq RTrim_eq)

lemma Trim_pad:
  assumes "\<forall>c \<in> set l. blank c" "\<forall>c \<in> set r. blank c"
  shows "Trim (l @ s @ r) = Trim s"
proof -
  have a: "dropWhile blank (l @ xs) = dropWhile blank xs" for xs using assms(1) by (simp add: dropWhile_append2)
  have b: "RTrim (xs @ r) = RTrim xs" for xs
    using assms(2) dropWhile_append2 [of "rev r" blank "rev xs"] by (simp add: RTrim_eq)
  show ?thesis
  proof (cases "\<forall>c \<in> set s. blank c")
    case True
    then have "LTrim (l @ s @ r) = []" "LTrim s = []"
      using assms by (auto simp: LTrim_eq dropWhile_eq_Nil_conv)
    then show ?thesis by (simp add: Trim_def)
  next
    case False
    then have "LTrim (l @ s @ r) = LTrim s @ r" by (auto simp: LTrim_eq a dropWhile_append1)
    then show ?thesis by (simp add: Trim_def b)
  qed
qed

lemma Trim_Trim: "Trim (Trim s) = Trim s"
  by (rule Trim_id) (rule Trim_ends)

section \<open>Splitting and searching\<close>

lemma getline_loop_unfold:
  "s \<noteq> [] \<Longrightarrow> getline_loop d s es =
    getline_loop d (drop (Suc (length (takeWhile (\<lambda>x. x \<noteq> d) s))) s) (es @ [takeWhile (\<lambda>x. x \<noteq> d) s])"
  by (cases s) simp_all

lemma takeWhile_field: "d \<notin> set f \<Longrightarrow> takeWhile (\<lambda>x. x \<noteq> d) (f @ d # s) = f"
  by (induction f) auto

lemma takeWhile_no_delim: "d \<notin> set f \<Longrightarrow> takeWhile (\<lambda>x. x \<noteq> d) f = f"
  by (induction f) auto

lemma getline_loop_field:
  "d \<notin> set f \<Longrightarrow> getline_loop d (f @ d # s) es = getline_loop d s (es @ [f])"
  by (subst getline_loop_unfold) (simp_all add: takeWhile_field)

lemma getline_loop_last:
  "d \<notin> set f \<Longrightarrow> f \<noteq> [] \<Longrightarrow> getline_loop d f es = es @ [f]"
  by (subst getline_loop_unfold) (simp_all add: takeWhile_no_delim)

lemma getline_loop_fields:
  "\<forall>f \<in> set fs. d \<notin> set f \<Longrightarrow>
   getline_loop d (concat (map (\<lambda>f. f @ [d]) fs) @ s) es = getline_loop d s (es @ fs)"
  by (induction fs arbitrary: es) (simp_all add: getline_loop_field)

lemma str_find_at: "c \<notin> set pre \<Longrightarrow> str_find (pre @ c # s) c = Some (length pre)"
  by (simp add: str_find_def Let_def takeWhile_field)

lemma str_find_Some:
  assumes "str_find s c = Some n"
  shows "\<exists>pre post. s = pre @ c # post \<and> c \<notin> set pre \<and> length pre = n"
proof -
  have n: "n = length (takeWhile (\<lambda>x. x \<noteq> c) s)" "n < length s"
    using assms by (auto simp: str_find_def Let_def split: if_splits)
  then have "s ! n = c" using nth_length_takeWhile by (metis (mono_tags, lifting))
  moreover have "take n s = takeWhile (\<lambda>x. x \<noteq> c) s" using n(1) takeWhile_eq_take by metis
  moreover have "s = take n s @ s ! n # drop (Suc n) s" using n(2) by (rule id_take_nth_drop)
  ultimately show ?thesis using n(1)
    by (intro exI [of _ "take n s"] exI [of _ "drop (Suc n) s"]) (auto dest: set_takeWhileD)
qed

section \<open>Key and value\<close>

definition key_value :: "string \<Rightarrow> string" where
  "key_value v = (if Trim v = [] then '' '' else Trim v)"

lemma GetKeyValue_at:
  assumes "CHR ''='' \<notin> set pre" "pre = [] \<or> hd pre \<notin> {CHR ''#'', CHR '';''}"
  shows "GetKeyValueWithEqualSign (pre @ CHR ''='' # v) = (1, Trim pre, key_value v)"
  using assms by (cases pre) (auto simp: GetKeyValueWithEqualSign_def str_find_at Let_def key_value_def
      str_find_at [of _ "_ # _", simplified] str_find_at [of _ "[]", simplified])

lemma GetKeyValue_cases:
  assumes "GetKeyValueWithEqualSign s = (1, k, v)"
  shows "\<exists>pre w. s = pre @ CHR ''='' # w \<and> CHR ''='' \<notin> set pre \<and>
    (pre = [] \<or> hd pre \<notin> {CHR ''#'', CHR '';''}) \<and> k = Trim pre \<and> v = key_value w"
proof -
  have ne: "s \<noteq> []" and h: "s ! 0 \<notin> {CHR ''#'', CHR '';''}"
    using assms by (auto simp: GetKeyValueWithEqualSign_def split: if_splits)
  obtain n where n: "str_find s (CHR ''='') = Some n"
    using assms ne h by (auto simp: GetKeyValueWithEqualSign_def split: option.splits)
  then obtain pre w where s: "s = pre @ CHR ''='' # w" "CHR ''='' \<notin> set pre"
    using str_find_Some by blast
  have "pre = [] \<or> hd pre \<notin> {CHR ''#'', CHR '';''}" using h s(1) by (cases pre) auto
  with GetKeyValue_at [OF s(2) this, of w] assms s show ?thesis by auto
qed

section \<open>Properties\<close>

text \<open>
  \<open>Trim\<close> removes exactly the blanks at the two ends: the string is its result with blanks
  around it, the result neither starts nor ends with one, and it is the only such string.
\<close>

theorem Trim_spec:
  "(\<exists>l r. s = l @ Trim s @ r \<and> (\<forall>c \<in> set l \<union> set r. blank c)) \<and>
   (Trim s = [] \<or> \<not> blank (hd (Trim s)) \<and> \<not> blank (last (Trim s))) \<and>
   (\<forall>l t r. s = l @ t @ r \<and> (\<forall>c \<in> set l \<union> set r. blank c) \<and>
     (t = [] \<or> \<not> blank (hd t) \<and> \<not> blank (last t)) \<longrightarrow> t = Trim s)"
proof (intro conjI allI impI)
  show "\<exists>l r. s = l @ Trim s @ r \<and> (\<forall>c \<in> set l \<union> set r. blank c)" by (rule Trim_parts)
  show "Trim s = [] \<or> \<not> blank (hd (Trim s)) \<and> \<not> blank (last (Trim s))" by (rule Trim_ends)
  fix l t r
  assume "s = l @ t @ r \<and> (\<forall>c \<in> set l \<union> set r. blank c) \<and>
     (t = [] \<or> \<not> blank (hd t) \<and> \<not> blank (last t))"
  then show "t = Trim s" using Trim_pad [of l r t] Trim_id [of t] by auto
qed

text \<open>
  \<open>Split\<close> gives back the fields a string was put together from: those that are followed by
  the delimiter, empty ones included, and a last one without it when it is not empty; they are
  appended to the vector passed in.
\<close>

theorem Split_fields:
  assumes "\<forall>f \<in> set fs. d \<notin> set f" "d \<notin> set rest"
  shows "Split (concat (map (\<lambda>f. f @ [d]) fs) @ rest) d elems =
    elems @ fs @ (if rest = [] then [] else [rest])"
  using assms by (simp add: Split_def getline_loop_fields getline_loop_last)

text \<open>
  Replacing the value of a \<open>key = value\<close> line and reading it back gives the key the line had
  and the new value without the blanks around it (one blank for an empty one).
\<close>

theorem replace_then_get:
  assumes "GetKeyValueWithEqualSign line = (1, k, v)"
  shows "\<exists>line' w'. ReplaceValueAfterEqualSign line w = (0, line', w') \<and>
    GetKeyValueWithEqualSign line' = (1, k, if Trim w = [] then '' '' else Trim w)"
proof -
  obtain pre u where p: "line = pre @ CHR ''='' # u" "CHR ''='' \<notin> set pre"
    "pre = [] \<or> hd pre \<notin> {CHR ''#'', CHR '';''}" "k = Trim pre"
    using GetKeyValue_cases [OF assms] by blast
  have "Trim (CHR '' '' # w) = Trim w" using Trim_pad [of "'' ''" "[]" w] by (simp add: blanks_def)
  then have "GetKeyValueWithEqualSign (pre @ CHR ''='' # CHR '' '' # w) = (1, k, key_value w)"
    using GetKeyValue_at [OF p(2,3), of "CHR '' '' # w"] p(4) by (simp add: key_value_def)
  then show ?thesis
    by (simp add: ReplaceValueAfterEqualSign_def p(1) str_find_at [OF p(2)] key_value_def)
qed

section \<open>The hypotheses hold on concrete strings\<close>

theorem Split_fields_witness: "Split ''show  core '' CHR '' '' [''x''] = [''x'', ''show'', '''', ''core'']"
  using Split_fields [of "[''show'', '''', ''core'']" "CHR '' ''" "[]" "[''x'']"] by simp

lemma sample_line: "GetKeyValueWithEqualSign ''is_gzip = true'' = (1, ''is_gzip'', ''true'')"
  by (simp add: GetKeyValueWithEqualSign_def str_find_def Trim_def LTrim_eq RTrim_eq blanks_def)

theorem replace_then_get_witness:
  "\<exists>line' w'. ReplaceValueAfterEqualSign ''is_gzip = true'' ''false'' = (0, line', w') \<and>
    GetKeyValueWithEqualSign line' = (1, ''is_gzip'', ''false'')"
  using replace_then_get [OF sample_line, of "''false''"]
  by (simp add: Trim_def LTrim_eq RTrim_eq blanks_def)

theorem Trim_spec_witness: "Trim ''  a b '' = ''a b''"
proof -
  have "''  a b '' = ''  '' @ ''a b'' @ '' ''" by simp
  moreover have "(\<forall>c \<in> set ''  '' \<union> set '' ''. blank c) \<and>
      (''a b'' = [] \<or> \<not> blank (hd ''a b'') \<and> \<not> blank (last ''a b''))"
    by (simp add: blanks_def)
  ultimately have "''a b'' = Trim ''  a b ''"
    using Trim_spec [of "''  a b ''"] by blast
  then show ?thesis by simp
qed

end
