(* ===== verification/Rte.thy ===== *)
theory Rte
  imports Util_Str
begin

text \<open>
  The run-time settings of \<^verbatim>\<open>rte.cpp\<close>: defaults, overridden by the lines of the file \<^verbatim>\<open>.config\<close>. The
  parameters are the number of processors \<^verbatim>\<open>sysconf\<close> reports and the file's contents, \<open>None\<close> when
  it cannot be opened. \<open>fgets\<close>, \<open>atoi\<close> and the conversion of a character array to a
  \<^verbatim>\<open>std::string\<close> are modelled as the C standard defines them.
\<close>

section \<open>Standard library functions\<close>

text \<open>
  One \<^verbatim>\<open>fgets\<close> into a buffer of \<open>n + 1\<close> characters: at most \<open>n\<close> characters, up to and including a
  newline; the characters stored and the rest of the file.
\<close>

fun fgets :: "nat \<Rightarrow> string \<Rightarrow> string \<times> string" where
  "fgets 0 s = ([], s)"
| "fgets (Suc n) [] = ([], [])"
| "fgets (Suc n) (c # s) =
     (if c = CHR 0x0A then ([c], s) else case fgets n s of (b, r) \<Rightarrow> (c # b, r))"

lemma fgets_rest: "fgets n s = (b, r) \<Longrightarrow> s = b @ r"
  by (induction n s arbitrary: b r rule: fgets.induct) (auto split: if_splits prod.splits)

lemma fgets_progress: "0 < n \<Longrightarrow> s \<noteq> [] \<Longrightarrow> fst (fgets n s) \<noteq> []"
  by (cases n; cases s) (auto split: prod.splits)

text \<open>\<^verbatim>\<open>std::string(buf)\<close> ends at the first null character.\<close>

definition c_string :: "string \<Rightarrow> string" where
  "c_string b = takeWhile (\<lambda>c. c \<noteq> CHR 0x00) b"

definition isspace :: "char \<Rightarrow> bool" where
  "isspace c \<longleftrightarrow> c = CHR '' '' \<or> 9 \<le> (of_char c :: nat) \<and> of_char c \<le> (13 :: nat)"

definition isdigit :: "char \<Rightarrow> bool" where
  "isdigit c \<longleftrightarrow> 48 \<le> (of_char c :: nat) \<and> of_char c \<le> (57 :: nat)"

fun digits_value :: "int \<Rightarrow> string \<Rightarrow> int" where
  "digits_value acc [] = acc"
| "digits_value acc (c # s) = digits_value (10 * acc + (of_char c - 48)) s"

text \<open>\<open>None\<close> is a value outside the range of \<^verbatim>\<open>int\<close>, for which \<^verbatim>\<open>atoi\<close> is undefined.\<close>

definition atoi :: "string \<Rightarrow> int option" where
  "atoi s =
     (let s = dropWhile isspace s;
          neg = (s \<noteq> [] \<and> hd s = CHR ''-'');
          s = (if s \<noteq> [] \<and> (hd s = CHR ''-'' \<or> hd s = CHR ''+'') then tl s else s);
          v = digits_value 0 (takeWhile isdigit s);
          v = (if neg then - v else v)
      in if - 2147483648 \<le> v \<and> v < 2147483648 then Some v else None)"

section \<open>The settings\<close>

record Rte =
  core_num :: int
  packet_core_num :: int
  logger_core_num :: int
  is_gzip :: bool
  pcap_file :: string

text \<open>The body of the loop, on the line in \<open>buf\<close>.\<close>

definition config_line :: "string \<Rightarrow> Rte \<Rightarrow> Rte option" where
  "config_line buf rte =
     (let line = Trim (c_string buf) in
      case GetKeyValueWithEqualSign line of (ret, key, val) \<Rightarrow>
        if ret \<noteq> 0 then
          (if key = ''packet_core_num'' then do { n \<leftarrow> atoi val; Some (rte\<lparr>packet_core_num := n\<rparr>) }
           else if key = ''logger_core_num'' then do { n \<leftarrow> atoi val; Some (rte\<lparr>logger_core_num := n\<rparr>) }
           else if key = ''is_gzip'' then
             (if val = ''true'' \<or> val = ''TRUE'' then Some (rte\<lparr>is_gzip := True\<rparr>)
              else Some (rte\<lparr>is_gzip := False\<rparr>))
           else if key = ''pcap_file'' then Some (rte\<lparr>pcap_file := val\<rparr>)
           else Some rte)
        else Some rte)"

text \<open>\<^verbatim>\<open>while (fgets(buf, sizeof(buf), f))\<close> with 1024 characters of \<^verbatim>\<open>buf\<close>.\<close>

function config_loop :: "string \<Rightarrow> Rte \<Rightarrow> Rte option" where
  "config_loop f rte =
     (if f = [] then Some rte
      else do {
        rte \<leftarrow> config_line (fst (fgets 1023 f)) rte;
        config_loop (snd (fgets 1023 f)) rte })"
  by pat_completeness auto
termination
proof (relation "measure (\<lambda>(f, rte). length f)")
  fix f :: string and rte x :: Rte
  assume ne: "f \<noteq> []"
  obtain b r where br: "fgets 1023 f = (b, r)" by force
  have "b \<noteq> []" using fgets_progress [of 1023 f] ne br by simp
  moreover have "f = b @ r" by (rule fgets_rest [OF br])
  ultimately show "((snd (fgets 1023 f), x), f, rte) \<in> measure (\<lambda>(f, rte). length f)"
    using br by (cases b) auto
qed simp

declare config_loop.simps [simp del]

definition default_Rte :: "int \<Rightarrow> Rte" where
  "default_Rte ncpu = \<lparr>core_num = ncpu, packet_core_num = 8, logger_core_num = 1, is_gzip = False,
     pcap_file = ''./test.pcap''\<rparr>"

definition new_Rte :: "int \<Rightarrow> string option \<Rightarrow> Rte option" where
  "new_Rte ncpu config =
     (case config of None \<Rightarrow> Some (default_Rte ncpu) | Some f \<Rightarrow> config_loop f (default_Rte ncpu))"

section \<open>Lines\<close>

text \<open>A line fits the buffer when it has at most 1022 characters before its newline.\<close>

definition line_ok :: "string \<Rightarrow> bool" where
  "line_ok l \<longleftrightarrow> length l \<le> 1022 \<and> CHR 0x0A \<notin> set l \<and> CHR 0x00 \<notin> set l"

fun config_lines :: "string list \<Rightarrow> Rte \<Rightarrow> Rte option" where
  "config_lines [] rte = Some rte"
| "config_lines (l # ls) rte = do { rte \<leftarrow> config_line l rte; config_lines ls rte }"

lemma fgets_line:
  "CHR 0x0A \<notin> set l \<Longrightarrow> length l < n \<Longrightarrow> fgets n (l @ CHR 0x0A # s) = (l @ [CHR 0x0A], s)"
  by (induction n "l @ CHR 0x0A # s" arbitrary: l rule: fgets.induct) (auto simp: Cons_eq_append_conv)

lemma fgets_end: "CHR 0x0A \<notin> set l \<Longrightarrow> length l \<le> n \<Longrightarrow> fgets n l = (l, [])"
  by (induction n l rule: fgets.induct) auto

lemma fgets_full: "CHR 0x0A \<notin> set l \<Longrightarrow> length l = n \<Longrightarrow> fgets n (l @ s) = (l, s)"
  by (induction n "l @ s" arbitrary: l rule: fgets.induct) (auto simp: Cons_eq_append_conv)

lemma c_string_id: "CHR 0x00 \<notin> set l \<Longrightarrow> c_string l = l"
  by (induction l) (auto simp: c_string_def)

text \<open>The newline that \<open>fgets\<close> leaves at the end is trimmed.\<close>

lemma config_line_newline:
  assumes "CHR 0x00 \<notin> set l"
  shows "config_line (l @ [CHR 0x0A]) rte = config_line l rte"
proof -
  have "Trim (l @ [CHR 0x0A]) = Trim l"
    using Trim_pad [of "[]" "[CHR 0x0A]" l] by (simp add: blanks_def)
  then show ?thesis
    using assms c_string_id [of l] c_string_id [of "l @ [CHR 0x0A]"] by (simp add: config_line_def)
qed

lemma config_loop_lines:
  assumes "\<forall>l \<in> set ls. line_ok l"
  shows "config_loop (concat (map (\<lambda>l. l @ [CHR 0x0A]) ls) @ s) rte =
    do { rte \<leftarrow> config_lines ls rte; config_loop s rte }"
  using assms
proof (induction ls arbitrary: rte)
  case (Cons l ls)
  let ?rest = "concat (map (\<lambda>l. l @ [CHR 0x0A]) ls) @ s"
  have l: "CHR 0x0A \<notin> set l" "length l < 1023" "CHR 0x00 \<notin> set l"
    using Cons.prems by (auto simp: line_ok_def)
  have "fgets 1023 (l @ CHR 0x0A # ?rest) = (l @ [CHR 0x0A], ?rest)" by (rule fgets_line [OF l(1,2)])
  then have "config_loop (l @ CHR 0x0A # ?rest) rte =
      do { rte \<leftarrow> config_line l rte; config_loop ?rest rte }"
    by (subst config_loop.simps) (simp add: config_line_newline [OF l(3)])
  then show ?case using Cons by (cases "config_line l rte") simp_all
qed simp

lemma config_loop_nil [simp]: "config_loop [] rte = Some rte"
  by (simp add: config_loop.simps)

text \<open>Lines without effect: blank ones, comments, lines without an equals sign.\<close>

definition ignored_line :: "string \<Rightarrow> bool" where
  "ignored_line l \<longleftrightarrow> Trim l = [] \<or> hd (Trim l) \<in> {CHR ''#'', CHR '';''} \<or> CHR ''='' \<notin> set l"

lemma set_Trim: "set (Trim s) \<subseteq> set s"
  using Trim_parts [of s] by (metis Un_iff set_append subsetI)

lemma config_line_ignored:
  assumes "ignored_line l" "CHR 0x00 \<notin> set l"
  shows "config_line l rte = Some rte"
proof -
  have "fst (GetKeyValueWithEqualSign (Trim l)) = 0"
  proof (cases "CHR ''='' \<notin> set l")
    case True
    then have "takeWhile (\<lambda>x. x \<noteq> CHR ''='') (Trim l) = Trim l"
      using set_Trim [of l] by (intro takeWhile_no_delim) auto
    then have "length (takeWhile (\<lambda>x. x \<noteq> CHR ''='') (Trim l)) = length (Trim l)" by (rule arg_cong)
    then have "str_find (Trim l) (CHR ''='') = None" by (simp only: str_find_def Let_def) simp
    then show ?thesis by (simp add: GetKeyValueWithEqualSign_def)
  next
    case False
    then show ?thesis
      using assms(1) by (cases "Trim l") (auto simp: ignored_line_def GetKeyValueWithEqualSign_def)
  qed
  then show ?thesis
    by (cases "GetKeyValueWithEqualSign (Trim l)") (simp add: config_line_def c_string_id [OF assms(2)])
qed

lemma config_lines_filter:
  assumes "\<forall>l \<in> set ls. line_ok l"
  shows "config_lines ls rte = config_lines (filter (\<lambda>l. \<not> ignored_line l) ls) rte"
  using assms
proof (induction ls arbitrary: rte)
  case (Cons l ls)
  then have "config_line l rte = Some rte" if "ignored_line l"
    using config_line_ignored [OF that] by (simp add: line_ok_def)
  then show ?case using Cons by (cases "config_line l rte") auto
qed simp

section \<open>Writing settings\<close>

fun show_nat :: "nat \<Rightarrow> string" where
  "show_nat n = (if n < 10 then [char_of (48 + n)] else show_nat (n div 10) @ [char_of (48 + n mod 10)])"

declare show_nat.simps [simp del]

definition show_bool :: "bool \<Rightarrow> string" where
  "show_bool b = (if b then ''true'' else ''false'')"

definition setting :: "string \<Rightarrow> string \<Rightarrow> string" where
  "setting k v = k @ '' = '' @ v"

definition config_text :: "Rte \<Rightarrow> string list" where
  "config_text rte = [setting ''packet_core_num'' (show_nat (nat (packet_core_num rte))),
     setting ''logger_core_num'' (show_nat (nat (logger_core_num rte))),
     setting ''is_gzip'' (show_bool (is_gzip rte)), setting ''pcap_file'' (pcap_file rte)]"

lemma digit_char:
  assumes d: "d < 10"
  shows "isdigit (char_of (48 + d))" "(of_char (char_of (48 + d) :: char) :: int) = 48 + int d"
proof -
  from d have n: "(of_char (char_of (48 + d) :: char) :: nat) = 48 + d" by (simp add: take_bit_nat_eq_self)
  show "isdigit (char_of (48 + d))" using d n by (simp add: isdigit_def)
  have "(of_char (char_of (48 + d) :: char) :: int) = int (of_char (char_of (48 + d) :: char))"
    by (simp only: of_nat_of_char)
  then show "(of_char (char_of (48 + d) :: char) :: int) = 48 + int d" using n by simp
qed

lemma digits_value_snoc: "digits_value acc (s @ [c]) = 10 * digits_value acc s + (of_char c - 48)"
  by (induction s arbitrary: acc) simp_all

lemma show_nat_digits: "\<forall>c \<in> set (show_nat n). isdigit c" "show_nat n \<noteq> []"
proof -
  show "\<forall>c \<in> set (show_nat n). isdigit c"
    by (induction n rule: show_nat.induct) (subst show_nat.simps, auto simp: digit_char)
  show "show_nat n \<noteq> []" by (subst show_nat.simps) simp
qed

lemma show_nat_value: "digits_value 0 (show_nat n) = int n"
proof (induction n rule: show_nat.induct)
  case (1 n)
  show ?case
  proof (cases "n < 10")
    case True
    then show ?thesis by (subst show_nat.simps) (simp add: digit_char)
  next
    case False
    have "10 * int (n div 10) + int (n mod 10) = int n" by (simp add: of_nat_div of_nat_mod)
    then show ?thesis using False 1
      by (subst show_nat.simps) (simp add: digits_value_snoc digit_char)
  qed
qed

lemma digit_not: "isdigit c \<Longrightarrow> \<not> isspace c \<and> c \<noteq> CHR ''-'' \<and> c \<noteq> CHR ''+'' \<and> \<not> blank c \<and>
    c \<noteq> CHR 0x0A \<and> c \<noteq> CHR 0x00"
  by (auto simp: isdigit_def isspace_def blanks_def)

lemma atoi_show_nat: "n < 2147483648 \<Longrightarrow> atoi (show_nat n) = Some (int n)"
proof -
  assume n: "n < 2147483648"
  obtain c s where s: "show_nat n = c # s" using show_nat_digits(2) [of n] by (cases "show_nat n") auto
  then have "isdigit c" using show_nat_digits(1) [of n] by simp
  moreover have t: "takeWhile isdigit (c # s) = c # s"
    using show_nat_digits(1) [of n] s by (intro takeWhile_eq_all_conv [THEN iffD2]) simp
  ultimately show ?thesis
    using digit_not [of c] show_nat_value [of n] n unfolding s
    by (simp add: atoi_def Let_def t del: takeWhile.simps)
qed

definition plain :: "string \<Rightarrow> bool" where
  "plain v \<longleftrightarrow> v \<noteq> [] \<and> \<not> blank (hd v) \<and> \<not> blank (last v) \<and> CHR 0x0A \<notin> set v \<and> CHR 0x00 \<notin> set v"

lemma plain_show_nat: "plain (show_nat n)"
  using show_nat_digits [of n] digit_not by (auto simp: plain_def)

lemma plain_show_bool: "plain (show_bool b)"
  by (simp add: plain_def show_bool_def blanks_def)

lemma GetKeyValue_setting:
  assumes "plain k" "CHR ''='' \<notin> set k" "hd k \<notin> {CHR ''#'', CHR '';''}" "plain v"
  shows "GetKeyValueWithEqualSign (Trim (c_string (setting k v))) = (1, k, v)"
proof -
  have k: "k \<noteq> []" "v \<noteq> []" using assms(1,4) by (simp_all add: plain_def)
  have "CHR 0x00 \<notin> set (setting k v)" using assms(1,4) by (auto simp: setting_def plain_def)
  then have "c_string (setting k v) = setting k v" by (rule c_string_id)
  moreover have "Trim (setting k v) = setting k v"
    using k assms(1,4) by (intro Trim_id) (simp add: setting_def plain_def)
  moreover have "setting k v = (k @ '' '') @ CHR ''='' # CHR '' '' # v" by (simp add: setting_def)
  moreover have "Trim (k @ '' '') = k" "Trim (CHR '' '' # v) = v"
    using Trim_pad [of "[]" "'' ''" k] Trim_pad [of "'' ''" "[]" v] assms(1,4) Trim_id [of k] Trim_id [of v]
    by (simp_all add: blanks_def plain_def)
  ultimately show ?thesis
    using GetKeyValue_at [of "k @ '' ''" "CHR '' '' # v"] assms(2,3) k by (simp add: key_value_def)
qed

lemma plain_keys: "plain ''packet_core_num''" "plain ''logger_core_num''" "plain ''is_gzip''"
  "plain ''pcap_file''"
  by (simp_all add: plain_def blanks_def)

lemma config_line_settings:
  assumes "plain v"
  shows "config_line (setting ''packet_core_num'' v) rte =
      do { n \<leftarrow> atoi v; Some (rte\<lparr>packet_core_num := n\<rparr>) }"
    "config_line (setting ''logger_core_num'' v) rte =
      do { n \<leftarrow> atoi v; Some (rte\<lparr>logger_core_num := n\<rparr>) }"
    "config_line (setting ''is_gzip'' v) rte = Some (rte\<lparr>is_gzip := v \<in> {''true'', ''TRUE''}\<rparr>)"
    "config_line (setting ''pcap_file'' v) rte = Some (rte\<lparr>pcap_file := v\<rparr>)"
  using GetKeyValue_setting [OF plain_keys(1) _ _ assms] GetKeyValue_setting [OF plain_keys(2) _ _ assms]
    GetKeyValue_setting [OF plain_keys(3) _ _ assms] GetKeyValue_setting [OF plain_keys(4) _ _ assms]
  by (simp_all add: config_line_def)

lemma length_show_nat: "n < 10 ^ k \<Longrightarrow> 0 < k \<Longrightarrow> length (show_nat n) \<le> k"
proof (induction k arbitrary: n)
  case (Suc k)
  show ?case
  proof (cases "n < 10")
    case False
    then have "0 < k" using Suc.prems by (cases k) auto
    moreover have "n div 10 < 10 ^ k" using Suc.prems by (simp add: less_mult_imp_div_less mult.commute)
    ultimately have "length (show_nat (n div 10)) \<le> k" by (intro Suc.IH)
    then show ?thesis using False by (subst show_nat.simps) simp
  qed (subst show_nat.simps, simp)
qed simp

lemma config_text_ok:
  assumes "nat (packet_core_num rte) < 2147483648" "nat (logger_core_num rte) < 2147483648"
    "plain (pcap_file rte)" "length (pcap_file rte) \<le> 1000"
  shows "\<forall>l \<in> set (config_text rte). line_ok l"
  using assms length_show_nat [of "nat (packet_core_num rte)" 10]
    length_show_nat [of "nat (logger_core_num rte)" 10]
    plain_show_nat [of "nat (packet_core_num rte)"] plain_show_nat [of "nat (logger_core_num rte)"]
  by (auto simp: config_text_def line_ok_def setting_def plain_def show_bool_def)

section \<open>Properties\<close>

text \<open>
  C20. Settings written one per line are read back: whatever the processor count, the constructor
  on the file \<open>config_text\<close> writes has exactly the settings written, for non-negative counts
  of the type \<^verbatim>\<open>int\<close> and a path of at most 1000 characters without blanks at its ends. Further lines
  before, between and after that are blank, comments or have no equals sign make no difference.
\<close>

theorem config_roundtrip:
  assumes "0 \<le> packet_core_num rte" "packet_core_num rte < 2147483648"
    "0 \<le> logger_core_num rte" "logger_core_num rte < 2147483648"
    "plain (pcap_file rte)" "length (pcap_file rte) \<le> 1000"
    "\<forall>l \<in> set ls. line_ok l" "filter (\<lambda>l. \<not> ignored_line l) ls = config_text rte"
  shows "new_Rte ncpu (Some (concat (map (\<lambda>l. l @ [CHR 0x0A]) ls))) = Some (rte\<lparr>core_num := ncpu\<rparr>)"
proof -
  have "config_loop (concat (map (\<lambda>l. l @ [CHR 0x0A]) ls)) (default_Rte ncpu) =
      config_lines (config_text rte) (default_Rte ncpu)"
    using config_loop_lines [OF assms(7), of "[]"] config_lines_filter [OF assms(7)] assms(8) by simp
  also have "\<dots> = Some (rte\<lparr>core_num := ncpu\<rparr>)"
    using assms(1-5) plain_show_nat plain_show_bool
    by (simp add: config_text_def config_line_settings atoi_show_nat default_Rte_def show_bool_def)
  finally show ?thesis by (simp add: new_Rte_def)
qed

text \<open>
  A line longer than the buffer is not one line: when the first 1023 characters of a comment
  have been read, the rest of it is taken as a line of its own, and a setting in it takes effect.
\<close>

theorem config_long_comment:
  assumes "length l = 1022" "CHR 0x0A \<notin> set l" "CHR 0x00 \<notin> set l" "plain v" "length v \<le> 1000"
  shows "new_Rte ncpu (Some (CHR ''#'' # l @ setting ''pcap_file'' v)) =
    Some ((default_Rte ncpu)\<lparr>pcap_file := v\<rparr>)"
proof -
  let ?c = "CHR ''#'' # l" and ?s = "setting ''pcap_file'' v"
  have s: "CHR 0x0A \<notin> set ?s" "length ?s \<le> 1023" "?s \<noteq> []"
    using assms(4,5) by (auto simp: setting_def plain_def)
  have f: "fgets 1023 (?c @ ?s) = (?c, ?s)" "fgets 1023 ?s = (?s, [])"
    using fgets_full [of ?c 1023 ?s] fgets_end [of ?s 1023] assms(1,2) s(1,2) by simp_all
  have "hd (Trim ?c) = CHR ''#''"
  proof -
    obtain a b where ab: "?c = a @ Trim ?c @ b" "\<forall>x \<in> set a \<union> set b. blank x"
      using Trim_parts by blast
    have nb: "\<not> blank (CHR ''#'')" by (simp add: blanks_def)
    have "a = []" using ab nb by (cases a) auto
    moreover from this have "Trim ?c \<noteq> []" using ab nb by (cases b) auto
    ultimately show ?thesis using ab(1) by (cases "Trim ?c") auto
  qed
  then have "config_line ?c rte = Some rte" for rte
    using assms(3) by (intro config_line_ignored) (auto simp: ignored_line_def)
  then show ?thesis
    using f config_line_settings(4) [OF assms(4)] s(3)
    by (simp add: new_Rte_def config_loop.simps [of "CHR ''#'' # l @ ?s"] config_loop.simps [of ?s])
qed

section \<open>The hypotheses hold on a concrete file\<close>

definition sample_Rte :: Rte where
  "sample_Rte = \<lparr>core_num = 1, packet_core_num = 4, logger_core_num = 2, is_gzip = True,
     pcap_file = ''x.pcap''\<rparr>"

theorem config_roundtrip_witness:
  "new_Rte 16 (Some (concat (map (\<lambda>l. l @ [CHR 0x0A]) (''# cores'' # config_text sample_Rte)))) =
    Some (sample_Rte\<lparr>core_num := 16\<rparr>)"
proof -
  have ok: "\<forall>l \<in> set (config_text sample_Rte). line_ok l"
    by (rule config_text_ok) (simp_all add: sample_Rte_def plain_def blanks_def)
  have "filter (\<lambda>l. \<not> ignored_line l) (''# cores'' # config_text sample_Rte) = config_text sample_Rte"
    by (simp add: config_text_def sample_Rte_def setting_def ignored_line_def Trim_def LTrim_eq RTrim_eq
        blanks_def show_nat.simps show_bool_def char_of_def)
  with ok show ?thesis
    by (intro config_roundtrip) (simp_all add: sample_Rte_def plain_def blanks_def line_ok_def)
qed

theorem config_long_comment_witness:
  "new_Rte 16 (Some (CHR ''#'' # replicate 1022 CHR ''x'' @ setting ''pcap_file'' ''y'')) =
    Some ((default_Rte 16)\<lparr>pcap_file := ''y''\<rparr>)"
  by (rule config_long_comment) (simp_all add: plain_def blanks_def)

end
