(* ===== verification/Format.thy ===== *)
theory Format
  imports Rte
begin

text \<open>
  The conversions of \<^verbatim>\<open>printf\<close> the program uses: \<^verbatim>\<open>%d\<close> and \<^verbatim>\<open>%ld\<close> (\<open>show_int\<close>), \<^verbatim>\<open>%u\<close> (\<open>show_nat\<close> of the
  theory \<open>Rte\<close>), \<^verbatim>\<open>%x\<close> (\<open>show_hex\<close>) and the zero-padded \<^verbatim>\<open>%05d\<close> (\<open>show_pad\<close>), with the lemmas that make
  the printed texts unambiguous.
\<close>

definition newline :: char where "newline = CHR 0x0A"

definition show_int :: "int \<Rightarrow> string" where
  "show_int n = (if n < 0 then CHR ''-'' # show_nat (nat (- n)) else show_nat (nat n))"

definition hex_digit :: "nat \<Rightarrow> char" where
  "hex_digit n = (if n < 10 then char_of (48 + n) else char_of (87 + n))"

fun show_hex :: "nat \<Rightarrow> string" where
  "show_hex n = (if n < 16 then [hex_digit n] else show_hex (n div 16) @ [hex_digit (n mod 16)])"

declare show_hex.simps [simp del]

definition zeros :: "nat \<Rightarrow> string \<Rightarrow> string" where
  "zeros w s = replicate (w - length s) (CHR ''0'') @ s"

definition show_pad :: "nat \<Rightarrow> int \<Rightarrow> string" where
  "show_pad w n = (if n < 0 then CHR ''-'' # zeros (w - 1) (show_nat (nat (- n))) else zeros w (show_nat (nat n)))"

text \<open>The string \<^verbatim>\<open>snprintf\<close> leaves in a buffer of \<open>n\<close> characters.\<close>

definition snprintf :: "nat \<Rightarrow> string \<Rightarrow> string" where
  "snprintf n s = take (n - 1) s"

section \<open>The texts are unambiguous\<close>

lemma show_nat_inj: "show_nat m = show_nat n \<longleftrightarrow> m = n"
  by (metis show_nat_value of_nat_eq_iff)

lemma takeWhile_digits:
  "\<forall>c \<in> set a. isdigit c \<Longrightarrow> \<not> isdigit x \<Longrightarrow> takeWhile isdigit (a @ x # s) = a"
  by (induction a) auto

text \<open>A number followed by something that is no digit can be read back.\<close>

lemma show_nat_delim:
  assumes "show_nat m @ x # s = show_nat n @ y # t" "\<not> isdigit x" "\<not> isdigit y"
  shows "m = n \<and> x = y \<and> s = t"
proof -
  have "show_nat m = show_nat n"
    using takeWhile_digits [OF show_nat_digits(1) assms(2), of m s]
      takeWhile_digits [OF show_nat_digits(1) assms(3), of n t] assms(1) by simp
  then show ?thesis using assms(1) by (simp add: show_nat_inj)
qed

lemma digits_value_zeros: "digits_value 0 (replicate k (CHR ''0'') @ s) = digits_value 0 s"
  by (induction k) simp_all

lemma zeros_value: "digits_value 0 (zeros w (show_nat n)) = int n"
  by (simp add: zeros_def digits_value_zeros show_nat_value)

lemma zeros_digits: "\<forall>c \<in> set (zeros w (show_nat n)). isdigit c"
  using show_nat_digits(1) [of n] by (auto simp: zeros_def isdigit_def)

lemma zeros_inj: "zeros w (show_nat m) = zeros w (show_nat n) \<longleftrightarrow> m = n"
  by (metis zeros_value of_nat_eq_iff)

lemma no_minus: "zeros w (show_nat n) \<noteq> CHR ''-'' # s"
proof
  assume "zeros w (show_nat n) = CHR ''-'' # s"
  then have "isdigit (CHR ''-'')" using zeros_digits [of w n] by simp
  then show False by (simp add: isdigit_def)
qed

lemma show_pad_inj: "show_pad w m = show_pad w n \<longleftrightarrow> m = n"
proof (cases "m < 0")
  case m: True
  show ?thesis
  proof (cases "n < 0")
    case True
    then show ?thesis using m by (simp add: show_pad_def zeros_inj nat_eq_iff)
  next
    case False
    then have "show_pad w m \<noteq> show_pad w n" using m no_minus by (simp add: show_pad_def) metis
    then show ?thesis using m False by auto
  qed
next
  case m: False
  show ?thesis
  proof (cases "n < 0")
    case True
    then have "show_pad w m \<noteq> show_pad w n" using m no_minus by (simp add: show_pad_def)
    then show ?thesis using m True by auto
  next
    case False
    then show ?thesis using m by (simp add: show_pad_def zeros_inj nat_eq_iff)
  qed
qed

lemma show_pad_no_delim: "CHR ''.'' \<notin> set (show_pad w n)"
proof -
  have "CHR ''.'' \<notin> set (zeros k (show_nat m))" for k m
    using zeros_digits [of k m] by (auto simp: isdigit_def)
  then show ?thesis by (simp add: show_pad_def)
qed

end
