(* ===== verification/Auto_Timer.thy ===== *)
theory Auto_Timer
  imports Format Complex_Main
begin

text \<open>
  The helpers for timing messages in \<^verbatim>\<open>util.h\<close>: \<open>get_micros\<close> and the class \<open>AutoTimer\<close>, whose destructor
  reports a time limit that was exceeded. The readings of the clock are parameters; the limit, a
  \<^verbatim>\<open>double\<close>, is a rational number, and a \<^verbatim>\<open>long\<close> an integer (microseconds since 1970 fit by far). A null
  message is \<open>None\<close>; \<^verbatim>\<open>printf\<close> shows a null \<open>msg1\<close> as the C library does.
\<close>

record timeval =
  sec :: int
  usec :: int

definition get_micros :: "timeval \<Rightarrow> int" where
  "get_micros tv = sec tv * 1000000 + usec tv"

record AutoTimer =
  start_us :: int
  timeout_ms :: rat
  msg1 :: "string option"
  msg2 :: "string option"

definition new_AutoTimer :: "rat \<Rightarrow> string option \<Rightarrow> string option \<Rightarrow> timeval \<Rightarrow> AutoTimer" where
  "new_AutoTimer timeout m1 m2 now =
     \<lparr>start_us = get_micros now, timeout_ms = timeout, msg1 = m1, msg2 = m2\<rparr>"

definition TimeUsed :: "AutoTimer \<Rightarrow> timeval \<Rightarrow> int" where
  "TimeUsed t now = get_micros now - start_us t"

text \<open>\<^verbatim>\<open>%.3f\<close> of a number of microseconds divided by 1000: exactly three digits behind the point.\<close>

definition show_millis :: "int \<Rightarrow> string" where
  "show_millis us = (if us < 0 then ''-'' else '''') @ show_nat (nat \<bar>us\<bar> div 1000) @ ''.'' @
     show_pad 3 (int (nat \<bar>us\<bar> mod 1000))"

definition show_msg :: "string option \<Rightarrow> string" where
  "show_msg m = (case m of None \<Rightarrow> ''(null)'' | Some s \<Rightarrow> s)"

text \<open>The destructor: what it prints to the error output.\<close>

definition destroy_AutoTimer :: "AutoTimer \<Rightarrow> timeval \<Rightarrow> string" where
  "destroy_AutoTimer t now =
     ''~AutoTimer'' @ [newline] @
     (if timeout_ms t = -1 then []
      else let stop = get_micros now in
        if of_int (stop - start_us t) > timeout_ms t * 1000
        then (case msg2 t of
            None \<Rightarrow> ''[AutoTimer] '' @ show_msg (msg1 t) @ '' use '' @ show_millis (stop - start_us t) @ '' ms'' @ [newline]
          | Some m2 \<Rightarrow> ''[AutoTimer] '' @ show_msg (msg1 t) @ '' '' @ m2 @ '' use '' @
              show_millis (stop - start_us t) @ '' ms'' @ [newline])
        else [])"

text \<open>A timer reports exactly when it was given a limit and the limit was exceeded.\<close>

lemma AutoTimer_reports:
  "destroy_AutoTimer (new_AutoTimer limit m1 m2 t0) t1 \<noteq> ''~AutoTimer'' @ [newline] \<longleftrightarrow>
   limit \<noteq> -1 \<and> of_int (TimeUsed (new_AutoTimer limit m1 m2 t0) t1) > limit * 1000"
  by (simp add: destroy_AutoTimer_def new_AutoTimer_def TimeUsed_def Let_def split: option.split)

text \<open>The printed time can be read back.\<close>

lemma show_millis_inj:
  assumes "0 \<le> a" "0 \<le> b" "show_millis a = show_millis b"
  shows "a = b"
proof -
  have dot: "\<not> isdigit (CHR ''.'')" by (simp add: isdigit_def)
  have e: "show_nat (nat a div 1000) @ CHR ''.'' # show_pad 3 (int (nat a mod 1000)) =
      show_nat (nat b div 1000) @ CHR ''.'' # show_pad 3 (int (nat b mod 1000))"
    using assms by (simp add: show_millis_def)
  from show_nat_delim [OF e dot dot] have "nat a div 1000 = nat b div 1000" "nat a mod 1000 = nat b mod 1000"
    by (simp_all only: show_pad_inj of_nat_eq_iff)
  then have "nat a = nat b" by (metis div_mult_mod_eq)
  then show ?thesis using assms by simp
qed

end
