(* ===== verification/Endian.thy ===== *)
theory Endian
  imports Prelude
begin

text \<open>
  The byte-order conversions of \<^verbatim>\<open>port_posix.h\<close> and \<^verbatim>\<open>endian.h\<close>, and loads of little-endian words
  from a byte buffer, as the packet parser makes them through casted pointers. A signed C type
  has the words of its width as values; a cast between signed and unsigned is the identity.
\<close>

section \<open>Words in memory\<close>

text \<open>\<open>((unsigned char*)&v)[k]\<close> on a little-endian machine.\<close>

definition mem_byte :: "'a::len word \<Rightarrow> nat \<Rightarrow> u8" where
  "mem_byte v k = ucast (drop_bit (8 * k) v)"

definition load16 :: "u8 list \<Rightarrow> nat \<Rightarrow> u16 option" where
  "load16 m i = do { b0 \<leftarrow> mem_get m i; b1 \<leftarrow> mem_get m (i + 1); Some (ucast b0 OR push_bit 8 (ucast b1)) }"

definition load32 :: "u8 list \<Rightarrow> nat \<Rightarrow> u32 option" where
  "load32 m i = do {
     b0 \<leftarrow> mem_get m i; b1 \<leftarrow> mem_get m (i + 1); b2 \<leftarrow> mem_get m (i + 2); b3 \<leftarrow> mem_get m (i + 3);
     Some (ucast b0 OR push_bit 8 (ucast b1) OR push_bit 16 (ucast b2) OR push_bit 24 (ucast b3)) }"

section \<open>The conversions\<close>

definition kLittleEndian :: int where "kLittleEndian = 1"

definition htobe_u16 :: "u16 \<Rightarrow> u16" where
  "htobe_u16 v =
     (if kLittleEndian \<noteq> 0 then push_bit 8 (ucast (mem_byte v 0)) OR ucast (mem_byte v 1) else v)"

definition htobe_u32 :: "u32 \<Rightarrow> u32" where
  "htobe_u32 v =
     (if kLittleEndian \<noteq> 0
      then push_bit 24 (ucast (mem_byte v 0)) OR push_bit 16 (ucast (mem_byte v 1)) OR
        push_bit 8 (ucast (mem_byte v 2)) OR ucast (mem_byte v 3)
      else v)"

definition htobe_u64 :: "u64 \<Rightarrow> u64" where
  "htobe_u64 v =
     (if kLittleEndian \<noteq> 0
      then push_bit 56 (ucast (mem_byte v 0)) OR push_bit 48 (ucast (mem_byte v 1)) OR
        push_bit 40 (ucast (mem_byte v 2)) OR push_bit 32 (ucast (mem_byte v 3)) OR
        push_bit 24 (ucast (mem_byte v 4)) OR push_bit 16 (ucast (mem_byte v 5)) OR
        push_bit 8 (ucast (mem_byte v 6)) OR ucast (mem_byte v 7)
      else v)"

definition betoh_u16 :: "u16 \<Rightarrow> u16" where
  "betoh_u16 v = (if kLittleEndian \<noteq> 0 then htobe_u16 v else v)"

definition betoh_u32 :: "u32 \<Rightarrow> u32" where
  "betoh_u32 v = (if kLittleEndian \<noteq> 0 then htobe_u32 v else v)"

definition betoh_u64 :: "u64 \<Rightarrow> u64" where
  "betoh_u64 v = (if kLittleEndian \<noteq> 0 then htobe_u64 v else v)"

definition hton16 :: "u16 \<Rightarrow> u16" where "hton16 v = htobe_u16 v"
definition hton32 :: "u32 \<Rightarrow> u32" where "hton32 v = htobe_u32 v"
definition hton64 :: "u64 \<Rightarrow> u64" where "hton64 v = htobe_u64 v"
definition ntoh16 :: "u16 \<Rightarrow> u16" where "ntoh16 v = betoh_u16 v"
definition ntoh32 :: "u32 \<Rightarrow> u32" where "ntoh32 v = betoh_u32 v"
definition ntoh64 :: "u64 \<Rightarrow> u64" where "ntoh64 v = betoh_u64 v"

section \<open>Bytes of the converted words\<close>

lemma bit_mem_byte: "bit (mem_byte v k) n \<longleftrightarrow> n < 8 \<and> bit v (8 * k + n)"
  by (simp add: mem_byte_def bit_simps)

lemma word_eq_bytesI:
  assumes "\<And>k. 8 * k < LENGTH('a::len) \<Longrightarrow> mem_byte (v :: 'a word) k = mem_byte w k"
  shows "v = w"
proof (rule bit_word_eqI)
  fix n
  assume "n < LENGTH('a)"
  then have "8 * (n div 8) < LENGTH('a)" by (rule le_less_trans [rotated]) simp
  then have "mem_byte v (n div 8) = mem_byte w (n div 8)" by (rule assms)
  then have "bit (mem_byte v (n div 8)) (n mod 8) = bit (mem_byte w (n div 8)) (n mod 8)" by simp
  then show "bit v n = bit w n" by (simp add: bit_mem_byte)
qed

lemma htobe_u16_bytes:
  "mem_byte (htobe_u16 v) 0 = mem_byte v 1" "mem_byte (htobe_u16 v) 1 = mem_byte v 0"
  by (auto intro!: bit_word_eqI simp: bit_mem_byte htobe_u16_def kLittleEndian_def bit_simps)

lemma htobe_u32_bytes:
  "mem_byte (htobe_u32 v) 0 = mem_byte v 3" "mem_byte (htobe_u32 v) 1 = mem_byte v 2"
  "mem_byte (htobe_u32 v) 2 = mem_byte v 1" "mem_byte (htobe_u32 v) 3 = mem_byte v 0"
  by (auto intro!: bit_word_eqI simp: bit_mem_byte htobe_u32_def kLittleEndian_def bit_simps)

lemma htobe_u64_bytes:
  "mem_byte (htobe_u64 v) 0 = mem_byte v 7" "mem_byte (htobe_u64 v) 1 = mem_byte v 6"
  "mem_byte (htobe_u64 v) 2 = mem_byte v 5" "mem_byte (htobe_u64 v) 3 = mem_byte v 4"
  "mem_byte (htobe_u64 v) 4 = mem_byte v 3" "mem_byte (htobe_u64 v) 5 = mem_byte v 2"
  "mem_byte (htobe_u64 v) 6 = mem_byte v 1" "mem_byte (htobe_u64 v) 7 = mem_byte v 0"
  by (auto intro!: bit_word_eqI simp: bit_mem_byte htobe_u64_def kLittleEndian_def bit_simps)

lemma less_2: "k < (2::nat) \<longleftrightarrow> k = 0 \<or> k = 1" by auto
lemma less_4: "k < (4::nat) \<longleftrightarrow> k = 0 \<or> k = 1 \<or> k = 2 \<or> k = 3" by auto
lemma less_8: "k < (8::nat) \<longleftrightarrow> k = 0 \<or> k = 1 \<or> k = 2 \<or> k = 3 \<or> k = 4 \<or> k = 5 \<or> k = 6 \<or> k = 7" by auto

lemma htobe_reverses:
  "k < 2 \<Longrightarrow> mem_byte (htobe_u16 a) k = mem_byte a (1 - k)"
  "k < 4 \<Longrightarrow> mem_byte (htobe_u32 b) k = mem_byte b (3 - k)"
  "k < 8 \<Longrightarrow> mem_byte (htobe_u64 c) k = mem_byte c (7 - k)"
  by (auto simp: less_2 less_4 less_8 htobe_u16_bytes htobe_u32_bytes htobe_u64_bytes
      htobe_u16_bytes [simplified] htobe_u32_bytes [simplified] htobe_u64_bytes [simplified])

lemma htobe_involution:
  "htobe_u16 (htobe_u16 a) = a" "htobe_u32 (htobe_u32 b) = b" "htobe_u64 (htobe_u64 c) = c"
  by (rule word_eq_bytesI, simp add: htobe_reverses)+

section \<open>Loads\<close>

lemma bit_u8_above [simp]: "8 \<le> n \<Longrightarrow> \<not> bit (b :: u8) n"
  using bit_imp_le_length [of b n] by auto

lemma bytes_of_u16:
  fixes b0 b1 :: u8
  defines "w \<equiv> ucast b0 OR push_bit 8 (ucast b1) :: u16"
  shows "mem_byte w 0 = b0" "mem_byte w 1 = b1"
  by (auto intro!: bit_word_eqI simp: bit_mem_byte w_def bit_simps)

lemma bytes_of_u32:
  fixes b0 b1 b2 b3 :: u8
  defines "w \<equiv> ucast b0 OR push_bit 8 (ucast b1) OR push_bit 16 (ucast b2) OR push_bit 24 (ucast b3) :: u32"
  shows "mem_byte w 0 = b0" "mem_byte w 1 = b1" "mem_byte w 2 = b2" "mem_byte w 3 = b3"
  by (auto intro!: bit_word_eqI simp: bit_mem_byte w_def bit_simps)

lemma load16_eq:
  assumes "mem_get m i = Some (mem_byte w 0)" "mem_get m (i + 1) = Some (mem_byte w 1)"
  shows "load16 m i = Some w"
proof -
  have "ucast (mem_byte w 0) OR push_bit 8 (ucast (mem_byte w 1)) = w"
    by (rule word_eq_bytesI) (auto simp: less_2 bytes_of_u16 bytes_of_u16 [simplified])
  then show ?thesis using assms by (simp add: load16_def)
qed

lemma load32_eq:
  assumes "mem_get m i = Some (mem_byte w 0)" "mem_get m (i + 1) = Some (mem_byte w 1)"
    "mem_get m (i + 2) = Some (mem_byte w 2)" "mem_get m (i + 3) = Some (mem_byte w 3)"
  shows "load32 m i = Some w"
proof -
  have "ucast (mem_byte w 0) OR push_bit 8 (ucast (mem_byte w 1)) OR push_bit 16 (ucast (mem_byte w 2)) OR
      push_bit 24 (ucast (mem_byte w 3)) = w"
    by (rule word_eq_bytesI) (auto simp: less_4 bytes_of_u32 bytes_of_u32 [simplified])
  then show ?thesis using assms by (simp add: load32_def)
qed

text \<open>The bytes of a word in network order and in the machine's order.\<close>

definition be16 :: "u16 \<Rightarrow> u8 list" where "be16 v = [mem_byte v 1, mem_byte v 0]"
definition be32 :: "u32 \<Rightarrow> u8 list" where
  "be32 v = [mem_byte v 3, mem_byte v 2, mem_byte v 1, mem_byte v 0]"
definition le32 :: "u32 \<Rightarrow> u8 list" where
  "le32 v = [mem_byte v 0, mem_byte v 1, mem_byte v 2, mem_byte v 3]"

lemma length_wire [simp]: "length (be16 v) = 2" "length (be32 w) = 4" "length (le32 w) = 4"
  by (simp_all add: be16_def be32_def le32_def)

lemma mem_get_append: "mem_get (xs @ ys) (length xs + i) = mem_get ys i"
  by (simp add: mem_get_def nth_append)

lemma mem_get_append' [mem_simps]: "i = length xs + j \<Longrightarrow> mem_get (xs @ ys) i = mem_get ys j"
  by (simp add: mem_get_append)

lemma mem_get_Cons_0 [mem_simps]: "mem_get (x # xs) 0 = Some x"
  by (simp add: mem_get_def)

lemma mem_get_Cons_Suc [mem_simps]: "mem_get (x # xs) (Suc i) = mem_get xs i"
  by (simp add: mem_get_def)

lemma mem_get_Cons_pos [mem_simps]: "0 < i \<Longrightarrow> mem_get (x # xs) i = mem_get xs (i - 1)"
  by (cases i) (simp_all add: mem_simps)

lemma load16_append: "load16 (xs @ ys) (length xs + i) = load16 ys i"
  by (simp add: load16_def mem_get_append add.assoc flip: add_Suc_right)

lemma load32_append: "load32 (xs @ ys) (length xs + i) = load32 ys i"
  by (simp add: load32_def mem_get_append add.assoc flip: add_Suc_right)

lemma load16_be16: "load16 (be16 v @ ys) 0 = Some (htobe_u16 v)"
  by (rule load16_eq) (simp_all add: be16_def htobe_u16_bytes htobe_u16_bytes [simplified] mem_simps)

lemma load32_be32: "load32 (be32 v @ ys) 0 = Some (htobe_u32 v)"
  by (rule load32_eq) (simp_all add: be32_def htobe_u32_bytes htobe_u32_bytes [simplified] mem_simps)

lemma load32_le32: "load32 (le32 v @ ys) 0 = Some v"
  by (rule load32_eq) (simp_all add: le32_def mem_simps)

lemma ntoh_htobe [simp]: "ntoh16 (htobe_u16 a) = a" "ntoh32 (htobe_u32 b) = b"
  by (simp_all add: ntoh16_def ntoh32_def betoh_u16_def betoh_u32_def kLittleEndian_def htobe_involution)

lemma mem_get_mono: "mem_get m i = Some v \<Longrightarrow> mem_get (m @ post) i = Some v"
  by (simp add: mem_get_Some_iff nth_append)

lemma load16_mono: "load16 m i = Some v \<Longrightarrow> load16 (m @ post) i = Some v"
  by (auto simp: load16_def bind_eq_Some_conv mem_get_mono)

lemma load32_mono: "load32 m i = Some v \<Longrightarrow> load32 (m @ post) i = Some v"
  by (auto simp: load32_def bind_eq_Some_conv mem_get_mono)

section \<open>Properties\<close>

text \<open>
  The conversions reverse the bytes of a word in memory at every width, so that the first
  byte of a converted word is its most significant one, and converting back gives the value that
  was converted.
\<close>

theorem endian_roundtrip:
  "ntoh16 (hton16 a) = a \<and> ntoh32 (hton32 b) = b \<and> ntoh64 (hton64 c) = c \<and>
   map (mem_byte (hton16 a)) [0..<2] = rev (map (mem_byte a) [0..<2]) \<and>
   map (mem_byte (hton32 b)) [0..<4] = rev (map (mem_byte b) [0..<4]) \<and>
   map (mem_byte (hton64 c)) [0..<8] = rev (map (mem_byte c) [0..<8])"
proof -
  have "map (mem_byte (hton16 a)) [0..<2] = rev (map (mem_byte a) [0..<2])"
    by (intro nth_equalityI) (auto simp: hton16_def htobe_reverses rev_nth)
  moreover have "map (mem_byte (hton32 b)) [0..<4] = rev (map (mem_byte b) [0..<4])"
    by (intro nth_equalityI) (auto simp: hton32_def htobe_reverses rev_nth)
  moreover have "map (mem_byte (hton64 c)) [0..<8] = rev (map (mem_byte c) [0..<8])"
    by (intro nth_equalityI) (auto simp: hton64_def htobe_reverses rev_nth)
  ultimately show ?thesis
    by (simp add: hton16_def hton32_def hton64_def ntoh64_def betoh_u64_def kLittleEndian_def
        htobe_involution)
qed

end
