(* ===== verification/Pcap.thy ===== *)
theory Pcap
  imports Endian
begin

text \<open>
  The capture reader: the file formats of \<^verbatim>\<open>pcap.h\<close> and \<^verbatim>\<open>packet.h\<close>, \<open>PcapReader\<close> of \<^verbatim>\<open>pcap.cc\<close>
  and \<open>FileReader\<close> of \<^verbatim>\<open>file_reader.cpp\<close>. Memory is a list of bytes with checked access, so
  \<open>None\<close> is a read outside it (or the division by a group number of 0).

  Parameters of the model: the file system \<open>fs\<close>, from paths to contents; \<open>beyond\<close>, the readable
  bytes that follow the block \<^verbatim>\<open>malloc\<close> returns, empty when nothing is known of them; and \<open>junk\<close>,
  the value of an uninitialised \<open>PcapPacket\<close>. The build defines \<^verbatim>\<open>NDEBUG\<close>, so the
  assertion of \<open>ReadPcapFile\<close> is empty; its printing is left out.
\<close>

section \<open>Formats\<close>

record PcapFileHeader =
  magic_number :: u32
  version_major :: u16
  version_minor :: u16
  thiszone :: u32
  sigfigs :: u32
  snaplen :: u32
  network :: u32

record PcapPacketHeader =
  timestamp :: u32
  microseconds :: u32
  packet_length :: u32
  packet_length_wire :: u32

record PcapPacket =
  pkt_data :: "u8 list"
  tv_sec :: int
  tv_usec :: int
  scr_ipv4 :: u32
  dst_ipv4 :: u32
  scr_port :: u16
  dst_port :: u16
  l3_type :: u16
  l2_type :: u16
  url :: string

definition ETHER_TYPE_IPv4 :: u16 where "ETHER_TYPE_IPv4 = 0x0800"
definition IPPROTO_TCP :: u8 where "IPPROTO_TCP = 6"
definition IPPROTO_UDP :: u8 where "IPPROTO_UDP = 17"

text \<open>The sizes and offsets of the packed structures \<open>ether_hdr\<close>, \<open>ipv4_hdr\<close>, \<open>tcp_hdr\<close> and \<open>udp_hdr\<close>.\<close>

definition sizeof_ether_hdr :: nat where "sizeof_ether_hdr = 14"
definition off_ether_type :: nat where "off_ether_type = 12"
definition off_version_ihl :: nat where "off_version_ihl = 0"
definition off_next_proto_id :: nat where "off_next_proto_id = 9"
definition off_src_addr :: nat where "off_src_addr = 12"
definition off_dst_addr :: nat where "off_dst_addr = 16"
definition off_src_port :: nat where "off_src_port = 0"
definition off_dst_port :: nat where "off_dst_port = 2"

lemmas packet_offsets = sizeof_ether_hdr_def off_ether_type_def off_version_ihl_def
  off_next_proto_id_def off_src_addr_def off_dst_addr_def off_src_port_def off_dst_port_def

text \<open>\<^verbatim>\<open>memcpy\<close> of the two headers from the buffer.\<close>

definition read_file_header :: "u8 list \<Rightarrow> nat \<Rightarrow> PcapFileHeader option" where
  "read_file_header m p = do {
     mg \<leftarrow> load32 m p; major \<leftarrow> load16 m (p + 4); minor \<leftarrow> load16 m (p + 6);
     zone \<leftarrow> load32 m (p + 8); sig \<leftarrow> load32 m (p + 12); snap \<leftarrow> load32 m (p + 16);
     net \<leftarrow> load32 m (p + 20);
     Some \<lparr>magic_number = mg, version_major = major, version_minor = minor, thiszone = zone,
       sigfigs = sig, snaplen = snap, network = net\<rparr> }"

definition read_packet_header :: "u8 list \<Rightarrow> nat \<Rightarrow> PcapPacketHeader option" where
  "read_packet_header m p = do {
     ts \<leftarrow> load32 m p; us \<leftarrow> load32 m (p + 4); len \<leftarrow> load32 m (p + 8); wire \<leftarrow> load32 m (p + 12);
     Some \<lparr>timestamp = ts, microseconds = us, packet_length = len, packet_length_wire = wire\<rparr> }"

section \<open>The file reader\<close>

record Mmap =
  mdata :: "u8 list"
  mlength :: nat

type_synonym files = "string \<Rightarrow> u8 list option"

definition get_file_size :: "files \<Rightarrow> string \<Rightarrow> int" where
  "get_file_size fs path = (case fs path of None \<Rightarrow> -1 | Some f \<Rightarrow> int (length f))"

text \<open>Without \<^verbatim>\<open>USE_MMAP\<close>, as the build has it; the \<^verbatim>\<open>read\<close> starts at the beginning of the file.\<close>

definition mmap_create :: "files \<Rightarrow> string \<Rightarrow> nat \<Rightarrow> nat \<Rightarrow> Mmap option" where
  "mmap_create fs filename offset sz = do {
     f \<leftarrow> fs filename;
     let sz = (if offset + sz \<le> length f then sz else length f - offset);
     Some \<lparr>mdata = take sz f, mlength = sz\<rparr> }"

text \<open>
  With \<^verbatim>\<open>USE_MMAP\<close>: \<^verbatim>\<open>mmap\<close> refuses an empty range and an offset that is not at a page, and the rest of the
  last page behind the file reads as zeros.
\<close>

definition mmap_create_mapped :: "files \<Rightarrow> string \<Rightarrow> nat \<Rightarrow> nat \<Rightarrow> Mmap option" where
  "mmap_create_mapped fs filename offset sz = do {
     f \<leftarrow> fs filename;
     let sz = (if offset + sz \<le> length f then sz else length f - offset);
     if sz = 0 \<or> offset mod 4096 \<noteq> 0 then None
     else Some \<lparr>mdata = take sz (drop offset f), mlength = sz\<rparr> }"

definition mapped_rest :: "Mmap \<Rightarrow> u8 list" where
  "mapped_rest m = replicate ((4096 - mlength m mod 4096) mod 4096) 0"

text \<open>The constructor: the member \<open>buff\<close>, \<open>None\<close> for \<^verbatim>\<open>nullptr\<close>.\<close>

definition FileReader :: "files \<Rightarrow> string \<Rightarrow> Mmap option" where
  "FileReader fs file_name =
     (let file_size = nat (get_file_size fs file_name mod 18446744073709551616)
      in mmap_create fs file_name 0 file_size)"

definition IsOK :: "Mmap option \<Rightarrow> bool" where
  "IsOK buff \<longleftrightarrow> buff \<noteq> None"

section \<open>The packet parser\<close>

definition Hash4Tuple :: "PcapPacket \<Rightarrow> u64" where
  "Hash4Tuple packet =
     (ucast (scr_ipv4 packet) * 59) XOR ucast (dst_ipv4 packet) XOR
     push_bit 16 (ucast (scr_port packet)) XOR ucast (dst_port packet)"

text \<open>The parameter \<open>len\<close> is not used, as in the source.\<close>

definition ParsePacket :: "PcapPacket \<Rightarrow> u8 list \<Rightarrow> nat \<Rightarrow> u32 \<Rightarrow> (int \<times> PcapPacket) option" where
  "ParsePacket packet m start len = do {
     ether_type \<leftarrow> load16 m (start + off_ether_type);
     let l2 = ntoh16 ether_type;
     let packet = packet\<lparr>l2_type := l2\<rparr>;
     if ETHER_TYPE_IPv4 = l2 then do {
       let ipv4_header = start + sizeof_ether_hdr;
       version_ihl \<leftarrow> mem_get m (ipv4_header + off_version_ihl);
       let ip_payload = start + sizeof_ether_hdr + unat (push_bit 2 (ucast (version_ihl AND 0x0f) :: u32));
       next_proto_id \<leftarrow> mem_get m (ipv4_header + off_next_proto_id);
       src_addr \<leftarrow> load32 m (ipv4_header + off_src_addr);
       dst_addr \<leftarrow> load32 m (ipv4_header + off_dst_addr);
       let packet = packet\<lparr>l3_type := ucast next_proto_id, scr_ipv4 := ntoh32 src_addr,
         dst_ipv4 := ntoh32 dst_addr\<rparr>;
       if IPPROTO_TCP = next_proto_id then do {
         src_port \<leftarrow> load16 m (ip_payload + off_src_port);
         dst_port \<leftarrow> load16 m (ip_payload + off_dst_port);
         Some (1, packet\<lparr>scr_port := ntoh16 src_port, dst_port := ntoh16 dst_port\<rparr>) }
       else if IPPROTO_UDP = next_proto_id then do {
         src_port \<leftarrow> load16 m (ip_payload + off_src_port);
         dst_port \<leftarrow> load16 m (ip_payload + off_dst_port);
         Some (1, packet\<lparr>scr_port := ntoh16 src_port, dst_port := ntoh16 dst_port\<rparr>) }
       else Some (0, packet) }
     else Some (0, packet) }"

section \<open>The reader\<close>

record PcapReader =
  group_num :: u8
  datas :: "PcapPacket list list"

definition new_PcapReader :: "u8 \<Rightarrow> PcapReader" where
  "new_PcapReader n = \<lparr>group_num = n, datas = replicate (unat n) []\<rparr>"

text \<open>\<open>datas_[key % group_num_].push_back(packet)\<close>\<close>

definition push_packet :: "u8 \<Rightarrow> PcapPacket \<Rightarrow> PcapPacket list list \<Rightarrow> PcapPacket list list option" where
  "push_packet n packet ds =
     (if n = 0 then None
      else let i = unat (Hash4Tuple packet) mod unat n in do {
        group \<leftarrow> mem_get ds i;
        mem_set ds i (group @ [packet]) })"

text \<open>The loop \<open>while (offset <= file_reader.buff->length)\<close>; \<open>m\<close> is the readable memory.\<close>

function read_loop ::
  "PcapPacket \<Rightarrow> u8 list \<Rightarrow> nat \<Rightarrow> u8 \<Rightarrow> nat \<Rightarrow> PcapPacket list list \<Rightarrow> PcapPacket list list option" where
  "read_loop junk m len n offset ds =
     (if offset \<le> len then do {
        pph \<leftarrow> read_packet_header m offset;
        let packet = junk\<lparr>tv_sec := uint (timestamp pph), tv_usec := uint (microseconds pph)\<rparr>;
        (ret, packet) \<leftarrow> ParsePacket packet m (offset + 16) (packet_length pph);
        ds \<leftarrow> (if ret \<noteq> 0 then push_packet n packet ds else Some ds);
        read_loop junk m len n (offset + 16 + unat (packet_length pph)) ds }
      else Some ds)"
  by pat_completeness auto
termination by (relation "measure (\<lambda>(junk, m, len, n, offset, ds). Suc len - offset)") auto

declare read_loop.simps [simp del]

definition ReadPcapFile ::
  "files \<Rightarrow> u8 list \<Rightarrow> PcapPacket \<Rightarrow> string \<Rightarrow> PcapReader \<Rightarrow> (int \<times> PcapReader) option" where
  "ReadPcapFile fs beyond junk file_path reader =
     (let buff = FileReader fs file_path in
      if \<not> IsOK buff then Some (-1, reader)
      else do {
        b \<leftarrow> buff;
        let m = mdata b @ beyond;
        pfh \<leftarrow> read_file_header m 0;
        ds \<leftarrow> read_loop junk m (mlength b) (group_num reader) 24 (datas reader);
        Some (0, reader\<lparr>datas := ds\<rparr>) })"

text \<open>\<open>(size_t)id % group_num_\<close>: a negative id becomes a large unsigned one.\<close>

definition GetPcapPacketVector :: "PcapReader \<Rightarrow> int \<Rightarrow> PcapPacket list option" where
  "GetPcapPacketVector reader gid =
     (if group_num reader = 0 then None
      else mem_get (datas reader) (unat (word_of_int gid :: u64) mod unat (group_num reader)))"

section \<open>Frames on the wire\<close>

text \<open>
  An IPv4 frame as the network carries it: addresses, type, the header with \<open>vi\<close> its first byte,
  \<open>ip8\<close> the eight bytes after it, protocol, checksum, the addresses of the packet and options,
  then the ports and the rest of the segment.
\<close>

record frame =
  macs :: "u8 list"
  vi :: u8
  ip8 :: "u8 list"
  proto :: u8
  cksum :: "u8 list"
  src :: u32
  dst :: u32
  options :: "u8 list"
  sport :: u16
  dport :: u16
  segment :: "u8 list"

definition frame_ok :: "frame \<Rightarrow> bool" where
  "frame_ok f \<longleftrightarrow> length (macs f) = 12 \<and> length (ip8 f) = 8 \<and> length (cksum f) = 2 \<and>
     4 * unat (vi f AND 0x0f) = 20 + length (options f) \<and> proto f \<in> {6, 17}"

definition frame_bytes :: "frame \<Rightarrow> u8 list" where
  "frame_bytes f = macs f @ be16 0x0800 @ [vi f] @ ip8 f @ [proto f] @ cksum f @ be32 (src f) @
     be32 (dst f) @ options f @ be16 (sport f) @ be16 (dport f) @ segment f"

definition parsed_frame :: "PcapPacket \<Rightarrow> frame \<Rightarrow> PcapPacket" where
  "parsed_frame p f = p\<lparr>l2_type := 0x0800, l3_type := ucast (proto f), scr_ipv4 := src f,
     dst_ipv4 := dst f, scr_port := sport f, dst_port := dport f\<rparr>"

lemma load16_append' [mem_simps]: "i = length xs + j \<Longrightarrow> load16 (xs @ ys) i = load16 ys j"
  by (simp add: load16_append)

lemma load32_append' [mem_simps]: "i = length xs + j \<Longrightarrow> load32 (xs @ ys) i = load32 ys j"
  by (simp add: load32_append)

lemma load16_skip: "length xs \<le> i \<Longrightarrow> load16 (xs @ ys) i = load16 ys (i - length xs)"
  by (simp add: load16_append')

lemma load32_skip: "length xs \<le> i \<Longrightarrow> load32 (xs @ ys) i = load32 ys (i - length xs)"
  by (simp add: load32_append')

lemma mem_get_skip: "length xs \<le> i \<Longrightarrow> mem_get (xs @ ys) i = mem_get ys (i - length xs)"
  by (simp add: mem_get_append')

lemma ihl_shift: "unat (push_bit 2 (ucast (b AND 0x0f :: u8) :: u32)) = 4 * unat (b AND 0x0f)"
proof -
  have "unat (b AND 0x0f) \<le> 15"
    using word_and_le1 [of b "0x0f"] by (simp add: word_le_nat_alt)
  then show ?thesis
    by (simp add: push_bit_eq_mult unat_word_ariths unsigned_ucast_eq take_bit_nat_eq_self)
qed

definition ihl_bytes :: "u8 \<Rightarrow> nat" where
  "ihl_bytes v = unat (push_bit 2 (ucast (v AND 0x0f) :: u32))"

lemma ParsePacket_ipv4:
  assumes "load16 m (i + 12) = Some e" "ntoh16 e = ETHER_TYPE_IPv4" "mem_get m (i + 14) = Some v"
    "mem_get m (i + 23) = Some pr" "load32 m (i + 26) = Some s" "load32 m (i + 30) = Some d"
  shows "ParsePacket p m i len =
    (let p = p\<lparr>l2_type := ETHER_TYPE_IPv4, l3_type := ucast pr, scr_ipv4 := ntoh32 s, dst_ipv4 := ntoh32 d\<rparr>
     in if pr = IPPROTO_TCP \<or> pr = IPPROTO_UDP then do {
          sp \<leftarrow> load16 m (i + 14 + ihl_bytes v); dp \<leftarrow> load16 m (i + 14 + ihl_bytes v + 2);
          Some (1, p\<lparr>scr_port := ntoh16 sp, dst_port := ntoh16 dp\<rparr>) }
        else Some (0, p))"
proof -
  have o: "i + 14 + 0 = i + 14" "i + 14 + 9 = i + 23" "i + 14 + 12 = i + 26" "i + 14 + 16 = i + 30"
    "j + 0 = j" for j :: nat by simp_all
  have eqs: "(ETHER_TYPE_IPv4 = ETHER_TYPE_IPv4) = True" "(IPPROTO_TCP = pr) = (pr = IPPROTO_TCP)"
    "(IPPROTO_UDP = pr) = (pr = IPPROTO_UDP)" by auto
  show ?thesis
    unfolding ParsePacket_def packet_offsets Let_def assms(1) Option.bind.bind_lunit assms(2) if_True
      o assms(3-6) eqs ihl_bytes_def
    by (auto simp: IPPROTO_TCP_def IPPROTO_UDP_def)
qed

lemma ParsePacket_frame:
  assumes "frame_ok f"
  shows "ParsePacket p (frame_bytes f) 0 len = Some (1, parsed_frame p f)"
proof -
  note ok = assms [unfolded frame_ok_def]
  let ?m = "frame_bytes f"
  let ?pl = "14 + unat (push_bit 2 (ucast (vi f AND 0x0f) :: u32))"
  have pl: "?pl = 34 + length (options f)" using ok unfolding ihl_shift by simp
  have e: "load16 ?m 12 = Some (htobe_u16 0x0800)"
    using ok by (simp add: frame_bytes_def load16_skip load16_be16)
  have v: "mem_get ?m 14 = Some (vi f)"
  proof -
    have "mem_get ((macs f @ be16 0x0800) @ [vi f] @ ip8 f @ [proto f] @ cksum f @ be32 (src f) @
      be32 (dst f) @ options f @ be16 (sport f) @ be16 (dport f) @ segment f) 14 = Some (vi f)"
      using ok by (subst mem_get_skip) (simp_all add: mem_simps)
    then show ?thesis by (simp add: frame_bytes_def)
  qed
  have pr: "mem_get ?m 23 = Some (proto f)"
  proof -
    have "mem_get ((macs f @ be16 0x0800 @ [vi f] @ ip8 f) @ [proto f] @ cksum f @ be32 (src f) @
      be32 (dst f) @ options f @ be16 (sport f) @ be16 (dport f) @ segment f) 23 = Some (proto f)"
      using ok by (subst mem_get_skip) (simp_all add: mem_simps)
    then show ?thesis by (simp add: frame_bytes_def)
  qed
  have s: "load32 ?m 26 = Some (htobe_u32 (src f))"
  proof -
    have "load32 ((macs f @ be16 0x0800 @ [vi f] @ ip8 f @ [proto f] @ cksum f) @ be32 (src f) @
      be32 (dst f) @ options f @ be16 (sport f) @ be16 (dport f) @ segment f) 26 = Some (htobe_u32 (src f))"
      using ok by (subst load32_skip) (simp_all add: load32_be32)
    then show ?thesis by (simp add: frame_bytes_def)
  qed
  have d: "load32 ?m 30 = Some (htobe_u32 (dst f))"
  proof -
    have "load32 ((macs f @ be16 0x0800 @ [vi f] @ ip8 f @ [proto f] @ cksum f @ be32 (src f)) @
      be32 (dst f) @ options f @ be16 (sport f) @ be16 (dport f) @ segment f) 30 = Some (htobe_u32 (dst f))"
      using ok by (subst load32_skip) (simp_all add: load32_be32)
    then show ?thesis by (simp add: frame_bytes_def)
  qed
  have sp: "load16 ?m ?pl = Some (htobe_u16 (sport f))"
  proof -
    have "load16 ((macs f @ be16 0x0800 @ [vi f] @ ip8 f @ [proto f] @ cksum f @ be32 (src f) @
      be32 (dst f) @ options f) @ be16 (sport f) @ be16 (dport f) @ segment f) ?pl = Some (htobe_u16 (sport f))"
      unfolding pl using ok by (subst load16_skip) (simp_all add: load16_be16)
    then show ?thesis by (simp add: frame_bytes_def)
  qed
  have dp: "load16 ?m (?pl + 2) = Some (htobe_u16 (dport f))"
  proof -
    have "load16 ((macs f @ be16 0x0800 @ [vi f] @ ip8 f @ [proto f] @ cksum f @ be32 (src f) @
      be32 (dst f) @ options f @ be16 (sport f)) @ be16 (dport f) @ segment f) (?pl + 2) =
      Some (htobe_u16 (dport f))"
      unfolding pl using ok by (subst load16_skip) (simp_all add: load16_be16)
    then show ?thesis by (simp add: frame_bytes_def)
  qed
  have pl': "?pl = 0 + 14 + ihl_bytes (vi f)" by (simp add: ihl_bytes_def)
  have ty: "ntoh16 (htobe_u16 0x0800) = ETHER_TYPE_IPv4" by (simp add: ETHER_TYPE_IPv4_def)
  have "proto f = IPPROTO_TCP \<or> proto f = IPPROTO_UDP"
    using ok by (auto simp: IPPROTO_TCP_def IPPROTO_UDP_def)
  then show ?thesis
    using ParsePacket_ipv4 [of ?m 0 _ "vi f" "proto f" _ _ p len, OF _ ty] e v pr s d
      sp [unfolded pl'] dp [unfolded pl']
    by (simp add: parsed_frame_def ETHER_TYPE_IPv4_def Let_def)
qed

section \<open>Parsing inside a larger memory\<close>

lemma ParsePacket_append:
  "ParsePacket p (xs @ m) (length xs + i) len = ParsePacket p m i len"
  unfolding ParsePacket_def Let_def add.assoc mem_get_append load16_append load32_append by (rule refl)

lemma ParsePacket_mono:
  assumes "ParsePacket p m i len = Some r"
  shows "ParsePacket p (m @ post) i len = Some r"
proof -
  obtain e where e: "load16 m (i + 12) = Some e"
    using assms by (auto simp: ParsePacket_def packet_offsets bind_eq_Some_conv)
  show ?thesis
  proof (cases "ntoh16 e = ETHER_TYPE_IPv4")
    case False
    then have "ETHER_TYPE_IPv4 \<noteq> ntoh16 e" by simp
    then show ?thesis
      using assms e load16_mono [OF e, of post] by (simp add: ParsePacket_def packet_offsets Let_def)
  next
    case True
    then obtain v pr s d where f: "mem_get m (i + 14) = Some v" "mem_get m (i + 23) = Some pr"
      "load32 m (i + 26) = Some s" "load32 m (i + 30) = Some d"
      using assms e by (auto simp: ParsePacket_def packet_offsets Let_def bind_eq_Some_conv ac_simps)
    note m = ParsePacket_ipv4 [OF e True f, where p = p and len = len]
    note m' = ParsePacket_ipv4 [OF load16_mono [OF e] True mem_get_mono [OF f(1)] mem_get_mono [OF f(2)]
        load32_mono [OF f(3)] load32_mono [OF f(4)], where p = p and len = len]
    show ?thesis
      using assms unfolding m m' Let_def
      by (auto simp: bind_eq_Some_conv load16_mono split: if_splits)
  qed
qed

section \<open>Capture files\<close>

text \<open>A captured packet and its record in the file.\<close>

record capture =
  c_ts :: u32
  c_us :: u32
  c_wire :: u32
  c_bytes :: "u8 list"

definition capture_record :: "capture \<Rightarrow> u8 list" where
  "capture_record c = le32 (c_ts c) @ le32 (c_us c) @ le32 (of_nat (length (c_bytes c))) @
     le32 (c_wire c) @ c_bytes c"

definition capture_file :: "u8 list \<Rightarrow> capture list \<Rightarrow> u8 list" where
  "capture_file header cs = header @ concat (map capture_record cs)"

text \<open>
  A TCP or UDP packet by the bytes of its frame, independently of the parser: type \<open>0x0800\<close> at offset 12,
  protocol 6 or 17 at offset 23, the addresses at 26 and 30 and the ports behind the IPv4 header,
  whose length in words is the low half of byte 14. Numbers on the wire are big-endian.
\<close>

definition be_val :: "u8 list \<Rightarrow> nat" where
  "be_val bs = foldl (\<lambda>v b. 256 * v + unat b) 0 bs"

definition wire_field :: "nat \<Rightarrow> nat \<Rightarrow> u8 list \<Rightarrow> nat" where
  "wire_field i n bs = be_val (take n (drop i bs))"

definition ipv4_frame :: "u8 list \<Rightarrow> bool" where
  "ipv4_frame bs \<longleftrightarrow> bs ! 12 = 0x08 \<and> bs ! 13 = 0x00"

definition ports_at :: "u8 list \<Rightarrow> nat" where
  "ports_at bs = 14 + 4 * (unat (bs ! 14) mod 16)"

definition tcp_udp_frame :: "u8 list \<Rightarrow> bool" where
  "tcp_udp_frame bs \<longleftrightarrow> ipv4_frame bs \<and> (bs ! 23 = 6 \<or> bs ! 23 = 17)"

text \<open>The packet holds its headers, so that reading them does not go past its end.\<close>

definition capture_ok :: "capture \<Rightarrow> bool" where
  "capture_ok c \<longleftrightarrow> length (c_bytes c) < 4294967296 \<and> 14 \<le> length (c_bytes c) \<and>
     (ipv4_frame (c_bytes c) \<longrightarrow> 34 \<le> length (c_bytes c)) \<and>
     (tcp_udp_frame (c_bytes c) \<longrightarrow> ports_at (c_bytes c) + 4 \<le> length (c_bytes c))"

definition capture_packet :: "PcapPacket \<Rightarrow> capture \<Rightarrow> PcapPacket" where
  "capture_packet junk c = (let bs = c_bytes c in
     junk\<lparr>tv_sec := uint (c_ts c), tv_usec := uint (c_us c), l2_type := 0x0800, l3_type := ucast (bs ! 23),
       scr_ipv4 := of_nat (wire_field 26 4 bs), dst_ipv4 := of_nat (wire_field 30 4 bs),
       scr_port := of_nat (wire_field (ports_at bs) 2 bs), dst_port := of_nat (wire_field (ports_at bs + 2) 2 bs)\<rparr>)"

definition captured :: "PcapPacket \<Rightarrow> capture \<Rightarrow> PcapPacket list" where
  "captured junk c = (if tcp_udp_frame (c_bytes c) then [capture_packet junk c] else [])"

text \<open>The parser agrees.\<close>

definition parse_capture :: "PcapPacket \<Rightarrow> capture \<Rightarrow> (int \<times> PcapPacket) option" where
  "parse_capture junk c =
     ParsePacket (junk\<lparr>tv_sec := uint (c_ts c), tv_usec := uint (c_us c)\<rparr>) (c_bytes c) 0
       (of_nat (length (c_bytes c)))"

lemma mem_byte_unat: "unat (mem_byte v k) = unat v div 2 ^ (8 * k) mod 256"
proof -
  have "unat (mem_byte v k) = take_bit 8 (drop_bit (8 * k) (unat v))"
    by (simp add: mem_byte_def unsigned_ucast_eq unsigned_drop_bit_eq take_bit_nat_eq_self unsigned_less)
  then show ?thesis by (simp add: take_bit_eq_mod drop_bit_eq_div)
qed

lemma load16_wire:
  assumes "i + 2 \<le> length m"
  shows "\<exists>w. load16 m i = Some w \<and> ntoh16 w = of_nat (wire_field i 2 m) \<and>
    (ntoh16 w = 0x0800 \<longleftrightarrow> m ! i = 0x08 \<and> m ! (i + 1) = 0x00)"
proof -
  define v where "v = (of_nat (wire_field i 2 m) :: u16)"
  have bytes: "take 2 (drop i m) = [m ! i, m ! (i + 1)]"
    using assms by (intro nth_equalityI) (auto simp: less_2)
  have w: "wire_field i 2 m = 256 * unat (m ! i) + unat (m ! (i + 1))"
    by (simp add: wire_field_def be_val_def bytes)
  have b: "unat (m ! i) < 256" "unat (m ! (i + 1)) < 256"
    using unsigned_less [of "m ! i", where ?'a = nat] unsigned_less [of "m ! (i + 1)", where ?'a = nat] by simp_all
  then have u: "unat v = 256 * unat (m ! i) + unat (m ! (i + 1))"
    unfolding v_def w unat_of_nat by simp
  have "be16 v = [m ! i, m ! (i + 1)]"
    using b by (simp add: be16_def mem_byte_unat word_unat_eq_iff u)
  then have v: "m ! i = mem_byte v 1" "m ! (i + 1) = mem_byte v 0" by (simp_all add: be16_def)
  have "load16 m i = Some (htobe_u16 v)"
    using assms v by (intro load16_eq) (simp_all add: mem_get_def htobe_u16_bytes htobe_u16_bytes [simplified])
  moreover have "256 * unat (m ! i) + unat (m ! (i + 1)) = 2048 \<longleftrightarrow> unat (m ! i) = 8 \<and> unat (m ! (i + 1)) = 0"
    using b by presburger
  then have "v = 0x0800 \<longleftrightarrow> m ! i = 0x08 \<and> m ! (i + 1) = 0x00"
    by (simp add: word_unat_eq_iff u)
  ultimately show ?thesis by (intro exI [of _ "htobe_u16 v"]) (simp add: v_def)
qed

lemma four_digits:
  assumes "a < 256" "b < 256" "c < 256" "d < (256 :: nat)"
  defines "v \<equiv> 16777216 * a + 65536 * b + 256 * c + d"
  shows "v div 16777216 = a" "v div 65536 mod 256 = b" "v div 256 mod 256 = c" "v mod 256 = d"
proof -
  have step: "(256 * x + y) div 256 = x" "(256 * x + y) mod 256 = y" if "y < 256" for x y :: nat
    using that by simp_all
  have "v = 256 * (65536 * a + 256 * b + c) + d" "65536 * a + 256 * b + c = 256 * (256 * a + b) + c"
    by (simp_all add: v_def)
  then have d: "v div 256 = 65536 * a + 256 * b + c" "v mod 256 = d"
    and e: "(65536 * a + 256 * b + c) div 256 = 256 * a + b" "(65536 * a + 256 * b + c) mod 256 = c"
    using step [OF assms(4)] step [OF assms(3)] by metis+
  have f: "v div 65536 = v div 256 div 256" "v div 16777216 = v div 65536 div 256"
    using div_mult2_eq [of v 256 256] div_mult2_eq [of v 65536 256] by simp_all
  show "v mod 256 = d" "v div 256 mod 256 = c" unfolding d e by (rule refl)+
  have g: "v div 65536 = 256 * a + b" unfolding f d e by (rule refl)
  show "v div 65536 mod 256 = b" "v div 16777216 = a" unfolding f(2) g step [OF assms(2)] by (rule refl)+
qed

lemma load32_wire:
  assumes "i + 4 \<le> length m"
  shows "\<exists>w. load32 m i = Some w \<and> ntoh32 w = of_nat (wire_field i 4 m)"
proof -
  define v where "v = (of_nat (wire_field i 4 m) :: u32)"
  let ?b = "\<lambda>k. unat (m ! (i + k))"
  have bytes: "take 4 (drop i m) = [m ! i, m ! (i + 1), m ! (i + 2), m ! (i + 3)]"
    using assms by (intro nth_equalityI) (auto simp: less_4)
  have w: "wire_field i 4 m = 16777216 * ?b 0 + 65536 * ?b 1 + 256 * ?b 2 + ?b 3"
    by (simp add: wire_field_def be_val_def bytes)
  have b: "?b k < 256" for k using unsigned_less [of "m ! (i + k)", where ?'a = nat] by simp
  have "16777216 * ?b 0 + 65536 * ?b 1 + 256 * ?b 2 + ?b 3 < 4294967296"
    using b [of 0] b [of 1] b [of 2] b [of 3] by linarith
  then have u: "unat v = 16777216 * ?b 0 + 65536 * ?b 1 + 256 * ?b 2 + ?b 3"
    unfolding v_def w unat_of_nat by simp
  have v: "m ! (i + k) = mem_byte v (3 - k)" if "k < 4" for k
    using that four_digits [OF b [of 0] b [of 1] b [of 2] b [of 3]] b [of 0]
    by (auto simp: less_4 mem_byte_unat word_unat_eq_iff u)
  have "load32 m i = Some (htobe_u32 v)"
    using assms v [of 0] v [of 1] v [of 2] v [of 3]
    by (intro load32_eq) (simp_all add: mem_get_def htobe_u32_bytes htobe_u32_bytes [simplified])
  then show ?thesis by (intro exI [of _ "htobe_u32 v"]) (simp add: v_def)
qed

lemma ihl_mod: "ihl_bytes v = 4 * (unat v mod 16)"
proof -
  have "unat (v AND 15) = unat v mod 16"
    using arg_cong [OF take_bit_eq_mask [of 4 v], of unat]
    by (simp add: mask_eq_exp_minus_1 take_bit_eq_mod unat_mod)
  then show ?thesis using ihl_shift [of v] by (simp add: ihl_bytes_def)
qed

lemma parse_capture_ok:
  assumes "capture_ok c"
  shows "\<exists>ret q. parse_capture junk c = Some (ret, q) \<and> captured junk c = (if ret \<noteq> 0 then [q] else [])"
proof -
  let ?m = "c_bytes c" and ?p = "junk\<lparr>tv_sec := uint (c_ts c), tv_usec := uint (c_us c)\<rparr>"
  have len: "14 \<le> length ?m" "ipv4_frame ?m \<longrightarrow> 34 \<le> length ?m"
    "tcp_udp_frame ?m \<longrightarrow> ports_at ?m + 4 \<le> length ?m"
    using assms by (simp_all add: capture_ok_def)
  obtain e where e: "load16 ?m 12 = Some e" "ntoh16 e = ETHER_TYPE_IPv4 \<longleftrightarrow> ipv4_frame ?m"
    using load16_wire [of 12 ?m] len(1) by (auto simp: ETHER_TYPE_IPv4_def ipv4_frame_def)
  show ?thesis
  proof (cases "ipv4_frame ?m")
    case False
    then have "ETHER_TYPE_IPv4 \<noteq> ntoh16 e" using e(2) by metis
    then show ?thesis using e(1) False
      by (simp add: parse_capture_def ParsePacket_def packet_offsets Let_def captured_def tcp_udp_frame_def)
  next
    case True
    then have 34: "34 \<le> length ?m" using len(2) by simp
    obtain s d where f: "load32 ?m 26 = Some s" "ntoh32 s = of_nat (wire_field 26 4 ?m)"
      "load32 ?m 30 = Some d" "ntoh32 d = of_nat (wire_field 30 4 ?m)"
      using load32_wire [of 26 ?m] load32_wire [of 30 ?m] 34 by auto
    have g: "mem_get ?m 14 = Some (?m ! 14)" "mem_get ?m 23 = Some (?m ! 23)" using 34 by (simp_all add: mem_get_def)
    have at: "14 + ihl_bytes (?m ! 14) = ports_at ?m" by (simp add: ports_at_def ihl_mod)
    have ip: "ParsePacket ?p ?m 0 n =
      (let p = ?p\<lparr>l2_type := ETHER_TYPE_IPv4, l3_type := ucast (?m ! 23), scr_ipv4 := ntoh32 s, dst_ipv4 := ntoh32 d\<rparr>
       in if ?m ! 23 = IPPROTO_TCP \<or> ?m ! 23 = IPPROTO_UDP then do {
            sp \<leftarrow> load16 ?m (ports_at ?m); dp \<leftarrow> load16 ?m (ports_at ?m + 2);
            Some (1, p\<lparr>scr_port := ntoh16 sp, dst_port := ntoh16 dp\<rparr>) }
          else Some (0, p))" for n
      by (rule ParsePacket_ipv4 [of ?m 0 e "?m ! 14" "?m ! 23" s d ?p n, unfolded add_0 at]) (use e True f g in simp_all)
    show ?thesis
    proof (cases "?m ! 23 = 6 \<or> ?m ! 23 = 17")
      case no: False
      then show ?thesis unfolding parse_capture_def ip
        by (simp add: Let_def captured_def tcp_udp_frame_def IPPROTO_TCP_def IPPROTO_UDP_def)
    next
      case yes: True
      then have "ports_at ?m + 4 \<le> length ?m" using len(3) True by (simp add: tcp_udp_frame_def)
      then obtain a b where "load16 ?m (ports_at ?m) = Some a" "ntoh16 a = of_nat (wire_field (ports_at ?m) 2 ?m)"
        "load16 ?m (ports_at ?m + 2) = Some b" "ntoh16 b = of_nat (wire_field (ports_at ?m + 2) 2 ?m)"
        using load16_wire [of "ports_at ?m" ?m] load16_wire [of "ports_at ?m + 2" ?m] by auto
      then show ?thesis using yes f True unfolding parse_capture_def ip
        by (simp add: Let_def captured_def capture_packet_def tcp_udp_frame_def IPPROTO_TCP_def IPPROTO_UDP_def
            ETHER_TYPE_IPv4_def)
    qed
  qed
qed

text \<open>The groups after the packets \<open>ps\<close> have been distributed by their hash.\<close>

definition group_of :: "u8 \<Rightarrow> PcapPacket \<Rightarrow> nat" where
  "group_of n p = unat (Hash4Tuple p) mod unat n"

definition distribute :: "u8 \<Rightarrow> PcapPacket list \<Rightarrow> PcapPacket list list \<Rightarrow> PcapPacket list list" where
  "distribute n ps ds = map (\<lambda>i. ds ! i @ filter (\<lambda>p. group_of n p = i) ps) [0..<length ds]"

lemma length_distribute [simp]: "length (distribute n ps ds) = length ds"
  by (simp add: distribute_def)

lemma distribute_nil [simp]: "distribute n [] ds = ds"
  by (rule nth_equalityI) (simp_all add: distribute_def)

lemma distribute_append: "distribute n (ps @ qs) ds = distribute n qs (distribute n ps ds)"
  by (rule nth_equalityI) (simp_all add: distribute_def)

lemma push_packet_eq:
  assumes "n \<noteq> 0" "length ds = unat n"
  shows "push_packet n p ds = Some (distribute n [p] ds)"
proof -
  have "group_of n p < unat n" using assms(1) by (simp add: group_of_def unat_gt_0)
  moreover from this have "ds[group_of n p := ds ! group_of n p @ [p]] = distribute n [p] ds"
    using assms(2) by (intro nth_equalityI) (auto simp: distribute_def nth_list_update)
  ultimately show ?thesis
    using assms by (simp add: push_packet_def Let_def group_of_def [symmetric] mem_get_in mem_set_in)
qed

lemma length_capture_record [simp]: "length (capture_record c) = 16 + length (c_bytes c)"
  by (simp add: capture_record_def)

lemma read_packet_header_append:
  "read_packet_header (xs @ m) (length xs) = read_packet_header m 0"
  using load32_append [of xs m 0] load32_append [of xs m 4] load32_append [of xs m 8]
    load32_append [of xs m 12]
  by (simp add: read_packet_header_def)

lemma read_packet_header_record:
  "read_packet_header (capture_record c @ post) 0 =
    Some \<lparr>timestamp = c_ts c, microseconds = c_us c, packet_length = of_nat (length (c_bytes c)),
      packet_length_wire = c_wire c\<rparr>"
  by (simp add: read_packet_header_def capture_record_def load32_skip load32_le32)

lemma read_loop_record:
  assumes "capture_ok c" "n \<noteq> 0" "length ds = unat n" "length pre \<le> len"
  shows "read_loop junk (pre @ capture_record c @ post) len n (length pre) ds =
    read_loop junk (pre @ capture_record c @ post) len n (length pre + length (capture_record c))
      (distribute n (captured junk c) ds)"
proof -
  let ?m = "pre @ capture_record c @ post"
  obtain ret q where q: "parse_capture junk c = Some (ret, q)" "captured junk c = (if ret \<noteq> 0 then [q] else [])"
    using parse_capture_ok [OF assms(1)] by blast
  have len: "unat (of_nat (length (c_bytes c)) :: u32) = length (c_bytes c)"
    using assms(1) by (simp add: capture_ok_def unat_of_nat32)
  define hd16 where "hd16 = pre @ le32 (c_ts c) @ le32 (c_us c) @ le32 (of_nat (length (c_bytes c))) @
    le32 (c_wire c)"
  have m: "?m = hd16 @ c_bytes c @ post" "length pre + 16 = length hd16 + 0"
    by (simp_all add: hd16_def capture_record_def)
  have parse: "ParsePacket (junk\<lparr>tv_sec := uint (c_ts c), tv_usec := uint (c_us c)\<rparr>) ?m (length pre + 16)
      (of_nat (length (c_bytes c))) = Some (ret, q)"
    unfolding m ParsePacket_append by (rule ParsePacket_mono) (use q(1) in \<open>simp add: parse_capture_def\<close>)
  have push: "(if ret \<noteq> 0 then push_packet n q ds else Some ds) =
      Some (distribute n (captured junk c) ds)"
    using push_packet_eq [OF assms(2,3)] q(2) by simp
  show ?thesis
    using assms(4) parse push
    by (subst read_loop.simps)
      (simp add: read_packet_header_append read_packet_header_record len add.assoc)
qed

lemma read_loop_records:
  assumes "\<forall>c \<in> set cs. capture_ok c" "n \<noteq> 0" "length ds = unat n"
    "length pre + length (concat (map capture_record cs)) \<le> len"
  shows "read_loop junk (pre @ concat (map capture_record cs) @ post) len n (length pre) ds =
    read_loop junk (pre @ concat (map capture_record cs) @ post) len n
      (length pre + length (concat (map capture_record cs)))
      (distribute n (concat (map (captured junk) cs)) ds)"
  using assms
proof (induction cs arbitrary: pre ds)
  case (Cons c cs)
  have "read_loop junk (pre @ capture_record c @ concat (map capture_record cs) @ post) len n
      (length pre) ds =
    read_loop junk ((pre @ capture_record c) @ concat (map capture_record cs) @ post) len n
      (length (pre @ capture_record c)) (distribute n (captured junk c) ds)"
    using Cons.prems read_loop_record [of c n ds pre len junk "concat (map capture_record cs) @ post"]
    by simp
  also have "\<dots> = read_loop junk ((pre @ capture_record c) @ concat (map capture_record cs) @ post) len n
      (length (pre @ capture_record c) + length (concat (map capture_record cs)))
      (distribute n (concat (map (captured junk) cs)) (distribute n (captured junk c) ds))"
    using Cons.prems by (intro Cons.IH) auto
  finally show ?case by (simp add: distribute_append add.assoc)
qed simp

lemma load32_None: "length m \<le> i \<Longrightarrow> load32 m i = None"
  by (simp add: load32_def mem_simps)

text \<open>At the end of the file the loop runs once more, on what follows the buffer.\<close>

lemma read_loop_end_fault: "read_loop junk m (length m) n (length m) ds = None"
  by (subst read_loop.simps) (simp add: read_packet_header_def load32_None)

text \<open>
  It goes well when the 30 bytes behind the buffer can be read and do not look like an IPv4 frame: the two
  bytes where its type would be are not \<open>08 00\<close>.
\<close>

definition quiet :: "u8 list \<Rightarrow> bool" where
  "quiet beyond \<longleftrightarrow> 30 \<le> length beyond \<and> \<not> (beyond ! 28 = 0x08 \<and> beyond ! 29 = 0x00)"

lemma quiet_zeros [simp]: "quiet (replicate 30 0 @ ys)" "quiet (replicate 30 0)"
  by (simp_all add: quiet_def nth_append)

lemma read_packet_header_Some:
  assumes "16 \<le> length m"
  shows "\<exists>h. read_packet_header m 0 = Some h"
  using load32_wire [of 0 m] load32_wire [of 4 m] load32_wire [of 8 m] load32_wire [of 12 m] assms
  by (auto simp: read_packet_header_def)

lemma read_loop_end_quiet:
  assumes "quiet beyond"
  shows "read_loop junk (m @ beyond) (length m) n (length m) ds = Some ds"
proof -
  have len: "30 \<le> length beyond" using assms by (simp add: quiet_def)
  then have "16 \<le> length beyond" by simp
  then obtain h where h: "read_packet_header (m @ beyond) (length m) = Some h"
    using read_packet_header_Some [of beyond] by (auto simp: read_packet_header_append)
  obtain e where e: "load16 beyond (16 + 12) = Some e" "ntoh16 e \<noteq> ETHER_TYPE_IPv4"
    using load16_wire [of 28 beyond] assms by (auto simp: quiet_def ETHER_TYPE_IPv4_def)
  have p: "ParsePacket q (m @ beyond) (length m + 16) k = Some (0, q\<lparr>l2_type := ntoh16 e\<rparr>)" for q k
    unfolding ParsePacket_append using e by (simp add: ParsePacket_def packet_offsets Let_def)
  show ?thesis
    by (subst read_loop.simps) (simp add: h p, subst read_loop.simps, simp)
qed

lemma FileReader_eq:
  "fs path = Some f \<Longrightarrow> length f < 18446744073709551616 \<Longrightarrow>
   FileReader fs path = Some \<lparr>mdata = f, mlength = length f\<rparr>"
  by (simp add: FileReader_def mmap_create_def get_file_size_def Let_def)

lemma load32_Some: "i + 4 \<le> length m \<Longrightarrow> \<exists>w. load32 m i = Some w"
  by (simp add: load32_def mem_get_def)

lemma load16_Some: "i + 2 \<le> length m \<Longrightarrow> \<exists>w. load16 m i = Some w"
  by (simp add: load16_def mem_get_def)

lemma read_file_header_Some:
  assumes "24 \<le> length m"
  shows "\<exists>h. read_file_header m 0 = Some h"
  using load32_Some [of 0 m] load16_Some [of 4 m] load16_Some [of 6 m] load32_Some [of 8 m]
    load32_Some [of 12 m] load32_Some [of 16 m] load32_Some [of 20 m] assms
  by (auto simp: read_file_header_def)

lemma ReadPcapFile_eq:
  assumes "fs path = Some (capture_file header cs)" "length header = 24"
    "length (capture_file header cs) < 18446744073709551616" "\<forall>c \<in> set cs. capture_ok c"
    "group_num reader \<noteq> 0" "length (datas reader) = unat (group_num reader)"
  shows "ReadPcapFile fs beyond junk path reader = do {
    ds \<leftarrow> read_loop junk (capture_file header cs @ beyond) (length (capture_file header cs))
      (group_num reader) (length (capture_file header cs))
      (distribute (group_num reader) (concat (map (captured junk) cs)) (datas reader));
    Some (0, reader\<lparr>datas := ds\<rparr>) }"
proof -
  obtain h where h: "read_file_header (capture_file header cs @ beyond) 0 = Some h"
    using read_file_header_Some [of "capture_file header cs @ beyond"] assms(2)
    by (auto simp: capture_file_def)
  have "read_loop junk (header @ concat (map capture_record cs) @ beyond) (length (capture_file header cs))
      (group_num reader) (length header) (datas reader) =
    read_loop junk (header @ concat (map capture_record cs) @ beyond) (length (capture_file header cs))
      (group_num reader) (length header + length (concat (map capture_record cs)))
      (distribute (group_num reader) (concat (map (captured junk) cs)) (datas reader))"
    using assms by (intro read_loop_records) (simp_all add: capture_file_def)
  then have "read_loop junk (capture_file header cs @ beyond) (length (capture_file header cs))
      (group_num reader) 24 (datas reader) =
    read_loop junk (capture_file header cs @ beyond) (length (capture_file header cs))
      (group_num reader) (length (capture_file header cs))
      (distribute (group_num reader) (concat (map (captured junk) cs)) (datas reader))"
    unfolding capture_file_def assms(2) by (simp add: assms(2))
  then show ?thesis
    using h by (simp add: ReadPcapFile_def Let_def FileReader_eq [where fs = fs and path = path, OF assms(1,3)] IsOK_def)
qed

lemma ReadPcapFile_groups:
  assumes "fs path = Some (capture_file header cs)" "length header = 24"
    "length (capture_file header cs) < 18446744073709551616" "\<forall>c \<in> set cs. capture_ok c"
    "n \<noteq> 0" "quiet beyond"
  shows "\<exists>reader. ReadPcapFile fs beyond junk path (new_PcapReader n) = Some (0, reader) \<and>
    (\<forall>i < unat n. GetPcapPacketVector reader (int i) =
      Some (filter (\<lambda>p. unat (Hash4Tuple p) mod unat n = i) (concat (map (captured junk) cs))))"
proof -
  let ?ds = "distribute n (concat (map (captured junk) cs)) (datas (new_PcapReader n))"
  let ?r = "(new_PcapReader n)\<lparr>datas := ?ds\<rparr>"
  have "ReadPcapFile fs beyond junk path (new_PcapReader n) = Some (0, ?r)"
    using ReadPcapFile_eq [of fs path header cs "new_PcapReader n" beyond] assms
      read_loop_end_quiet [OF assms(6), of junk "capture_file header cs" n ?ds]
    by (simp add: new_PcapReader_def)
  moreover have "GetPcapPacketVector ?r (int i) =
      Some (filter (\<lambda>p. unat (Hash4Tuple p) mod unat n = i) (concat (map (captured junk) cs)))"
    if "i < unat n" for i
  proof -
    have "unat n < 256" using unsigned_less [of n, where ?'a = nat] by simp
    then have "unat (word_of_int (int i) :: u64) mod unat n = i"
      using that by (simp add: unat_of_nat)
    then show ?thesis
      using that assms(5)
      by (simp add: GetPcapPacketVector_def new_PcapReader_def mem_get_in distribute_def group_of_def)
  qed
  ultimately show ?thesis by blast
qed

text \<open>
  With \<^verbatim>\<open>USE_MMAP\<close> the member \<open>buff\<close> is the same, and what can be read behind it are the zeros of the last
  page: a complete capture is read unless it ends within the last 29 bytes of a page.
\<close>

lemma FileReader_mapped:
  assumes "fs path = Some f" "f \<noteq> []" "length f < 18446744073709551616"
  shows "mmap_create_mapped fs path 0 (nat (get_file_size fs path)) = FileReader fs path"
  using assms by (simp add: FileReader_eq mmap_create_mapped_def get_file_size_def)

lemma ReadPcapFile_mapped:
  assumes capture: "fs path = Some (capture_file header cs)" "length header = 24"
      "length (capture_file header cs) < 18446744073709551616" "\<forall>c \<in> set cs. capture_ok c"
    and n: "n \<noteq> 0"
    and page: "0 < length (capture_file header cs) mod 4096" "length (capture_file header cs) mod 4096 \<le> 4066"
    and m: "FileReader fs path = Some m"
  shows "\<exists>reader. ReadPcapFile fs (mapped_rest m) junk path (new_PcapReader n) = Some (0, reader) \<and>
    (\<forall>i < unat n. GetPcapPacketVector reader (int i) =
      Some (filter (\<lambda>p. unat (Hash4Tuple p) mod unat n = i) (concat (map (captured junk) cs))))"
proof -
  let ?k = "length (capture_file header cs) mod 4096"
  have "mlength m = length (capture_file header cs)"
    using m FileReader_eq [where fs = fs and path = path, OF capture(1,3)] by auto
  then have "mapped_rest m = replicate (4096 - ?k) 0" using page(1) by (simp add: mapped_rest_def)
  moreover have "4096 - ?k = 30 + (4066 - ?k)" using page(2) by simp
  ultimately have "mapped_rest m = replicate 30 0 @ replicate (4066 - ?k) 0" by (metis replicate_add)
  then have "quiet (mapped_rest m)" by simp
  then show ?thesis using ReadPcapFile_groups [where fs = fs and path = path, OF capture n] by blast
qed

section \<open>Properties\<close>

text \<open>
  C13. A frame built as the network carries it, with any options and any payload, TCP or UDP, is
  parsed back from anywhere in memory: the call returns 1 and the packet has the addresses, ports
  and types of the frame, in the machine's byte order.
\<close>

theorem parse_frame_roundtrip:
  assumes "frame_ok f"
  shows "ParsePacket p (pre @ frame_bytes f @ post) (length pre) len = Some (1, parsed_frame p f)"
  using ParsePacket_mono [OF ParsePacket_frame [OF assms, of p len], of post]
    ParsePacket_append [of p pre "frame_bytes f @ post" 0 len] by simp

text \<open>
  C12. A capture file whose packets hold their headers is read completely when the 30 bytes behind
  the buffer can be read and do not look like an IPv4 frame: the call returns 0, and group \<open>i\<close> of the
  reader holds exactly the packets whose frame is IPv4 with protocol 6 or 17 and whose hash is \<open>i\<close> modulo the
  number of groups, in file order, with the addresses and ports their frames have on the wire,
  whatever an uninitialised packet contains.
\<close>

theorem read_pcap_groups:
  assumes "fs path = Some (capture_file header cs)" "length header = 24"
    "length (capture_file header cs) < 18446744073709551616" "\<forall>c \<in> set cs. capture_ok c"
    "n \<noteq> 0" "quiet beyond"
  shows "\<exists>reader. ReadPcapFile fs beyond junk path (new_PcapReader n) = Some (0, reader) \<and>
    (\<forall>i < unat n. GetPcapPacketVector reader (int i) =
      Some (filter (\<lambda>p. unat (Hash4Tuple p) mod unat n = i) (concat (map (captured junk) cs))))"
  using assms by (rule ReadPcapFile_groups)

text \<open>
  C18. The loop condition lets the loop run once more at the very end of the file, where it reads
  a header from outside the buffer: on the block \<^verbatim>\<open>malloc\<close> returned, every complete capture file,
  the empty one included, ends in an access out of bounds.
\<close>

theorem read_pcap_overruns:
  assumes "fs path = Some (capture_file header cs)" "length header = 24"
    "length (capture_file header cs) < 18446744073709551616" "\<forall>c \<in> set cs. capture_ok c"
    "n \<noteq> 0"
  shows "ReadPcapFile fs [] junk path (new_PcapReader n) = None"
  using ReadPcapFile_eq [of fs path header cs "new_PcapReader n" "[]"] assms
    read_loop_end_fault [of junk "capture_file header cs" n]
  by (simp add: new_PcapReader_def)

section \<open>The hypotheses hold on a small capture\<close>

definition small_frame :: frame where
  "small_frame = \<lparr>macs = replicate 12 0, vi = 0x46, ip8 = replicate 8 0, proto = 17,
     cksum = [0, 0], src = 0x0A000001, dst = 0x0A000002, options = [1, 1, 1, 1],
     sport = 5353, dport = 53, segment = [0, 8, 0, 0]\<rparr>"

definition small_capture :: capture where
  "small_capture = \<lparr>c_ts = 1500000000, c_us = 7, c_wire = 46, c_bytes = frame_bytes small_frame\<rparr>"

definition blank_packet :: PcapPacket where
  "blank_packet = \<lparr>pkt_data = [], tv_sec = 0, tv_usec = 0, scr_ipv4 = 99, dst_ipv4 = 0, scr_port = 0,
     dst_port = 0, l3_type = 0, l2_type = 0, url = []\<rparr>"

lemma small_frame_ok: "frame_ok small_frame"
  by (simp add: frame_ok_def small_frame_def)

theorem parse_frame_roundtrip_witness:
  "\<exists>q. ParsePacket blank_packet ([7, 7, 7] @ frame_bytes small_frame @ [9]) 3 0 = Some (1, q) \<and>
    scr_ipv4 q = 0x0A000001 \<and> dst_ipv4 q = 0x0A000002 \<and> scr_port q = 5353 \<and> dst_port q = 53"
  using parse_frame_roundtrip [OF small_frame_ok, of blank_packet "[7, 7, 7]" "[9]" 0]
  by (simp add: parsed_frame_def small_frame_def numeral_3_eq_3)

lemma small_capture_ok: "capture_ok small_capture" "length (c_bytes small_capture) = 46"
proof -
  have bytes: "c_bytes small_capture = replicate 12 0 @ [0x08, 0x00, 0x46] @ replicate 8 0 @ [17, 0, 0, 10, 0, 0, 1,
      10, 0, 0, 2, 1, 1, 1, 1, 0x14, 0xE9, 0, 53, 0, 8, 0, 0]"
    by (simp add: small_capture_def frame_bytes_def small_frame_def be16_def be32_def mem_byte_def drop_bit_eq_div)
  show "length (c_bytes small_capture) = 46" "capture_ok small_capture"
    by (simp_all add: capture_ok_def bytes ipv4_frame_def tcp_udp_frame_def ports_at_def nth_append)
qed

lemma small_captured:
  "captured blank_packet small_capture = [parsed_frame (blank_packet\<lparr>tv_sec := 1500000000, tv_usec := 7\<rparr>) small_frame]"
proof -
  have "parse_capture blank_packet small_capture =
      Some (1, parsed_frame (blank_packet\<lparr>tv_sec := 1500000000, tv_usec := 7\<rparr>) small_frame)"
    using ParsePacket_frame [OF small_frame_ok] by (simp add: parse_capture_def small_capture_def)
  then show ?thesis using parse_capture_ok [OF small_capture_ok(1), of blank_packet] by auto
qed

lemma small_capture_hash: "unat (Hash4Tuple (parsed_frame p small_frame)) mod 2 = 0"
  by (simp add: Hash4Tuple_def parsed_frame_def small_frame_def)

definition small_files :: files where
  "small_files = [''a.pcap'' \<mapsto> capture_file (replicate 24 0) [small_capture]]"

lemma small_files_ok:
  "small_files ''a.pcap'' = Some (capture_file (replicate 24 0) [small_capture])"
  "length (capture_file (replicate 24 0) [small_capture]) < 18446744073709551616"
  by (simp_all add: small_files_def capture_file_def small_capture_ok(2))

theorem read_pcap_groups_witness:
  "\<exists>reader. ReadPcapFile small_files (replicate 30 0 @ [1]) blank_packet ''a.pcap'' (new_PcapReader 2) =
      Some (0, reader) \<and>
    GetPcapPacketVector reader 1 = Some [] \<and>
    GetPcapPacketVector reader 0 =
      Some [parsed_frame (blank_packet\<lparr>tv_sec := 1500000000, tv_usec := 7\<rparr>) small_frame]"
proof -
  obtain reader where r:
    "ReadPcapFile small_files (replicate 30 0 @ [1]) blank_packet ''a.pcap'' (new_PcapReader 2) =
      Some (0, reader)"
    "\<forall>i < 2. GetPcapPacketVector reader (int i) =
      Some (filter (\<lambda>p. unat (Hash4Tuple p) mod 2 = i) (captured blank_packet small_capture))"
    using read_pcap_groups [where fs = small_files and path = "''a.pcap''" and junk = blank_packet and n = 2,
      OF small_files_ok(1) _ small_files_ok(2), where beyond = "replicate 30 0 @ [1]"]
      small_capture_ok(1) by auto
  show ?thesis
    using r(1) r(2) [rule_format, of 0] r(2) [rule_format, of 1]
    by (intro exI [of _ reader]) (simp add: small_captured small_capture_hash)
qed

theorem read_pcap_overruns_witness:
  "ReadPcapFile small_files [] blank_packet ''a.pcap'' (new_PcapReader 2) = None"
  using read_pcap_overruns [where fs = small_files and path = "''a.pcap''" and junk = blank_packet and n = 2,
      OF small_files_ok(1) _ small_files_ok(2)]
    small_capture_ok(1) by simp

end
