(* ===== verification/Packet_Layout.thy ===== *)
theory Packet_Layout
  imports Pcap
begin

text \<open>
  The packed structures of \<^verbatim>\<open>packet.h\<close> as lists of fields with their widths in bytes. The offsets the parser
  of theory \<open>Pcap\<close> uses are the offsets in these structures, and from them follows how many bytes
  it reads.
\<close>

section \<open>Structures\<close>

type_synonym layout = "(string \<times> nat) list"

definition sizeof :: "layout \<Rightarrow> nat" where
  "sizeof l = sum_list (map snd l)"

fun offset_of :: "layout \<Rightarrow> string \<Rightarrow> nat option" where
  "offset_of [] f = None"
| "offset_of ((n, w) # l) f = (if n = f then Some 0 else map_option ((+) w) (offset_of l f))"

definition ETHER_ADDR_LEN :: nat where "ETHER_ADDR_LEN = 6"

definition ether_addr :: layout where
  "ether_addr = [(''addr_bytes'', ETHER_ADDR_LEN)]"

definition ether_hdr :: layout where
  "ether_hdr = [(''d_addr'', sizeof ether_addr), (''s_addr'', sizeof ether_addr), (''ether_type'', 2)]"

definition vlan_hdr :: layout where
  "vlan_hdr = [(''vlan_tci'', 2), (''eth_proto'', 2)]"

definition vxlan_hdr :: layout where
  "vxlan_hdr = [(''vx_flags'', 4), (''vx_vni'', 4)]"

definition ipv4_hdr :: layout where
  "ipv4_hdr = [(''version_ihl'', 1), (''type_of_service'', 1), (''total_length'', 2), (''packet_id'', 2),
     (''fragment_offset'', 2), (''time_to_live'', 1), (''next_proto_id'', 1), (''hdr_checksum'', 2),
     (''src_addr'', 4), (''dst_addr'', 4)]"

definition tcp_hdr :: layout where
  "tcp_hdr = [(''src_port'', 2), (''dst_port'', 2), (''sent_seq'', 4), (''recv_ack'', 4), (''data_off'', 1),
     (''tcp_flags'', 1), (''rx_win'', 2), (''cksum'', 2), (''tcp_urp'', 2)]"

definition udp_hdr :: layout where
  "udp_hdr = [(''src_port'', 2), (''dst_port'', 2), (''dgram_len'', 2), (''dgram_cksum'', 2)]"

definition ETHER_VXLAN_HLEN :: nat where
  "ETHER_VXLAN_HLEN = sizeof udp_hdr + sizeof vxlan_hdr"

lemmas layouts = sizeof_def ETHER_ADDR_LEN_def ether_addr_def ether_hdr_def vlan_hdr_def vxlan_hdr_def ipv4_hdr_def
  tcp_hdr_def udp_hdr_def ETHER_VXLAN_HLEN_def

section \<open>Fields\<close>

text \<open>A field lies inside its structure, and two fields do not overlap.\<close>

lemma offset_inside: "offset_of l f = Some k \<Longrightarrow> \<exists>w. (f, w) \<in> set l \<and> k + w \<le> sizeof l"
proof (induction l arbitrary: k)
  case (Cons x l)
  obtain n w where x: "x = (n, w)" by (cases x)
  show ?case
  proof (cases "n = f")
    case True
    then show ?thesis using Cons.prems x by (auto simp: sizeof_def)
  next
    case False
    then obtain k' where k: "offset_of l f = Some k'" "k = w + k'" using Cons.prems x by auto
    from Cons.IH [OF k(1)] k(2) x show ?thesis by (auto simp: sizeof_def)
  qed
qed simp

lemma offset_disjoint:
  assumes "distinct (map fst l)" "offset_of l f = Some j" "offset_of l g = Some k" "(f, v) \<in> set l" "(g, w) \<in> set l" "f \<noteq> g"
  shows "j + v \<le> k \<or> k + w \<le> j"
  using assms
proof (induction l arbitrary: j k)
  case (Cons x l)
  obtain n u where x: "x = (n, u)" by (cases x)
  have uniq: "v' = u" if "(n, v') \<in> set (x # l)" for v' using that Cons.prems(1) x by force
  consider "n = f" "n \<noteq> g" | "n = g" "n \<noteq> f" | "n \<noteq> f" "n \<noteq> g" using Cons.prems(6) by blast
  then show ?case
  proof cases
    case 1
    then have "u \<le> k" "j = 0" using Cons.prems(2,3) x by auto
    moreover have "v = u" using uniq [of v] Cons.prems(4) 1(1) by simp
    ultimately show ?thesis by simp
  next
    case 2
    then have "u \<le> j" "k = 0" using Cons.prems(2,3) x by auto
    moreover have "w = u" using uniq [of w] Cons.prems(5) 2(1) by simp
    ultimately show ?thesis by simp
  next
    case 3
    then obtain j' k' where "offset_of l f = Some j'" "j = u + j'" "offset_of l g = Some k'" "k = u + k'"
      using Cons.prems(2,3) x by auto
    then show ?thesis using Cons.IH [of j' k'] Cons.prems 3 x by auto
  qed
qed simp

text \<open>The offsets of the parser. It takes the ports of a TCP and of a UDP header from the same place.\<close>

lemma parser_offsets:
  "sizeof ether_hdr = sizeof_ether_hdr" "offset_of ether_hdr ''ether_type'' = Some off_ether_type"
  "offset_of ipv4_hdr ''version_ihl'' = Some off_version_ihl"
  "offset_of ipv4_hdr ''next_proto_id'' = Some off_next_proto_id"
  "offset_of ipv4_hdr ''src_addr'' = Some off_src_addr" "offset_of ipv4_hdr ''dst_addr'' = Some off_dst_addr"
  "offset_of tcp_hdr ''src_port'' = Some off_src_port" "offset_of tcp_hdr ''dst_port'' = Some off_dst_port"
  "offset_of udp_hdr ''src_port'' = Some off_src_port" "offset_of udp_hdr ''dst_port'' = Some off_dst_port"
  by (simp_all add: layouts packet_offsets)

lemma sizes: "sizeof ipv4_hdr = 20" "sizeof tcp_hdr = 20" "sizeof udp_hdr = 8" "sizeof vlan_hdr = 4" "ETHER_VXLAN_HLEN = 16"
  by (simp_all add: layouts)

section \<open>What the parser reads\<close>

lemma load_inside: "i + 2 \<le> length m \<Longrightarrow> \<exists>w. load16 m i = Some w" "i + 4 \<le> length m \<Longrightarrow> \<exists>w. load32 m i = Some w"
  using load16_Some load32_Some by blast+

text \<open>The header length of IPv4 is at most 60 bytes, so this many bytes are always enough.\<close>

lemma header_length: "ihl_bytes v \<le> 60"
proof -
  have "v AND 15 \<le> 15" by (rule word_and_le1)
  then have "unat (v AND 15) \<le> 15" by (simp add: word_le_nat_alt)
  then show ?thesis
    by (simp add: ihl_bytes_def push_bit_eq_mult unat_word_ariths unsigned_ucast_eq take_bit_nat_eq_self)
qed

section \<open>Properties\<close>

text \<open>
  C19. On any bytes, when the longest headers fit behind the start, the parser reads inside the memory
  and returns 0 or 1.
\<close>

theorem ParsePacket_total:
  assumes "start + sizeof ether_hdr + 60 + 4 \<le> length m"
  shows "\<exists>ret q. ParsePacket p m start len = Some (ret, q) \<and> (ret = 0 \<or> ret = 1)"
proof -
  have len: "start + 78 \<le> length m" using assms by (simp add: layouts)
  obtain e where e: "load16 m (start + 12) = Some e" using load_inside(1) [of "start + 12" m] len by auto
  show ?thesis
  proof (cases "ntoh16 e = ETHER_TYPE_IPv4")
    case False
    then have "ETHER_TYPE_IPv4 \<noteq> ntoh16 e" by simp
    then show ?thesis using e by (simp add: ParsePacket_def packet_offsets Let_def)
  next
    case True
    obtain v pr s d where f: "mem_get m (start + 14) = Some v" "mem_get m (start + 23) = Some pr"
      "load32 m (start + 26) = Some s" "load32 m (start + 30) = Some d"
      using load_inside(2) [of "start + 26" m] load_inside(2) [of "start + 30" m] len by (auto simp: mem_get_def)
    define h where "h = start + 14 + ihl_bytes v"
    have "h + 4 \<le> length m" using header_length [of v] len by (simp add: h_def)
    then obtain a b where "load16 m h = Some a" "load16 m (h + 2) = Some b"
      using load_inside(1) [of h m] load_inside(1) [of "h + 2" m] by auto
    then show ?thesis
      unfolding ParsePacket_ipv4 [OF e True f] Let_def h_def [symmetric] by simp
  qed
qed

theorem ParsePacket_total_witness:
  "\<exists>ret q. ParsePacket blank_packet (replicate 100 0xFF) 3 0 = Some (ret, q) \<and> (ret = 0 \<or> ret = 1)"
  using ParsePacket_total [of 3 "replicate 100 0xFF" blank_packet 0] by (simp add: layouts)

end
