(* ===== verification/Pcap_Text.thy ===== *)
theory Pcap_Text
  imports Pcap Format
begin

text \<open>
  The printed form of packets and capture headers, from \<^verbatim>\<open>pcap.h\<close> and \<^verbatim>\<open>pcap.cc\<close>. A function that prints
  is modelled by the text it prints.
\<close>

section \<open>Addresses and packets\<close>

text \<open>\<^verbatim>\<open>IP_FORMAT(addr)\<close>, the format and its arguments.\<close>

definition IP_FORMAT :: "u32 \<Rightarrow> string" where
  "IP_FORMAT addr =
     show_int (sint (drop_bit 24 addr)) @ ''.'' @
     show_int (sint (drop_bit 16 addr AND 0x000000FF)) @ ''.'' @
     show_int (sint (drop_bit 8 addr AND 0x000000FF)) @ ''.'' @
     show_int (sint (addr AND 0x000000FF))"

definition port_text :: "u16 \<Rightarrow> u16 \<Rightarrow> string" where
  "port_text s d = ''src port = '' @ show_int (uint s) @ '', dst port= '' @ show_int (uint d) @ '' '' @ [newline]"

definition PrintPcapPacket :: "PcapPacket \<Rightarrow> string" where
  "PrintPcapPacket packet =
     ''src ip='' @ IP_FORMAT (scr_ipv4 packet) @ [newline] @
     ''dst ip='' @ IP_FORMAT (dst_ipv4 packet) @ [newline] @
     port_text (scr_port packet) (dst_port packet)"

section \<open>Headers\<close>

text \<open>The broken-down time that \<^verbatim>\<open>localtime_r\<close> yields; it depends on the time zone and is a parameter.\<close>

record tm =
  tm_year :: int
  tm_mon :: int
  tm_mday :: int
  tm_hour :: int
  tm_min :: int
  tm_sec :: int

text \<open>
  \<open>TimeStr\<close> returns what it prints and the string it leaves in its buffer.
\<close>

definition TimeStr :: "(u32 \<Rightarrow> tm option) \<Rightarrow> u32 \<Rightarrow> u32 \<Rightarrow> string \<Rightarrow> string \<times> string" where
  "TimeStr localtime ts us str =
     (case localtime ts of
        None \<Rightarrow> (''error, timestamp='' @ show_nat (unat ts) @ [newline], str)
      | Some p \<Rightarrow> ([], snprintf 32
          (show_pad 4 (1900 + tm_year p) @ ''-'' @ show_pad 2 (1 + tm_mon p) @ ''-'' @ show_pad 2 (tm_mday p) @ '' '' @
           show_pad 2 (tm_hour p) @ '':'' @ show_pad 2 (tm_min p) @ '':'' @ show_pad 2 (tm_sec p) @ ''.'' @
           show_nat (unat (us div 1000)))))"

definition PrintPcapFileHeader :: "PcapFileHeader \<Rightarrow> string" where
  "PrintPcapFileHeader pfh =
     ''magic_number='' @ show_hex (unat (magic_number pfh)) @ [newline] @
     ''version_major='' @ show_hex (unat (version_major pfh)) @ [newline] @
     ''version_minor='' @ show_hex (unat (version_minor pfh)) @ [newline] @
     ''thiszone='' @ show_hex (unat (thiszone pfh)) @ [newline] @
     ''sigfigs='' @ show_hex (unat (sigfigs pfh)) @ [newline] @
     ''snaplen='' @ show_nat (unat (snaplen pfh)) @ [newline] @
     ''network='' @ show_nat (unat (network pfh)) @ [newline] @
     [newline]"

definition PrintPcapPacketHeader :: "(u32 \<Rightarrow> tm option) \<Rightarrow> PcapPacketHeader \<Rightarrow> string" where
  "PrintPcapPacketHeader localtime pph =
     (case TimeStr localtime (timestamp pph) (microseconds pph) ''x'' of (out, buf) \<Rightarrow>
        out @ ''time:'' @ buf @ [newline] @
        ''packet_length='' @ show_nat (unat (packet_length pph)) @ [newline] @
        ''packet_length_wire='' @ show_nat (unat (packet_length_wire pph)) @ [newline])"

section \<open>The reader's report\<close>

fun print_sizes :: "PcapPacket list list \<Rightarrow> nat \<Rightarrow> string \<times> nat" where
  "print_sizes [] total_n = ([], total_n)"
| "print_sizes (d # ds) total_n =
     (case print_sizes ds (total_n + length d) of (out, total_n) \<Rightarrow>
        (''size = '' @ show_nat (length d) @ [newline] @ out, total_n))"

definition PrintInfo :: "PcapReader \<Rightarrow> string" where
  "PrintInfo reader =
     ''datas_.size = '' @ show_nat (length (datas reader)) @ [newline] @
     (case print_sizes (datas reader) 0 of (out, total_n) \<Rightarrow> out @ ''all = '' @ show_nat total_n @ [newline])"

lemma print_sizes_total: "snd (print_sizes ds n) = n + sum_list (map length ds)"
  by (induction ds arbitrary: n) (simp_all add: split_beta ac_simps)

section \<open>An address can be read back\<close>

lemma byte_and: "unat ((x :: u32) AND 0x000000FF) = unat x mod 256"
  using unat_and_mask [of x 8] by (simp add: mask_numeral)

lemma show_int_small: "unat (x :: u32) < 2147483648 \<Longrightarrow> show_int (sint x) = show_nat (unat x)"
proof -
  assume x: "unat x < 2147483648"
  then have "int (unat x) < 2147483648" by linarith
  then have "uint x < 2 ^ 31" by simp
  moreover have "- (2 ^ 31) \<le> uint x" by (rule order_trans [of _ 0]) simp_all
  ultimately have "signed_take_bit 31 (uint x) = uint x" by (intro signed_take_bit_int_eq_self)
  then have "sint x = int (unat x)" by (simp add: sint_uint)
  then show ?thesis by (simp add: show_int_def)
qed

lemma IP_FORMAT_dotted:
  "IP_FORMAT addr = show_nat (unat addr div 16777216) @ CHR ''.'' # show_nat (unat addr div 65536 mod 256) @
     CHR ''.'' # show_nat (unat addr div 256 mod 256) @ CHR ''.'' # show_nat (unat addr mod 256)"
proof -
  have d: "unat (drop_bit n addr) = unat addr div 2 ^ n" for n
    unfolding unat_drop_bit_eq by (rule drop_bit_eq_div)
  have "unat addr < 4294967296" by (rule unat_less_exp32)
  then have "unat addr div 16777216 < 256" by (simp add: less_mult_imp_div_less)
  then have "show_int (sint (drop_bit 24 addr)) = show_nat (unat addr div 16777216)"
    using show_int_small [of "drop_bit 24 addr"] by (simp add: d)
  moreover have "show_int (sint (x AND 0x000000FF)) = show_nat (unat x mod 256)" for x :: u32
    using show_int_small [of "x AND 0x000000FF"] byte_and [of x] pos_mod_bound [of 256 "int (unat x)"] 
    by (simp add: byte_and order.strict_trans [OF mod_less_divisor])
  ultimately show ?thesis
    unfolding IP_FORMAT_def by (simp add: d)
qed

text \<open>Two addresses with the same text, followed by something that is no digit, are the same.\<close>

lemma IP_FORMAT_delim:
  assumes "IP_FORMAT a @ x # s = IP_FORMAT b @ y # t" "\<not> isdigit x" "\<not> isdigit y"
  shows "a = b \<and> x = y \<and> s = t"
proof -
  have dot: "\<not> isdigit (CHR ''.'')" by (simp add: isdigit_def)
  note e = assms(1) [unfolded IP_FORMAT_dotted, simplified]
  from show_nat_delim [OF e dot dot] have
    1: "unat a div 16777216 = unat b div 16777216" and e: "show_nat (unat a div 65536 mod 256) @ CHR ''.'' #
      show_nat (unat a div 256 mod 256) @ CHR ''.'' # show_nat (unat a mod 256) @ x # s =
      show_nat (unat b div 65536 mod 256) @ CHR ''.'' #
      show_nat (unat b div 256 mod 256) @ CHR ''.'' # show_nat (unat b mod 256) @ y # t"
    by simp_all
  from show_nat_delim [OF e dot dot] have
    2: "unat a div 65536 mod 256 = unat b div 65536 mod 256" and e: "show_nat (unat a div 256 mod 256) @ CHR ''.'' #
      show_nat (unat a mod 256) @ x # s = show_nat (unat b div 256 mod 256) @ CHR ''.'' # show_nat (unat b mod 256) @ y # t"
    by simp_all
  from show_nat_delim [OF e dot dot] have
    3: "unat a div 256 mod 256 = unat b div 256 mod 256" and e: "show_nat (unat a mod 256) @ x # s = show_nat (unat b mod 256) @ y # t"
    by simp_all
  from show_nat_delim [OF e assms(2,3)] have 4: "unat a mod 256 = unat b mod 256" "x = y" "s = t" by simp_all
  have split: "n = 16777216 * (n div 16777216) + 65536 * (n div 65536 mod 256) + 256 * (n div 256 mod 256) + n mod 256"
    for n :: nat
  proof -
    have "n div 65536 = n div 256 div 256" "n div 16777216 = n div 256 div 256 div 256"
      by (simp_all add: div_mult2_eq [symmetric])
    moreover have "m = 256 * (m div 256) + m mod 256" for m :: nat by simp
    from this [of n] this [of "n div 256"] this [of "n div 256 div 256"]
    have "n = 16777216 * (n div 256 div 256 div 256) + 65536 * (n div 256 div 256 mod 256) +
        256 * (n div 256 mod 256) + n mod 256" by linarith
    ultimately show ?thesis by simp
  qed
  have "unat a = unat b" using split [of "unat a"] split [of "unat b"] 1 2 3 4(1) by simp
  then have "a = b" by (rule word_unat_eq_iff [THEN iffD2])
  then show ?thesis using 4 by simp
qed

end
