(* ===== verification/Gzip.thy ===== *)
theory Gzip
  imports Format
begin

text \<open>
  The compression buffer \<open>GzipHelper\<close> of \<^verbatim>\<open>gziphelper.h\<close> and \<^verbatim>\<open>gziphelper.cpp\<close>. The functions of zlib are a
  parameter, the record \<open>zlib\<close>; what the code relies on is the predicate \<open>library_laws\<close>. Bytes are
  characters. \<open>None\<close> is an access outside the buffer.
\<close>

section \<open>The library\<close>

text \<open>
  A call of \<open>deflate\<close> gets the input, the room for output and the flush mode, and yields the error
  code, the output, the number of input bytes it has taken and the stream.

  The last field is not of zlib. The code writes through \<^verbatim>\<open>&m_data.front()\<close> while the vector has size 0, which
  the C++ standard leaves undefined. \<open>front_unchecked\<close> says that the library of the build does not check
  it and yields the start of the reserved storage, as common ones do; where it is false such an
  access is \<open>None\<close>.
\<close>

record 'z zlib =
  zeroed :: "'z"
  deflateInit2 :: "int \<Rightarrow> int \<Rightarrow> int \<Rightarrow> int \<Rightarrow> int \<Rightarrow> 'z \<Rightarrow> int \<times> 'z"
  deflateReset :: "'z \<Rightarrow> int \<times> 'z"
  deflateSetHeader :: "'z \<Rightarrow> int \<times> 'z"
  deflate :: "string \<Rightarrow> nat \<Rightarrow> int \<Rightarrow> 'z \<Rightarrow> int \<times> string \<times> nat \<times> 'z"
  deflateEnd :: "'z \<Rightarrow> int \<times> 'z"
  total_out :: "'z \<Rightarrow> u64"
  front_unchecked :: bool

definition Z_OK :: int where "Z_OK = 0"
definition Z_STREAM_END :: int where "Z_STREAM_END = 1"
definition Z_BUF_ERROR :: int where "Z_BUF_ERROR = -5"
definition Z_NO_FLUSH :: int where "Z_NO_FLUSH = 0"
definition Z_FINISH :: int where "Z_FINISH = 4"
definition Z_DEFLATED :: int where "Z_DEFLATED = 8"
definition Z_DEFAULT_STRATEGY :: int where "Z_DEFAULT_STRATEGY = 0"
definition MAX_WBITS :: int where "MAX_WBITS = 15"

lemmas zlib_codes = Z_OK_def Z_STREAM_END_def Z_BUF_ERROR_def Z_NO_FLUSH_def Z_FINISH_def

section \<open>State\<close>

text \<open>
  \<open>gz_data\<close> is the storage of the vector \<^verbatim>\<open>m_data\<close>: its capacity is the length of the list (the
  vector's own size stays 0). The other fields are \<^verbatim>\<open>m_size\<close>, \<^verbatim>\<open>m_compress_size\<close>,
  \<^verbatim>\<open>m_compress_level\<close>, \<^verbatim>\<open>m_memory_level\<close> and \<^verbatim>\<open>m_stream\<close>.
\<close>

record 'z GzipHelper =
  gz_data :: string
  gz_size :: u64
  gz_compress_size :: u64
  gz_compress_level :: int
  gz_memory_level :: int
  gz_stream :: "'z"

definition kWindowBitsToGetGzipHeader :: int where "kWindowBitsToGetGzipHeader = 16"
definition kSafeThreshold :: u64 where "kSafeThreshold = 8388608"
definition kZlibCompressLevel :: int where "kZlibCompressLevel = 1"
definition kZlibMemoryLevel :: int where "kZlibMemoryLevel = 9"

definition new_GzipHelper :: "'z zlib \<Rightarrow> u64 \<Rightarrow> int \<Rightarrow> int \<Rightarrow> 'z GzipHelper" where
  "new_GzipHelper Z compress_size compress_level memory_level =
     \<lparr>gz_data = [], gz_size = 0, gz_compress_size = compress_size, gz_compress_level = compress_level,
      gz_memory_level = memory_level, gz_stream = zeroed Z\<rparr>"

section \<open>Operations\<close>

definition streamInit :: "'z zlib \<Rightarrow> 'z GzipHelper \<Rightarrow> 'z \<Rightarrow> int \<times> 'z" where
  "streamInit Z h stream =
     deflateInit2 Z (gz_compress_level h) Z_DEFLATED (MAX_WBITS + kWindowBitsToGetGzipHeader)
       (gz_memory_level h) Z_DEFAULT_STRATEGY stream"

text \<open>\<^verbatim>\<open>reserve\<close> on the empty vector; \<open>junk\<close> is what fresh memory holds.\<close>

definition reserve :: "char \<Rightarrow> u64 \<Rightarrow> string \<Rightarrow> string" where
  "reserve junk n d = (if unat n > length d then replicate (unat n) junk else d)"

definition compressInit :: "char \<Rightarrow> 'z zlib \<Rightarrow> 'z GzipHelper \<Rightarrow> int \<times> 'z GzipHelper" where
  "compressInit junk Z h =
     (let h = h\<lparr>gz_stream := zeroed Z\<rparr>;
          h = h\<lparr>gz_stream := snd (streamInit Z h (gz_stream h))\<rparr>;
          h = h\<lparr>gz_data := reserve junk (gz_compress_size h + of_int kWindowBitsToGetGzipHeader + kSafeThreshold)
                             (gz_data h)\<rparr>
      in (0, h\<lparr>gz_size := 0\<rparr>))"

definition compressReset :: "'z zlib \<Rightarrow> 'z GzipHelper \<Rightarrow> int \<times> 'z GzipHelper" where
  "compressReset Z h =
     (let h = h\<lparr>gz_size := 0\<rparr>;
          h = h\<lparr>gz_stream := snd (deflateReset Z (gz_stream h))\<rparr>
      in case streamInit Z h (gz_stream h) of (err, st) \<Rightarrow> (err, h\<lparr>gz_stream := st\<rparr>))"

definition getCompressSize :: "'z GzipHelper \<Rightarrow> u64" where
  "getCompressSize h = gz_size h"

definition getCompressCapacity :: "'z GzipHelper \<Rightarrow> u64" where
  "getCompressCapacity h = of_nat (length (gz_data h))"

definition getCompressAvail :: "'z GzipHelper \<Rightarrow> u64" where
  "getCompressAvail h =
     getCompressCapacity h - gz_size h - of_int kWindowBitsToGetGzipHeader - kSafeThreshold"

definition isFull :: "'z GzipHelper \<Rightarrow> bool" where
  "isFull h \<longleftrightarrow> gz_size h + kSafeThreshold + of_int kWindowBitsToGetGzipHeader + 32768 > getCompressCapacity h"

text \<open>
  \<open>deflate\<close> with \<^verbatim>\<open>next_out\<close> at \<^verbatim>\<open>m_size\<close> and the room cast to 32 bits: its output lands in the buffer.
\<close>

definition run_deflate :: "'z zlib \<Rightarrow> string \<Rightarrow> int \<Rightarrow> 'z GzipHelper \<Rightarrow> (int \<times> 'z GzipHelper) option" where
  "run_deflate Z source flush h =
     (let avail_out = (ucast (getCompressCapacity h - gz_size h) :: u32) in
      case deflate Z source (unat avail_out) flush (gz_stream h) of (err, out, taken, st) \<Rightarrow> do {
        d \<leftarrow> memcpy (gz_data h) (unat (gz_size h)) out 0 (length out);
        Some (err, h\<lparr>gz_data := d, gz_stream := st\<rparr>) })"

definition compressUpdate :: "'z zlib \<Rightarrow> string \<Rightarrow> u32 \<Rightarrow> 'z GzipHelper \<Rightarrow> (int \<times> 'z GzipHelper) option" where
  "compressUpdate Z source source_length h =
     (if \<not> front_unchecked Z \<or> unat source_length > length source then None
      else do {
        (err, h) \<leftarrow> run_deflate Z (take (unat source_length) source) Z_NO_FLUSH h;
        if err \<noteq> Z_OK then Some (err, h)
        else Some (0, h\<lparr>gz_size := total_out Z (gz_stream h)\<rparr>) })"

definition compressFinish_src :: "'z zlib \<Rightarrow> string \<Rightarrow> u32 \<Rightarrow> 'z GzipHelper \<Rightarrow> (int \<times> 'z GzipHelper) option" where
  "compressFinish_src Z source source_length h =
     (if \<not> front_unchecked Z \<or> unat source_length > length source then None
      else case deflateSetHeader Z (gz_stream h) of (err, st) \<Rightarrow>
        let h = h\<lparr>gz_stream := st\<rparr> in
        if err \<noteq> Z_OK then Some (err, h)
        else do {
          (err, h) \<leftarrow> run_deflate Z (take (unat source_length) source) Z_FINISH h;
          if err \<noteq> Z_STREAM_END
          then (let h = h\<lparr>gz_stream := snd (deflateEnd Z (gz_stream h))\<rparr>
                in Some (if err = Z_OK then Z_BUF_ERROR else err, h))
          else case deflateEnd Z (gz_stream h) of (err, st) \<Rightarrow>
            let h = h\<lparr>gz_stream := st\<rparr> in
            if err \<noteq> Z_OK then Some (err, h)
            else Some (0, h\<lparr>gz_size := total_out Z (gz_stream h)\<rparr>) })"

definition compressFinish :: "'z zlib \<Rightarrow> 'z GzipHelper \<Rightarrow> (int \<times> 'z GzipHelper) option" where
  "compressFinish Z h =
     (if \<not> front_unchecked Z then None
      else case deflateSetHeader Z (gz_stream h) of (err, st) \<Rightarrow>
        let h = h\<lparr>gz_stream := st\<rparr> in
        if err \<noteq> Z_OK then Some (err, h)
        else do {
          (err, h) \<leftarrow> run_deflate Z [] Z_FINISH h;
          if err \<noteq> Z_STREAM_END
          then (let h = h\<lparr>gz_stream := snd (deflateEnd Z (gz_stream h))\<rparr>
                in Some (if err = Z_OK then Z_BUF_ERROR else err, h))
          else case deflateEnd Z (gz_stream h) of (err, st) \<Rightarrow>
            let h = h\<lparr>gz_stream := st\<rparr> in
            if err \<noteq> Z_OK then Some (err, h)
            else Some (0, h\<lparr>gz_size := total_out Z (gz_stream h)\<rparr>) })"

lemma compressFinish_is_src: "compressFinish_src Z [] 0 h = compressFinish Z h"
  unfolding compressFinish_src_def compressFinish_def take_Nil by simp

text \<open>
  The file system as the program sees it: what a path holds, and which paths can be opened for
  writing. \<^verbatim>\<open>open\<close> here has no \<^verbatim>\<open>O_TRUNC\<close>: an old file keeps what lies behind the bytes written.
\<close>

type_synonym disk = "string \<Rightarrow> string option"

definition dumpCompressFile ::
  "'z zlib \<Rightarrow> (string \<Rightarrow> bool) \<Rightarrow> string \<Rightarrow> 'z GzipHelper \<Rightarrow> disk \<Rightarrow> (int \<times> disk) option" where
  "dumpCompressFile Z can_open path h fs =
     (if \<not> can_open path then Some (-1, fs)
      else if \<not> front_unchecked Z then None
      else let old = (case fs path of None \<Rightarrow> [] | Some f \<Rightarrow> f); n = unat (gz_size h) in
        if n > length (gz_data h) then None
        else Some (0, fs(path \<mapsto> take n (gz_data h) @ drop n old)))"

section \<open>What the code relies on\<close>

text \<open>
  The documented behaviour of zlib. \<open>consumed\<close> and \<open>produced\<close> are the input taken and the output
  written since the stream was initialised, \<open>gunzip\<close> is the decompressor. A call writes no more than
  it has room for; \<open>deflate\<close> stops with output room left only when it has taken all the input; an
  error other than \<^verbatim>\<open>Z_STREAM_END\<close> means that nothing was done; \<^verbatim>\<open>Z_STREAM_END\<close> means that the output
  is complete.
\<close>

definition init_law :: "'z zlib \<Rightarrow> ('z \<Rightarrow> string) \<Rightarrow> ('z \<Rightarrow> string) \<Rightarrow> bool" where
  "init_law Z consumed produced \<longleftrightarrow>
     (\<forall>level method bits mem strategy st st'. deflateInit2 Z level method bits mem strategy st = (Z_OK, st') \<longrightarrow>
        consumed st' = [] \<and> produced st' = [])"

definition header_law :: "'z zlib \<Rightarrow> ('z \<Rightarrow> string) \<Rightarrow> ('z \<Rightarrow> string) \<Rightarrow> bool" where
  "header_law Z consumed produced \<longleftrightarrow>
     (\<forall>st st'. deflateSetHeader Z st = (Z_OK, st') \<longrightarrow>
        consumed st' = consumed st \<and> produced st' = produced st)"

definition deflate_law ::
  "'z zlib \<Rightarrow> ('z \<Rightarrow> string) \<Rightarrow> ('z \<Rightarrow> string) \<Rightarrow> (string \<Rightarrow> string option) \<Rightarrow> bool" where
  "deflate_law Z consumed produced gunzip \<longleftrightarrow>
     (\<forall>source room flush st err out taken st'. deflate Z source room flush st = (err, out, taken, st') \<longrightarrow>
        length out \<le> room \<and> taken \<le> length source \<and>
        consumed st' = consumed st @ take taken source \<and> produced st' = produced st @ out \<and>
        (err = Z_OK \<and> length out < room \<longrightarrow> taken = length source) \<and>
        (err \<noteq> Z_OK \<and> err \<noteq> Z_STREAM_END \<longrightarrow> out = [] \<and> taken = 0) \<and>
        (err = Z_STREAM_END \<longrightarrow> flush = Z_FINISH \<and> taken = length source \<and>
           gunzip (produced st') = Some (consumed st')))"

definition total_law :: "'z zlib \<Rightarrow> ('z \<Rightarrow> string) \<Rightarrow> bool" where
  "total_law Z produced \<longleftrightarrow>
     (\<forall>st. total_out Z st = of_nat (length (produced st))) \<and>
     (\<forall>st err st'. deflateEnd Z st = (err, st') \<longrightarrow> total_out Z st' = total_out Z st)"

definition zlib_laws ::
  "'z zlib \<Rightarrow> ('z \<Rightarrow> string) \<Rightarrow> ('z \<Rightarrow> string) \<Rightarrow> (string \<Rightarrow> string option) \<Rightarrow> bool" where
  "zlib_laws Z consumed produced gunzip \<longleftrightarrow> init_law Z consumed produced \<and> header_law Z consumed produced \<and>
     deflate_law Z consumed produced gunzip \<and> total_law Z produced"

text \<open>What the code needs of both libraries.\<close>

definition library_laws ::
  "'z zlib \<Rightarrow> ('z \<Rightarrow> string) \<Rightarrow> ('z \<Rightarrow> string) \<Rightarrow> (string \<Rightarrow> string option) \<Rightarrow> bool" where
  "library_laws Z consumed produced gunzip \<longleftrightarrow> zlib_laws Z consumed produced gunzip \<and> front_unchecked Z"

lemma front_law: "library_laws Z consumed produced gunzip \<Longrightarrow> front_unchecked Z"
  by (simp add: library_laws_def)

text \<open>Without the second, compressing anything is undefined.\<close>

theorem front_of_empty_undefined:
  assumes "\<not> front_unchecked Z"
  shows "compressUpdate Z source n h = None" "compressFinish Z h = None" "compressFinish_src Z source n h = None"
  using assms by (simp_all add: compressUpdate_def compressFinish_def compressFinish_src_def)

lemma deflate_lawD:
  assumes "library_laws Z consumed produced gunzip" "deflate Z source room flush st = (err, out, taken, st')"
  shows "length out \<le> room" "taken \<le> length source"
    "consumed st' = consumed st @ take taken source" "produced st' = produced st @ out"
    "err = Z_OK \<Longrightarrow> length out < room \<Longrightarrow> taken = length source"
    "err \<noteq> Z_OK \<Longrightarrow> err \<noteq> Z_STREAM_END \<Longrightarrow> out = []"
    "err = Z_STREAM_END \<Longrightarrow>
      flush = Z_FINISH \<and> taken = length source \<and> gunzip (produced st') = Some (consumed st')"
proof -
  have "deflate_law Z consumed produced gunzip" using assms(1) by (simp add: library_laws_def zlib_laws_def)
  note law = this [unfolded deflate_law_def, THEN spec, THEN spec, THEN spec, THEN spec, THEN spec, THEN spec,
    THEN spec, THEN spec, THEN mp, OF assms(2)]
  show "length out \<le> room" "taken \<le> length source"
    "consumed st' = consumed st @ take taken source" "produced st' = produced st @ out"
    "err = Z_OK \<Longrightarrow> length out < room \<Longrightarrow> taken = length source"
    "err \<noteq> Z_OK \<Longrightarrow> err \<noteq> Z_STREAM_END \<Longrightarrow> out = []"
    "err = Z_STREAM_END \<Longrightarrow>
      flush = Z_FINISH \<and> taken = length source \<and> gunzip (produced st') = Some (consumed st')"
    using law by metis+
qed

lemma library_lawsD:
  assumes "library_laws Z consumed produced gunzip"
  shows init_lawD: "deflateInit2 Z level method bits mem strategy st = (Z_OK, st') \<Longrightarrow>
      consumed st' = [] \<and> produced st' = []"
    and header_lawD: "deflateSetHeader Z st = (Z_OK, st') \<Longrightarrow>
      consumed st' = consumed st \<and> produced st' = produced st"
    and end_lawD: "deflateEnd Z st = (err, st') \<Longrightarrow> total_out Z st' = total_out Z st"
    and total_lawD: "total_out Z st = of_nat (length (produced st))"
proof -
  have laws: "init_law Z consumed produced" "header_law Z consumed produced" "total_law Z produced"
    using assms by (simp_all add: library_laws_def zlib_laws_def)
  show "deflateInit2 Z level method bits mem strategy st = (Z_OK, st') \<Longrightarrow>
      consumed st' = [] \<and> produced st' = []"
    using laws(1) unfolding init_law_def by metis
  show "deflateSetHeader Z st = (Z_OK, st') \<Longrightarrow> consumed st' = consumed st \<and> produced st' = produced st"
    using laws(2) unfolding header_law_def by metis
  show "deflateEnd Z st = (err, st') \<Longrightarrow> total_out Z st' = total_out Z st"
    using laws(3) unfolding total_law_def by metis
  show "total_out Z st = of_nat (length (produced st))"
    using laws(3) unfolding total_law_def by metis
qed

section \<open>The buffer holds what the stream has produced\<close>

definition gz_inv :: "('z \<Rightarrow> string) \<Rightarrow> 'z GzipHelper \<Rightarrow> bool" where
  "gz_inv produced h \<longleftrightarrow> length (gz_data h) < 4294967296 \<and> unat (gz_size h) \<le> length (gz_data h) \<and>
     take (unat (gz_size h)) (gz_data h) = produced (gz_stream h)"

lemma unat_of_nat64: "n < 18446744073709551616 \<Longrightarrow> unat (of_nat n :: u64) = n"
  by (simp add: unat_of_nat)

lemma avail_room:
  assumes "length (gz_data h) < 4294967296" "unat (gz_size h) \<le> length (gz_data h)"
  shows "unat (ucast (getCompressCapacity h - gz_size h) :: u32) = length (gz_data h) - unat (gz_size h)"
proof -
  have c: "unat (getCompressCapacity h) = length (gz_data h)"
    using assms(1) by (simp add: getCompressCapacity_def unat_of_nat64)
  then have "unat (getCompressCapacity h - gz_size h) = length (gz_data h) - unat (gz_size h)"
    using assms(2) by (subst unat_sub) (simp_all add: word_le_nat_alt)
  then show ?thesis using assms(1) by (simp add: unsigned_ucast_eq take_bit_nat_eq_self)
qed

lemma run_deflate_ok:
  assumes Z: "library_laws Z consumed produced gunzip" and h: "gz_inv produced h"
  shows "\<exists>err out taken st d. deflate Z source (length (gz_data h) - unat (gz_size h)) flush (gz_stream h) =
      (err, out, taken, st) \<and>
    run_deflate Z source flush h = Some (err, h\<lparr>gz_data := d, gz_stream := st\<rparr>) \<and>
    length d = length (gz_data h) \<and> unat (gz_size h) + length out \<le> length d \<and>
    take (unat (gz_size h) + length out) d = produced st \<and> total_out Z st = gz_size h + of_nat (length out)"
proof -
  let ?n = "unat (gz_size h)"
  obtain err out taken st where d: "deflate Z source (length (gz_data h) - ?n) flush (gz_stream h) =
      (err, out, taken, st)" by (metis prod_cases4)
  note law = deflate_lawD [OF Z d]
  have sz: "length (gz_data h) < 4294967296" "?n \<le> length (gz_data h)" "take ?n (gz_data h) = produced (gz_stream h)"
    using h by (simp_all add: gz_inv_def)
  let ?d = "take ?n (gz_data h) @ out @ drop (?n + length out) (gz_data h)"
  have fit: "?n + length out \<le> length (gz_data h)" using law(1) sz(2) by linarith
  then have "run_deflate Z source flush h = Some (err, h\<lparr>gz_data := ?d, gz_stream := st\<rparr>)"
    unfolding run_deflate_def Let_def avail_room [OF sz(1,2)] d by (simp add: memcpy_def)
  moreover have np: "length (produced (gz_stream h)) = ?n" using sz(2) by (simp flip: sz(3))
  then have "total_out Z st = gz_size h + of_nat (length out)"
    using law(4) total_lawD [OF Z, of st] by simp
  moreover have "take (?n + length out) ?d = produced st" using law(4) fit np by (simp add: sz(3))
  ultimately show ?thesis using d fit by (intro exI [of _ err] exI [of _ out] exI [of _ taken] exI [of _ st] exI [of _ ?d]) simp
qed

text \<open>A call of \<open>deflate\<close> that succeeds, seen from the buffer.\<close>

lemma produced_size:
  assumes "length (gz_data h) < 4294967296" "unat (gz_size h) + n \<le> length (gz_data h)"
  shows "unat (gz_size h + of_nat n) = unat (gz_size h) + n"
proof -
  have "gz_size h + of_nat n = of_nat (unat (gz_size h) + n)" by simp
  then show ?thesis using assms by (simp only: unat_of_nat64)
qed

lemma compressUpdate_step:
  assumes Z: "library_laws Z consumed produced gunzip" and h: "gz_inv produced h" and x: "length x < 4294967296"
    and d: "deflate Z x (length (gz_data h) - unat (gz_size h)) Z_NO_FLUSH (gz_stream h) = (Z_OK, out, taken, st)"
  shows "\<exists>d. compressUpdate Z x (of_nat (length x)) h =
      Some (0, h\<lparr>gz_data := d, gz_stream := st, gz_size := gz_size h + of_nat (length out)\<rparr>) \<and>
    length d = length (gz_data h) \<and> unat (gz_size h + of_nat (length out)) = unat (gz_size h) + length out \<and>
    gz_inv produced (h\<lparr>gz_data := d, gz_stream := st, gz_size := gz_size h + of_nat (length out)\<rparr>)"
proof -
  obtain d' where d': "run_deflate Z x Z_NO_FLUSH h = Some (Z_OK, h\<lparr>gz_data := d', gz_stream := st\<rparr>)"
    "length d' = length (gz_data h)" "unat (gz_size h) + length out \<le> length d'"
    "take (unat (gz_size h) + length out) d' = produced st" "total_out Z st = gz_size h + of_nat (length out)"
    using run_deflate_ok [OF Z h, of x Z_NO_FLUSH] d by auto
  have "unat (of_nat (length x) :: u32) = length x" using x by (rule unat_of_nat32)
  then have "compressUpdate Z x (of_nat (length x)) h =
      Some (0, h\<lparr>gz_data := d', gz_stream := st, gz_size := gz_size h + of_nat (length out)\<rparr>)"
    using d'(1,5) by (simp add: front_law [OF Z] compressUpdate_def)
  moreover have "unat (gz_size h + of_nat (length out)) = unat (gz_size h) + length out"
    using h d'(2,3) by (intro produced_size) (simp_all add: gz_inv_def)
  ultimately show ?thesis using d'(2-4) h by (intro exI [of _ d']) (simp add: gz_inv_def)
qed

lemma compressUpdate_ok:
  assumes Z: "library_laws Z consumed produced gunzip" and h: "gz_inv produced h" and x: "length x < 4294967296"
  shows "\<exists>err h'. compressUpdate Z x (of_nat (length x)) h = Some (err, h') \<and> gz_inv produced h' \<and>
    getCompressCapacity h' = getCompressCapacity h \<and>
    (err = 0 \<and> getCompressSize h' < getCompressCapacity h' \<longrightarrow>
       consumed (gz_stream h') = consumed (gz_stream h) @ x)"
proof -
  let ?n = "unat (gz_size h)"
  obtain err out taken st d where d:
    "deflate Z x (length (gz_data h) - ?n) Z_NO_FLUSH (gz_stream h) = (err, out, taken, st)"
    "run_deflate Z x Z_NO_FLUSH h = Some (err, h\<lparr>gz_data := d, gz_stream := st\<rparr>)"
    "length d = length (gz_data h)" "?n + length out \<le> length d" "take (?n + length out) d = produced st"
    using run_deflate_ok [OF Z h] by blast
  note law = deflate_lawD [OF Z d(1)]
  have sz: "length d < 4294967296" using h d(3) by (simp add: gz_inv_def)
  show ?thesis
  proof (cases "err = Z_OK")
    case False
    then have "err \<noteq> Z_STREAM_END" using law(7) by (auto simp: zlib_codes)
    with False have "out = []" by (rule law(6))
    then have "gz_inv produced (h\<lparr>gz_data := d, gz_stream := st\<rparr>)"
      using d sz h by (simp add: gz_inv_def)
    moreover have "compressUpdate Z x (of_nat (length x)) h = Some (err, h\<lparr>gz_data := d, gz_stream := st\<rparr>)"
      using False unat_of_nat32 [OF x] d(2) by (simp add: front_law [OF Z] compressUpdate_def)
    ultimately show ?thesis using False d(3) by (simp add: getCompressCapacity_def Z_OK_def)
  next
    case True
    obtain d' where e: "compressUpdate Z x (of_nat (length x)) h =
        Some (0, h\<lparr>gz_data := d', gz_stream := st, gz_size := gz_size h + of_nat (length out)\<rparr>)"
      "length d' = length (gz_data h)" "unat (gz_size h + of_nat (length out)) = ?n + length out"
      "gz_inv produced (h\<lparr>gz_data := d', gz_stream := st, gz_size := gz_size h + of_nat (length out)\<rparr>)"
      using compressUpdate_step [OF Z h x] d(1) True by blast
    have "consumed st = consumed (gz_stream h) @ x"
      if "gz_size h + of_nat (length out) < (of_nat (length d') :: u64)"
    proof -
      have "length out < length (gz_data h) - ?n"
        using that e(2,3) sz d(3) by (simp add: word_less_nat_alt unat_of_nat64)
      then show ?thesis using law(3) law(5) [OF True] by simp
    qed
    then show ?thesis using e by (simp add: getCompressCapacity_def getCompressSize_def)
  qed
qed

lemma compressFinish_step:
  assumes Z: "library_laws Z consumed produced gunzip" and h: "gz_inv produced h"
    and hd: "deflateSetHeader Z (gz_stream h) = (Z_OK, st1)"
    and fin: "deflate Z [] (length (gz_data h) - unat (gz_size h)) Z_FINISH st1 = (Z_STREAM_END, out, taken, st)"
    and en: "deflateEnd Z st = (Z_OK, st2)"
  shows "\<exists>d n. compressFinish Z h = Some (0, h\<lparr>gz_data := d, gz_stream := st2, gz_size := n\<rparr>) \<and>
    length d = length (gz_data h) \<and> unat n \<le> length d \<and> gunzip (take (unat n) d) = Some (consumed (gz_stream h))"
proof -
  let ?h = "h\<lparr>gz_stream := st1\<rparr>" and ?n = "gz_size h + of_nat (length out)"
  have cp: "consumed st1 = consumed (gz_stream h)" "produced st1 = produced (gz_stream h)"
    using header_lawD [OF Z, of "gz_stream h" st1] hd by simp_all
  then have inv: "gz_inv produced ?h" using h by (simp add: gz_inv_def)
  obtain d where d: "run_deflate Z [] Z_FINISH ?h = Some (Z_STREAM_END, ?h\<lparr>gz_data := d, gz_stream := st\<rparr>)"
    "length d = length (gz_data h)" "unat (gz_size h) + length out \<le> length d"
    "take (unat (gz_size h) + length out) d = produced st" "total_out Z st = ?n"
    using run_deflate_ok [OF Z inv, of "[]" Z_FINISH] fin by auto
  note law = deflate_lawD [OF Z fin]
  have n: "unat ?n = unat (gz_size h) + length out"
    using h d(2,3) by (intro produced_size) (simp_all add: gz_inv_def)
  have "gunzip (produced st) = Some (consumed (gz_stream h))" using law(7) law(3) cp by simp
  then have "gunzip (take (unat ?n) d) = Some (consumed (gz_stream h))" using d(4) n by simp
  moreover have "total_out Z st2 = ?n" using end_lawD [OF Z en] d(5) by simp
  then have "compressFinish Z h = Some (0, h\<lparr>gz_data := d, gz_stream := st2, gz_size := ?n\<rparr>)"
    using hd en d(1) by (simp add: front_law [OF Z] compressFinish_def)
  ultimately show ?thesis using d(2,3) n by (intro exI [of _ d] exI [of _ ?n]) simp
qed

lemma compressFinish_ok:
  assumes Z: "library_laws Z consumed produced gunzip" and h: "gz_inv produced h"
  shows "\<exists>err h'. compressFinish Z h = Some (err, h') \<and>
    (err = 0 \<longrightarrow> unat (gz_size h') \<le> length (gz_data h') \<and>
       gunzip (take (unat (gz_size h')) (gz_data h')) = Some (consumed (gz_stream h)))"
proof -
  obtain e1 st1 where 1: "deflateSetHeader Z (gz_stream h) = (e1, st1)" by force
  let ?h = "h\<lparr>gz_stream := st1\<rparr>"
  show ?thesis
  proof (cases "e1 = Z_OK")
    case False
    then show ?thesis using 1 by (simp add: front_law [OF Z] compressFinish_def Z_OK_def)
  next
    case True
    then have inv: "gz_inv produced ?h"
      using header_lawD [OF Z, of "gz_stream h" st1] 1 h by (simp add: gz_inv_def)
    obtain err out taken st d where d:
      "deflate Z [] (length (gz_data h) - unat (gz_size h)) Z_FINISH st1 = (err, out, taken, st)"
      "run_deflate Z [] Z_FINISH ?h = Some (err, ?h\<lparr>gz_data := d, gz_stream := st\<rparr>)"
      using run_deflate_ok [OF Z inv, of "[]" Z_FINISH] by auto
    obtain e2 st2 where 2: "deflateEnd Z st = (e2, st2)" by force
    consider "err \<noteq> Z_STREAM_END" | "err = Z_STREAM_END" "e2 \<noteq> Z_OK" | "err = Z_STREAM_END" "e2 = Z_OK" by blast
    then show ?thesis
    proof cases
      case 1: 1
      have "(if err = Z_OK then Z_BUF_ERROR else err) \<noteq> 0" by (simp add: zlib_codes)
      then show ?thesis using \<open>deflateSetHeader Z (gz_stream h) = (e1, st1)\<close> True 1 d(2)
        by (simp add: front_law [OF Z] compressFinish_def)
    next
      case fin: 2
      then show ?thesis using 1 2 True d(2) by (simp add: front_law [OF Z] compressFinish_def Z_OK_def)
    next
      case 3
      then show ?thesis using compressFinish_step [OF Z h, of st1 out taken st st2] 1 2 True d(1) by auto
    qed
  qed
qed

text \<open>
  A series of updates; the flag says that every call succeeded and left room in the buffer.
\<close>

fun gz_updates :: "'z zlib \<Rightarrow> string list \<Rightarrow> 'z GzipHelper \<Rightarrow> (bool \<times> 'z GzipHelper) option" where
  "gz_updates Z [] h = Some (True, h)"
| "gz_updates Z (x # xs) h = do {
     (err, h) \<leftarrow> compressUpdate Z x (of_nat (length x)) h;
     (good, h') \<leftarrow> gz_updates Z xs h;
     Some (err = 0 \<and> getCompressSize h < getCompressCapacity h \<and> good, h') }"

lemma gz_updates_ok:
  assumes Z: "library_laws Z consumed produced gunzip"
  shows "gz_inv produced h \<Longrightarrow> \<forall>x \<in> set xs. length x < 4294967296 \<Longrightarrow>
    \<exists>good h'. gz_updates Z xs h = Some (good, h') \<and> gz_inv produced h' \<and>
      (good \<longrightarrow> consumed (gz_stream h') = consumed (gz_stream h) @ concat xs)"
proof (induction xs arbitrary: h)
  case Nil
  then show ?case by auto
next
  case (Cons x xs)
  obtain err h1 where 1: "compressUpdate Z x (of_nat (length x)) h = Some (err, h1)" "gz_inv produced h1"
    "err = 0 \<and> getCompressSize h1 < getCompressCapacity h1 \<longrightarrow>
       consumed (gz_stream h1) = consumed (gz_stream h) @ x"
    using compressUpdate_ok [OF Z Cons.prems(1), of x] Cons.prems(2) by auto
  obtain good h2 where 2: "gz_updates Z xs h1 = Some (good, h2)" "gz_inv produced h2"
    "good \<longrightarrow> consumed (gz_stream h2) = consumed (gz_stream h1) @ concat xs"
    using Cons.IH [OF 1(2)] Cons.prems(2) by auto
  show ?case using 1 2 by simp
qed

lemma compressInit_ok:
  assumes Z: "library_laws Z consumed produced gunzip"
    and init: "fst (deflateInit2 Z level Z_DEFLATED 31 mem Z_DEFAULT_STRATEGY (zeroed Z)) = Z_OK"
    and size: "unat compress_size < 4286578672"
  shows "\<exists>h. compressInit junk Z (new_GzipHelper Z compress_size level mem) = (0, h) \<and> gz_inv produced h \<and>
    consumed (gz_stream h) = [] \<and> getCompressCapacity h = compress_size + 8388624 \<and>
    length (gz_data h) = unat compress_size + 8388624 \<and> gz_size h = 0 \<and> gz_compress_level h = level \<and>
    gz_memory_level h = mem \<and>
    (Z_OK, gz_stream h) = deflateInit2 Z level Z_DEFLATED 31 mem Z_DEFAULT_STRATEGY (zeroed Z)"
proof -
  obtain st where st: "deflateInit2 Z level Z_DEFLATED 31 mem Z_DEFAULT_STRATEGY (zeroed Z) = (Z_OK, st)"
    using init by (metis prod.collapse)
  note law = init_lawD [OF Z st]
  have cap: "unat (compress_size + 8388624) = unat compress_size + 8388624"
    using size by (simp add: unat_word_ariths)
  let ?h = "\<lparr>gz_data = replicate (unat (compress_size + 8388624)) junk, gz_size = 0, gz_compress_size = compress_size,
      gz_compress_level = level, gz_memory_level = mem, gz_stream = st\<rparr>"
  have "compressInit junk Z (new_GzipHelper Z compress_size level mem) = (0, ?h)"
    using st cap by (simp add: compressInit_def new_GzipHelper_def streamInit_def reserve_def Let_def
        kWindowBitsToGetGzipHeader_def kSafeThreshold_def MAX_WBITS_def add.assoc)
  moreover have "gz_inv produced ?h" using law cap size by (simp add: gz_inv_def)
  moreover have "getCompressCapacity ?h = compress_size + 8388624"
    by (simp add: getCompressCapacity_def)
  ultimately show ?thesis using law st cap by (intro exI [of _ ?h]) simp
qed

section \<open>Properties\<close>

text \<open>
  C22. Whatever lines are compressed, with a zlib as documented and a compiler that takes \<^verbatim>\<open>front()\<close> of the
  vector of size 0 as the start of its capacity (\<open>library_laws\<close>), no call touches memory outside the buffer; and when
  every call succeeded and none filled the buffer, the file dumped at the end to a path that can be
  opened and holds no file yet decompresses to exactly the concatenation of the lines.
\<close>

theorem gzip_lossless:
  assumes Z: "library_laws Z consumed produced gunzip"
    and init: "fst (deflateInit2 Z level Z_DEFLATED 31 mem Z_DEFAULT_STRATEGY (zeroed Z)) = Z_OK"
    and size: "unat compress_size < 4286578672" and lines: "\<forall>x \<in> set xs. length x < 4294967296"
    and path: "can_open path" "fs path = None"
  shows "\<exists>h good h1 err h2. compressInit junk Z (new_GzipHelper Z compress_size level mem) = (0, h) \<and>
    gz_updates Z xs h = Some (good, h1) \<and> compressFinish Z h1 = Some (err, h2) \<and>
    (good \<and> err = 0 \<longrightarrow>
      (\<exists>fs' f. dumpCompressFile Z can_open path h2 fs = Some (0, fs') \<and> fs' path = Some f \<and>
        gunzip f = Some (concat xs)))"
proof -
  obtain h where h: "compressInit junk Z (new_GzipHelper Z compress_size level mem) = (0, h)" "gz_inv produced h"
    "consumed (gz_stream h) = []"
    using compressInit_ok [OF Z init size] by blast
  obtain good h1 where 1: "gz_updates Z xs h = Some (good, h1)" "gz_inv produced h1"
    "good \<longrightarrow> consumed (gz_stream h1) = concat xs"
    using gz_updates_ok [OF Z h(2) lines] h(3) by auto
  obtain err h2 where 2: "compressFinish Z h1 = Some (err, h2)"
    "err = 0 \<longrightarrow> unat (gz_size h2) \<le> length (gz_data h2) \<and>
       gunzip (take (unat (gz_size h2)) (gz_data h2)) = Some (consumed (gz_stream h1))"
    using compressFinish_ok [OF Z 1(2)] by blast
  have "dumpCompressFile Z can_open path h2 fs = Some (0, fs(path \<mapsto> take (unat (gz_size h2)) (gz_data h2)))"
    if "unat (gz_size h2) \<le> length (gz_data h2)"
    using that path front_law [OF Z] by (simp add: dumpCompressFile_def Let_def)
  then show ?thesis using h(1) 1 2 by auto
qed

text \<open>A compressor that keeps its input and writes it out unchanged at the end.\<close>

definition store_zlib :: "(string \<times> string) zlib" where
  "store_zlib =
     \<lparr>zeroed = ([], []),
      deflateInit2 = \<lambda>level method bits mem strategy st. (Z_OK, ([], [])),
      deflateReset = \<lambda>st. (Z_OK, ([], [])),
      deflateSetHeader = \<lambda>st. (Z_OK, st),
      deflate = \<lambda>source room flush (c, p).
        if flush = Z_NO_FLUSH then (Z_OK, [], length source, (c @ source, p))
        else if p = [] \<and> flush = Z_FINISH \<and> length (c @ source) \<le> room
        then (Z_STREAM_END, c @ source, length source, (c @ source, c @ source))
        else (Z_BUF_ERROR, [], 0, (c, p)),
      deflateEnd = \<lambda>st. (Z_OK, st),
      total_out = \<lambda>st. of_nat (length (snd st)),
      front_unchecked = True\<rparr>"

lemma store_zlib_front [simp]: "front_unchecked store_zlib"
  by (simp add: store_zlib_def)

lemma store_zlib_laws: "library_laws store_zlib fst snd Some"
proof -
  have "init_law store_zlib fst snd" "header_law store_zlib fst snd" "total_law store_zlib snd"
    by (simp_all add: store_zlib_def init_law_def header_law_def total_law_def)
  moreover have "deflate_law store_zlib fst snd Some"
    unfolding deflate_law_def by (auto simp: store_zlib_def zlib_codes split: if_splits)
  ultimately show ?thesis by (simp add: library_laws_def zlib_laws_def)
qed

lemma store_update:
  assumes "gz_stream h = (c, [])" "gz_size h = 0" "length x < 4294967296"
  shows "compressUpdate store_zlib x (of_nat (length x)) h = Some (0, h\<lparr>gz_stream := (c @ x, [])\<rparr>)"
proof -
  have "run_deflate store_zlib x Z_NO_FLUSH h = Some (Z_OK, h\<lparr>gz_stream := (c @ x, [])\<rparr>)"
    using assms(1,2) by (cases h) (simp add: run_deflate_def store_zlib_def memcpy_def)
  moreover have "unat (of_nat (length x) :: u32) = length x" using assms(3) by (rule unat_of_nat32)
  moreover have "total_out store_zlib (c @ x, []) = 0" by (simp add: store_zlib_def)
  ultimately show ?thesis using assms(1,2) by (cases h) (simp add: compressUpdate_def Z_OK_def)
qed

lemma store_finish:
  assumes "gz_stream h = (c, [])" "gz_size h = 0" "length c \<le> length (gz_data h)" "length (gz_data h) < 4294967296"
  shows "\<exists>h'. compressFinish store_zlib h = Some (0, h')"
proof -
  have room: "unat (ucast (getCompressCapacity h - gz_size h) :: u32) = length (gz_data h)"
    using avail_room [of h] assms by simp
  then have "\<exists>d. run_deflate store_zlib [] Z_FINISH h = Some (Z_STREAM_END, h\<lparr>gz_data := d, gz_stream := (c, c)\<rparr>)"
    unfolding run_deflate_def Let_def room using assms
    by (simp add: store_zlib_def memcpy_def zlib_codes) (rule exI, rule refl)
  moreover have "deflateSetHeader store_zlib st = (Z_OK, st)" "deflateEnd store_zlib st = (Z_OK, st)" for st
    by (simp_all add: store_zlib_def)
  ultimately show ?thesis using assms(1) by (cases h) (auto simp: compressFinish_def)
qed

lemma gzip_lossless_witness:
  "\<exists>h h1 h2 fs'. compressInit (CHR 0x00) store_zlib
      (new_GzipHelper store_zlib 104873984 kZlibCompressLevel kZlibMemoryLevel) = (0, h) \<and>
    gz_updates store_zlib [''src ip=1.2.3.4, '', ''dst ip=5.6.7.8''] h = Some (True, h1) \<and>
    compressFinish store_zlib h1 = Some (0, h2) \<and>
    dumpCompressFile store_zlib (\<lambda>p. True) ''log.gz'' h2 Map.empty = Some (0, fs') \<and>
    fs' ''log.gz'' = Some ''src ip=1.2.3.4, dst ip=5.6.7.8''"
proof -
  let ?xs = "[''src ip=1.2.3.4, '', ''dst ip=5.6.7.8'']"
  have init: "fst (deflateInit2 store_zlib kZlibCompressLevel Z_DEFLATED 31 kZlibMemoryLevel Z_DEFAULT_STRATEGY
      (zeroed store_zlib)) = Z_OK" by (simp add: store_zlib_def)
  obtain h where h: "compressInit (CHR 0x00) store_zlib
      (new_GzipHelper store_zlib 104873984 kZlibCompressLevel kZlibMemoryLevel) = (0, h)" "gz_inv snd h"
    "fst (gz_stream h) = []" "getCompressCapacity h = 113262608"
    using compressInit_ok [OF store_zlib_laws init, of 104873984 "CHR 0x00"] by auto
  have d: "length (gz_data h) = 113262608" "length (gz_data h) < 4294967296"
  proof -
    show l: "length (gz_data h) < 4294967296" using h(2) by (simp add: gz_inv_def)
    have "unat (getCompressCapacity h) = length (gz_data h)"
      using l by (simp add: getCompressCapacity_def unat_of_nat64)
    then show "length (gz_data h) = 113262608" by (simp add: h(4))
  qed
  have st: "gz_stream h = ([], [])" "gz_size h = 0"
    using h(1) by (auto simp: compressInit_def new_GzipHelper_def streamInit_def store_zlib_def Let_def)
  let ?x = "''src ip=1.2.3.4, ''" and ?y = "''dst ip=5.6.7.8''"
  have "compressUpdate store_zlib ?x (of_nat (length ?x)) h = Some (0, h\<lparr>gz_stream := (?x, [])\<rparr>)"
    using store_update [of h "[]" ?x] st by simp
  moreover have "compressUpdate store_zlib ?y (of_nat (length ?y)) (h\<lparr>gz_stream := (?x, [])\<rparr>) =
      Some (0, h\<lparr>gz_stream := (?x @ ?y, [])\<rparr>)"
    using store_update [of "h\<lparr>gz_stream := (?x, [])\<rparr>" ?x ?y] st by simp
  ultimately have "gz_updates store_zlib ?xs h = Some (True, h\<lparr>gz_stream := (concat ?xs, [])\<rparr>)"
    using st h(4) by (simp add: getCompressSize_def getCompressCapacity_def del: list.size of_nat_Suc)
  moreover obtain h2 where "compressFinish store_zlib (h\<lparr>gz_stream := (concat ?xs, [])\<rparr>) = Some (0, h2)"
    using store_finish [of "h\<lparr>gz_stream := (concat ?xs, [])\<rparr>" "concat ?xs"] st d by auto
  ultimately show ?thesis
    using gzip_lossless [where compress_size = 104873984 and xs = ?xs and can_open = "\<lambda>p. True" and
        path = "''log.gz''" and fs = Map.empty and junk = "CHR 0x00", OF store_zlib_laws init] h(1)
    by auto
qed

end
