(* ===== verification/Logger.thy ===== *)
theory Logger
  imports Buff_Ring Pcap_Text Gzip
begin

text \<open>
  \<open>BasicBusinessLogger\<close> of \<^verbatim>\<open>logger.h\<close> and \<^verbatim>\<open>logger.cpp\<close> (as built, with \<^verbatim>\<open>VECTOR_TEST\<close> 0): packets are
  pushed into a ring; a rotation takes them out, turns them into text lines and writes the lines
  to numbered files, plain or compressed. The clocks, the paths that can be opened and the contents
  of uninitialised memory are parameters. Output to the console is not modelled. \<open>None\<close> is the use
  of an uninitialised variable or pointer, or an access outside an array.
\<close>

section \<open>State\<close>

definition kCompressNone :: u8 where "kCompressNone = 0"
definition kCompressGzip :: u8 where "kCompressGzip = 1"

definition kVectorThreshold :: u32 where "kVectorThreshold = 67108864"

text \<open>\<open>m_data\<close> and \<open>m_gipHelper\<close> are pointers, unset until \<open>init\<close>.\<close>

record 'z BasicBusinessLogger =
  m_data :: "PcapPacket BuffRing option"
  m_rotate_size :: u32
  m_rotate_cycle :: u32
  m_compress_type :: u8
  m_file_path :: string
  m_start_time :: u32
  m_roate_cnt :: u32
  m_fileGenTime :: string
  m_buf :: string
  m_gipHelper :: "'z GzipHelper option"
  m_uptimeBak :: u64
  m_serial_cnt :: u32

text \<open>
  What one call sees of the world: two readings of the monotonic clock in seconds, the local time as
  14 digits, the paths that can be opened for writing, and the contents of new packets.
\<close>

record env =
  uptime :: u32
  uptime2 :: u32
  gen_time :: string
  can_open :: "string \<Rightarrow> bool"
  blank :: PcapPacket

section \<open>Operations\<close>

definition new_BasicBusinessLogger :: "'z BasicBusinessLogger" where
  "new_BasicBusinessLogger = \<lparr>m_data = None, m_rotate_size = 0, m_rotate_cycle = 0, m_compress_type = 0,
     m_file_path = [], m_start_time = 0, m_roate_cnt = 0, m_fileGenTime = [], m_buf = [],
     m_gipHelper = None, m_uptimeBak = 0, m_serial_cnt = 0\<rparr>"

definition logger_name :: string where "logger_name = ''basic_logger''"

definition logger_clear :: "'z zlib \<Rightarrow> 'z BasicBusinessLogger \<Rightarrow> 'z BasicBusinessLogger option" where
  "logger_clear Z l =
     (if m_compress_type l = kCompressGzip
      then do { h \<leftarrow> m_gipHelper l; Some (l\<lparr>m_gipHelper := Some (snd (compressReset Z h))\<rparr>) }
      else Some (l\<lparr>m_buf := []\<rparr>))"

text \<open>The size of the compression buffer is computed in 32 bits.\<close>

definition logger_init :: "char \<Rightarrow> 'z zlib \<Rightarrow> env \<Rightarrow> string \<Rightarrow> u32 \<Rightarrow> u32 \<Rightarrow> u8 \<Rightarrow> 'z BasicBusinessLogger \<Rightarrow>
    (int \<times> 'z BasicBusinessLogger) option" where
  "logger_init junk Z e file_path rotate_size rotate_cycle compress_type l =
     (let l = l\<lparr>m_file_path := file_path, m_rotate_size := rotate_size, m_rotate_cycle := rotate_cycle,
            m_compress_type := compress_type, m_uptimeBak := ucast (uptime e + 10), m_start_time := uptime2 e\<rparr>;
          l = (if m_compress_type l = kCompressGzip
            then l\<lparr>m_gipHelper := Some (snd (compressInit junk Z
                   (new_GzipHelper Z (ucast (m_rotate_size l + 16384)) kZlibCompressLevel kZlibMemoryLevel)))\<rparr>
            else l)
      in do {
        r \<leftarrow> new_BuffRing (blank e) (2 * kVectorThreshold) kRingQueueVariable False True;
        Some (0, l\<lparr>m_data := Some r\<rparr>) })"

text \<open>The number of entries \<open>DoEnqueue\<close> was granted is dropped.\<close>

definition push_back :: "PcapPacket \<Rightarrow> 'z BasicBusinessLogger \<Rightarrow> (int \<times> 'z BasicBusinessLogger) option" where
  "push_back members l = do {
     r \<leftarrow> m_data l;
     (n, free_space, r) \<leftarrow> DoEnqueue r [members] 1;
     Some (0, l\<lparr>m_data := Some r\<rparr>) }"

definition getFileGenTime :: "env \<Rightarrow> 'z BasicBusinessLogger \<Rightarrow> 'z BasicBusinessLogger" where
  "getFileGenTime e l = l\<lparr>m_fileGenTime := gen_time e\<rparr>"

definition csv_line :: "PcapPacket \<Rightarrow> string" where
  "csv_line packet =
     snprintf 1024 (''src ip='' @ IP_FORMAT (scr_ipv4 packet)) @ '', '' @
     snprintf 1024 (''dst ip='' @ IP_FORMAT (dst_ipv4 packet)) @ '', '' @
     snprintf 1024 (port_text (scr_port packet) (dst_port packet))"

text \<open>An error of \<open>compressUpdate\<close> is printed and dropped.\<close>

definition makeCsvLog :: "'z zlib \<Rightarrow> PcapPacket \<Rightarrow> 'z BasicBusinessLogger \<Rightarrow> 'z BasicBusinessLogger option" where
  "makeCsvLog Z packet l =
     (let line_log = csv_line packet in
      if m_compress_type l = kCompressGzip
      then do {
        h \<leftarrow> m_gipHelper l;
        (ret, h) \<leftarrow> compressUpdate Z line_log (of_nat (length line_log)) h;
        Some (l\<lparr>m_gipHelper := Some h\<rparr>) }
      else Some (l\<lparr>m_buf := m_buf l @ line_log\<rparr>))"

text \<open>\<^verbatim>\<open>rename\<close> of a file that is not there changes nothing.\<close>

definition rename_file :: "string \<Rightarrow> string \<Rightarrow> disk \<Rightarrow> disk" where
  "rename_file from to fs = (case fs from of None \<Rightarrow> fs | Some f \<Rightarrow> fs(from := None, to \<mapsto> f))"

definition log_path :: "string \<Rightarrow> string \<Rightarrow> u32 \<Rightarrow> string" where
  "log_path file_path genTime serial =
     FormatStr (file_path @ ''/'' @ genTime @ show_pad 5 (sint serial) @ ''.txt'')"

definition outputFile :: "'z zlib \<Rightarrow> env \<Rightarrow> 'z BasicBusinessLogger \<Rightarrow> disk \<Rightarrow>
    (int \<times> 'z BasicBusinessLogger \<times> disk) option" where
  "outputFile Z e l fs =
     (let outputFilePath = log_path (m_file_path l) (m_fileGenTime l) (m_serial_cnt l) in
      if m_compress_type l = kCompressGzip
      then do {
        let outputFilePath = outputFilePath @ ''.gz'';
        let outputFilePathTmp = outputFilePath @ ''.tmptmp'';
        h \<leftarrow> m_gipHelper l;
        (ret, h) \<leftarrow> compressFinish Z h;
        (ret, fs) \<leftarrow> dumpCompressFile Z (can_open e) outputFilePathTmp h fs;
        let h = snd (compressReset Z h);
        Some (0, l\<lparr>m_gipHelper := Some h\<rparr>, rename_file outputFilePathTmp outputFilePath fs) }
      else do {
        let outputFilePathTmp = outputFilePath @ ''.tmptmp'';
        let fs = (if can_open e outputFilePathTmp
          then rename_file outputFilePathTmp outputFilePath (fs(outputFilePathTmp \<mapsto> m_buf l)) else fs);
        Some (0, l\<lparr>m_buf := []\<rparr>, fs) })"

text \<open>The loop over the packets taken out of the ring.\<close>

definition wants_output :: "'z BasicBusinessLogger \<Rightarrow> bool option" where
  "wants_output l =
     (if m_compress_type l = kCompressGzip then map_option isFull (m_gipHelper l)
      else Some (length (m_buf l) > unat (m_rotate_size l)))"

fun rotate_loop :: "'z zlib \<Rightarrow> env \<Rightarrow> PcapPacket list \<Rightarrow> 'z BasicBusinessLogger \<Rightarrow> disk \<Rightarrow>
    ('z BasicBusinessLogger \<times> disk) option" where
  "rotate_loop Z e [] l fs = Some (l, fs)"
| "rotate_loop Z e (p # ps) l fs = do {
     ifOutPutFile \<leftarrow> wants_output l;
     (l, fs) \<leftarrow> (if ifOutPutFile then do {
         (ret, l, fs) \<leftarrow> outputFile Z e l fs;
         Some (l\<lparr>m_serial_cnt := m_serial_cnt l + 1\<rparr>, fs) }
       else Some (l, fs));
     l \<leftarrow> makeCsvLog Z p l;
     rotate_loop Z e ps l fs }"

text \<open>
  \<open>how_much\<close> and \<open>data\<close> are only set when the time is over or at most half of the ring is free;
  the loop and \<^verbatim>\<open>delete[] data\<close> use them in any case.
\<close>

definition checkRotate :: "'z zlib \<Rightarrow> env \<Rightarrow> 'z BasicBusinessLogger \<Rightarrow> disk \<Rightarrow>
    (int \<times> 'z BasicBusinessLogger \<times> disk) option" where
  "checkRotate Z e l fs =
     (let isTimeOut = (uptime e - m_start_time l > m_roate_cnt l * m_rotate_cycle l);
          l = (if isTimeOut then l\<lparr>m_uptimeBak := ucast (uptime2 e), m_roate_cnt := m_roate_cnt l + 1\<rparr> else l)
      in do {
        r \<leftarrow> m_data l;
        (how_much, data, l) \<leftarrow>
          (if isTimeOut \<or> RingFreeCount r \<le> 67108864 then do {
             (how_much, available, data, r) \<leftarrow>
               DoDequeue r (replicate (unat kVectorThreshold) (blank e)) kVectorThreshold;
             Some (how_much, data, l\<lparr>m_data := Some r\<rparr>) }
           else None);
        let l = l\<lparr>m_serial_cnt := 0\<rparr>;
        let l = getFileGenTime e l;
        (l, fs) \<leftarrow> rotate_loop Z e (take (unat how_much) data) l fs;
        (l, fs) \<leftarrow> (if isTimeOut \<and> m_serial_cnt l = 0 then do {
            (ret, l, fs) \<leftarrow> outputFile Z e l fs;
            Some (l, fs) }
          else Some (l, fs));
        Some (1, l, fs) })"

text \<open>The destructor.\<close>

definition destroy_logger :: "'z zlib \<Rightarrow> env \<Rightarrow> 'z BasicBusinessLogger \<Rightarrow> disk \<Rightarrow>
    (int \<times> 'z BasicBusinessLogger \<times> disk) option" where
  "destroy_logger Z e l fs = checkRotate Z e (l\<lparr>m_uptimeBak := 0\<rparr>) fs"

section \<open>The lines\<close>

lemma IP_FORMAT_length: "length (IP_FORMAT a) \<le> 15"
proof -
  have l: "length (show_nat n) \<le> 3" if "n < 256" for n
    using length_show_nat [of n 3] that by simp
  have "unat a div 16777216 < 256" using unat_less_exp32 [of a] by (simp add: less_mult_imp_div_less)
  then have "length (show_nat (unat a div 16777216)) \<le> 3" by (rule l)
  moreover have "length (show_nat (m mod 256)) \<le> 3" for m by (rule l) simp
  note this [of "unat a div 65536"] this [of "unat a div 256"] this [of "unat a"]
  ultimately show ?thesis unfolding IP_FORMAT_dotted by simp
qed

lemma port_text_eq: "port_text s d =
    ''src port = '' @ show_nat (unat s) @ '', dst port= '' @ show_nat (unat d) @ '' '' @ [newline]"
  by (simp add: port_text_def show_int_def)

lemma unat_u16: "unat (s :: u16) < 65536"
  using unsigned_less [of s, where ?'a = nat] by simp

lemma port_text_length: "length (port_text s d) \<le> 35"
proof -
  have "length (show_nat (unat p)) \<le> 5" for p :: u16
    using length_show_nat [of "unat p" 5] unat_u16 [of p] by simp
  from this [of s] this [of d] show ?thesis unfolding port_text_eq by simp
qed

lemma snprintf_id: "length s < n \<Longrightarrow> snprintf n s = s"
  by (simp add: snprintf_def)

lemma csv_line_eq: "csv_line p = ''src ip='' @ IP_FORMAT (scr_ipv4 p) @ '', '' @
    ''dst ip='' @ IP_FORMAT (dst_ipv4 p) @ '', '' @ port_text (scr_port p) (dst_port p)"
  using IP_FORMAT_length [of "scr_ipv4 p"] IP_FORMAT_length [of "dst_ipv4 p"]
    port_text_length [of "scr_port p" "dst_port p"]
  by (simp add: csv_line_def snprintf_id)

lemma csv_line_length: "length (csv_line p) \<le> 83"
  using IP_FORMAT_length [of "scr_ipv4 p"] IP_FORMAT_length [of "dst_ipv4 p"]
    port_text_length [of "scr_port p" "dst_port p"]
  by (simp add: csv_line_eq)

lemma csv_line_inj:
  assumes "csv_line p = csv_line q"
  shows "scr_ipv4 p = scr_ipv4 q \<and> dst_ipv4 p = dst_ipv4 q \<and> scr_port p = scr_port q \<and> dst_port p = dst_port q"
proof -
  have nd: "\<not> isdigit (CHR '','')" "\<not> isdigit (CHR '' '')" by (simp_all add: isdigit_def)
  note e = assms [unfolded csv_line_eq port_text_eq, simplified]
  from IP_FORMAT_delim [OF e nd(1) nd(1)] have 1: "scr_ipv4 p = scr_ipv4 q"
    and e: "IP_FORMAT (dst_ipv4 p) @ CHR '','' # '' src port = '' @ show_nat (unat (scr_port p)) @
      '', dst port= '' @ show_nat (unat (dst_port p)) @ '' '' @ [newline] =
      IP_FORMAT (dst_ipv4 q) @ CHR '','' # '' src port = '' @ show_nat (unat (scr_port q)) @
      '', dst port= '' @ show_nat (unat (dst_port q)) @ '' '' @ [newline]" by simp_all
  from IP_FORMAT_delim [OF e nd(1) nd(1)] have 2: "dst_ipv4 p = dst_ipv4 q"
    and e: "show_nat (unat (scr_port p)) @ CHR '','' # '' dst port= '' @ show_nat (unat (dst_port p)) @ '' '' @ [newline] =
      show_nat (unat (scr_port q)) @ CHR '','' # '' dst port= '' @ show_nat (unat (dst_port q)) @ '' '' @ [newline]"
    by simp_all
  from show_nat_delim [OF e nd(1) nd(1)] have 3: "unat (scr_port p) = unat (scr_port q)"
    and e: "show_nat (unat (dst_port p)) @ CHR '' '' # [newline] = show_nat (unat (dst_port q)) @ CHR '' '' # [newline]"
    by simp_all
  from show_nat_delim [OF e nd(2) nd(2)] have 4: "unat (dst_port p) = unat (dst_port q)" by simp
  show ?thesis using 1 2 3 4 by (simp only: word_unat_eq_iff)
qed

section \<open>The files of a rotation\<close>

text \<open>The time is printed with 14 digits; the path is short enough for the buffer of \<open>FormatStr\<close>.\<close>

definition names_ok :: "string \<Rightarrow> string \<Rightarrow> bool" where
  "names_ok path time \<longleftrightarrow> length path < 40000 \<and> length time = 14 \<and> CHR 0x00 \<notin> set path \<and> CHR 0x00 \<notin> set time"

lemma sint_of_nat: "k < 2147483648 \<Longrightarrow> sint (of_nat k :: u32) = int k"
proof -
  assume k: "k < 2147483648"
  then have "uint (of_nat k :: u32) = int k" by (simp add: uint_nat unat_of_nat32 del: of_nat_unat)
  moreover have "signed_take_bit 31 (int k) = int k"
    using k by (intro signed_take_bit_int_eq_self) simp_all
  ultimately show ?thesis by (simp add: sint_uint)
qed

lemma log_path_eq:
  assumes "names_ok path time" "k < 2147483648"
  shows "log_path path time (of_nat k) = path @ ''/'' @ time @ show_pad 5 (int k) @ ''.txt''"
proof -
  have "k < 10 ^ 10" using assms(2) by simp
  from length_show_nat [OF this] have "length (show_pad 5 (int k)) \<le> 10"
    by (simp add: show_pad_def zeros_def)
  moreover have "CHR 0x00 \<notin> set (show_pad 5 (int k))"
    using zeros_digits [of 5 k] by (auto simp: show_pad_def isdigit_def)
  moreover define s where "s = path @ ''/'' @ time @ show_pad 5 (int k) @ ''.txt''"
  ultimately have "length s \<le> 40959" "CHR 0x00 \<notin> set s" using assms(1) by (auto simp: names_ok_def)
  then have "FormatStr s = s" by (simp add: FormatStr_def takeWhile_no_delim)
  then show ?thesis by (simp add: log_path_def sint_of_nat [OF assms(2)] s_def)
qed

lemma log_path_inj:
  assumes "names_ok path t" "names_ok path u" "j < 2147483648" "k < 2147483648"
  shows "log_path path t (of_nat j) = log_path path u (of_nat k) \<longleftrightarrow> t = u \<and> j = k"
  using assms by (auto simp: log_path_eq show_pad_inj names_ok_def)

lemma log_path_not_tmp:
  assumes "names_ok path t" "j < 2147483648"
  shows "log_path path t (of_nat j) \<noteq> log_path path u (of_nat k) @ ''.tmptmp''"
proof
  assume "log_path path t (of_nat j) = log_path path u (of_nat k) @ ''.tmptmp''"
  then have "last (log_path path t (of_nat j)) = CHR ''p''" by simp
  then show False using assms by (simp add: log_path_eq)
qed

text \<open>
  Files published under numbered names: each is written under a temporary name and then renamed.
  What the logger needs of its file names is the interface below.
\<close>

fun publish :: "(nat \<Rightarrow> string) \<Rightarrow> nat \<Rightarrow> string list \<Rightarrow> disk \<Rightarrow> disk" where
  "publish name n [] fs = fs"
| "publish name n (c # cs) fs = publish name (Suc n) cs (fs(name n @ ''.tmptmp'' := None, name n \<mapsto> c))"

lemma publish_append:
  "publish name n (cs @ ds) fs = publish name (n + length cs) ds (publish name n cs fs)"
  by (induction cs arbitrary: n fs) simp_all

fun publish_all :: "('k \<Rightarrow> nat \<Rightarrow> string) \<Rightarrow> ('k \<times> string list) list \<Rightarrow> disk \<Rightarrow> disk" where
  "publish_all name [] fs = fs"
| "publish_all name ((k, cs) # bs) fs = publish_all name bs (publish (name k) 0 cs fs)"

locale numbered_files =
  fixes name :: "'k \<Rightarrow> nat \<Rightarrow> string"
    and ok :: "'k \<Rightarrow> bool"
    and bound :: nat
  assumes name_inj: "ok key \<Longrightarrow> ok key' \<Longrightarrow> i < bound \<Longrightarrow> j < bound \<Longrightarrow>
      name key i = name key' j \<longleftrightarrow> key = key' \<and> i = j"
    and name_not_tmp: "ok key \<Longrightarrow> i < bound \<Longrightarrow> name key i \<noteq> name key' j @ ''.tmptmp''"
begin

lemma publish_other:
  "\<forall>k. n \<le> k \<and> k < n + length cs \<longrightarrow> p \<noteq> name key k \<and> p \<noteq> name key k @ ''.tmptmp'' \<Longrightarrow>
   publish (name key) n cs fs p = fs p"
proof (induction cs arbitrary: n fs)
  case (Cons c cs)
  have "publish (name key) (Suc n) cs (fs(name key n @ ''.tmptmp'' := None, name key n \<mapsto> c)) p =
      (fs(name key n @ ''.tmptmp'' := None, name key n \<mapsto> c)) p"
    using Cons.prems by (intro Cons.IH) auto
  then show ?case using Cons.prems by simp
qed simp

lemma publish_earlier:
  assumes "ok key" "j < n" "n + length cs \<le> bound"
  shows "publish (name key) n cs fs (name key j) = fs (name key j)"
  using assms name_inj [of key key j] name_not_tmp [of key j] by (intro publish_other) auto

lemma publish_lookup:
  "ok key \<Longrightarrow> n + length cs \<le> bound \<Longrightarrow> i < length cs \<Longrightarrow>
   publish (name key) n cs fs (name key (n + i)) = Some (cs ! i)"
proof (induction cs arbitrary: n fs i)
  case (Cons c cs)
  show ?case
  proof (cases i)
    case 0
    then show ?thesis using Cons.prems by (simp add: publish_earlier)
  next
    case (Suc j)
    then show ?thesis using Cons.IH [of "Suc n" j] Cons.prems by simp
  qed
qed simp

text \<open>Batches under different keys do not touch each other's files.\<close>

lemma publish_elsewhere:
  assumes "ok key" "ok key'" "key \<noteq> key'" "length cs \<le> bound" "i < bound"
  shows "publish (name key') 0 cs fs (name key i) = fs (name key i)"
  using assms name_inj [of key key' i] name_not_tmp [of key i key'] by (intro publish_other) auto

lemma publish_all_elsewhere:
  "ok key \<Longrightarrow> i < bound \<Longrightarrow> \<forall>b \<in> set bs. ok (fst b) \<and> length (snd b) \<le> bound \<and> fst b \<noteq> key \<Longrightarrow>
   publish_all name bs fs (name key i) = fs (name key i)"
proof (induction bs arbitrary: fs)
  case (Cons b bs)
  then show ?case using publish_elsewhere [of key "fst b" "snd b" i] by (cases b) auto
qed simp

lemma publish_all_lookup:
  "distinct (map fst bs) \<Longrightarrow> \<forall>b \<in> set bs. ok (fst b) \<and> length (snd b) \<le> bound \<Longrightarrow>
   b \<in> set bs \<Longrightarrow> i < length (snd b) \<Longrightarrow> publish_all name bs fs (name (fst b) i) = Some (snd b ! i)"
proof (induction bs arbitrary: fs)
  case (Cons a bs)
  show ?case
  proof (cases "b = a")
    case True
    have ba: "ok (fst b)" "length (snd b) \<le> bound" using Cons.prems True by auto
    have "\<forall>c \<in> set bs. ok (fst c) \<and> length (snd c) \<le> bound \<and> fst c \<noteq> fst b"
      using Cons.prems(1,2) True by (auto simp: image_iff)
    then have "publish_all name bs gs (name (fst b) i) = gs (name (fst b) i)" for gs
      using ba Cons.prems(4) by (intro publish_all_elsewhere) auto
    then show ?thesis
      using True ba Cons.prems(4) publish_lookup [of "fst b" 0 "snd b" i] by (cases a) simp
  next
    case False
    then show ?thesis using Cons by (cases a) auto
  qed
qed simp

end

definition log_name :: "string \<Rightarrow> string \<Rightarrow> nat \<Rightarrow> string" where
  "log_name path time k = log_path path time (of_nat k)"

interpretation log_files: numbered_files "log_name path" "names_ok path" 2147483648 for path
  by unfold_locales (simp_all add: log_name_def log_path_inj log_path_not_tmp)

section \<open>A call of checkRotate\<close>

definition csv_text :: "PcapPacket list \<Rightarrow> string" where
  "csv_text ps = concat (map csv_line ps)"

lemma csv_text_append [simp]: "csv_text (a @ b) = csv_text a @ csv_text b"
  by (simp add: csv_text_def)

lemma csv_text_Nil [simp]: "csv_text [] = []"
  by (simp add: csv_text_def)

lemma csv_text_split: "csv_text xs = csv_text (take n xs) @ csv_text (drop n xs)"
  by (metis append_take_drop_id csv_text_append)

definition timed_out :: "env \<Rightarrow> 'z BasicBusinessLogger \<Rightarrow> bool" where
  "timed_out e l \<longleftrightarrow> uptime e - m_start_time l > m_roate_cnt l * m_rotate_cycle l"

text \<open>What a rotation takes out of the ring.\<close>

lemma drain:
  assumes "ring_ok r" "behavior r = kRingQueueVariable"
  shows "\<exists>k available data. DoDequeue r (replicate (unat kVectorThreshold) d) kVectorThreshold =
      Some (k, available, data, ring_pop r (unat k)) \<and>
    take (unat k) data = take (unat kVectorThreshold) (ring_contents r) \<and>
    unat k = min (unat kVectorThreshold) (ring_used r)"
proof -
  let ?n = "unat kVectorThreshold"
  obtain k avail where k: "DoDequeue r (replicate ?n d) kVectorThreshold =
      Some (k, avail, take (unat k) (ring_contents r) @ drop (unat k) (replicate ?n d), ring_pop r (unat k))"
    "unat k = admit (ring_fixed r) ?n (ring_used r)"
    using DoDequeue_eq [OF assms(1), of kVectorThreshold "replicate ?n d"] by auto
  have "\<not> ring_fixed r" using assms(2) by (simp add: ring_fixed_def)
  then have m: "unat k = min ?n (ring_used r)" using k(2) by (auto simp: admit_def)
  then have "take (unat k) (ring_contents r) = take ?n (ring_contents r)" by (simp add: min_def)
  moreover define a where "a = take (unat k) (ring_contents r)"
  moreover have "length a = unat k" using m by (simp add: a_def)
  then have "take (unat k) (a @ drop (unat k) (replicate ?n d)) = a" by simp
  ultimately have "take (unat k) (take (unat k) (ring_contents r) @ drop (unat k) (replicate ?n d)) =
      take ?n (ring_contents r)" by simp
  then show ?thesis using k(1) m by blast
qed

lemma drop_drained: "k = min n (length xs) \<Longrightarrow> drop k xs = drop n xs"
  by (simp add: min_def)

text \<open>The state the loop over the packets starts in, and the call in terms of that loop.\<close>

definition rotate_start :: "env \<Rightarrow> 'z BasicBusinessLogger \<Rightarrow> PcapPacket BuffRing \<Rightarrow> 'z BasicBusinessLogger" where
  "rotate_start e l r =
     (if timed_out e l then l\<lparr>m_uptimeBak := ucast (uptime2 e), m_roate_cnt := m_roate_cnt l + 1\<rparr> else l)
       \<lparr>m_data := Some r, m_serial_cnt := 0, m_fileGenTime := gen_time e\<rparr>"

lemma rotate_start_sel [simp]:
  "m_compress_type (rotate_start e l r) = m_compress_type l" "m_serial_cnt (rotate_start e l r) = of_nat 0"
  "m_fileGenTime (rotate_start e l r) = gen_time e" "m_gipHelper (rotate_start e l r) = m_gipHelper l"
  "m_rotate_size (rotate_start e l r) = m_rotate_size l" "m_buf (rotate_start e l r) = m_buf l"
  "m_data (rotate_start e l r) = Some r" "m_file_path (rotate_start e l r) = m_file_path l"
  "m_start_time (rotate_start e l r) = m_start_time l" "m_rotate_cycle (rotate_start e l r) = m_rotate_cycle l"
  "m_roate_cnt (rotate_start e l r) = m_roate_cnt l + (if timed_out e l then 1 else 0)"
  by (simp_all add: rotate_start_def)

lemma checkRotate_drained:
  assumes data: "m_data l = Some r" "ring_ok r" "behavior r = kRingQueueVariable"
    and run: "timed_out e l \<or> RingFreeCount r \<le> 67108864"
  shows "\<exists>r'. ring_ok r' \<and> ring_contents r' = drop (unat kVectorThreshold) (ring_contents r) \<and>
    behavior r' = behavior r \<and> capacity r' = capacity r \<and>
    checkRotate Z e l fs = do {
      (l', fs) \<leftarrow> rotate_loop Z e (take (unat kVectorThreshold) (ring_contents r)) (rotate_start e l r') fs;
      if timed_out e l \<and> m_serial_cnt l' = 0
      then do { (ret, l', fs) \<leftarrow> outputFile Z e l' fs; Some (1, l', fs) }
      else Some (1, l', fs) }"
proof -
  let ?N = "unat kVectorThreshold"
  obtain k avail xs where k: "DoDequeue r (replicate ?N (blank e)) kVectorThreshold =
      Some (k, avail, xs, ring_pop r (unat k))" "take (unat k) xs = take ?N (ring_contents r)"
    "unat k = min ?N (ring_used r)"
    using drain [OF data(2,3)] by blast
  define l0 where "l0 = (if timed_out e l
    then l\<lparr>m_uptimeBak := ucast (uptime2 e), m_roate_cnt := m_roate_cnt l + 1\<rparr> else l)"
  have l0: "m_data l0 = Some r" using data(1) by (simp add: l0_def)
  have assoc: "(if c then do { (ret, l, fs) \<leftarrow> outputFile Z e l gs; Some (l, fs) } else Some (l, gs)) \<bind>
        (\<lambda>(l, fs). Some (1, l, fs)) =
      (if c then do { (ret, l, fs) \<leftarrow> outputFile Z e l gs; Some (1, l, fs) } else Some (1 :: int, l, gs))"
    for c and l :: "'a BasicBusinessLogger" and gs
    by (cases "outputFile Z e l gs") auto
  have "checkRotate Z e l fs = do {
      (l', fs) \<leftarrow> rotate_loop Z e (take ?N (ring_contents r)) (rotate_start e l (ring_pop r (unat k))) fs;
      if timed_out e l \<and> m_serial_cnt l' = 0
      then do { (ret, l', fs) \<leftarrow> outputFile Z e l' fs; Some (1, l', fs) }
      else Some (1, l', fs) }"
    unfolding checkRotate_def timed_out_def [symmetric] Let_def
    unfolding l0_def [symmetric] rotate_start_def getFileGenTime_def
    using l0 run k(1,2) by (cases "timed_out e l") (simp_all add: assoc)
  then show ?thesis
    using ring_pop_ok [OF data(2), of "unat k"] ring_pop_contents [OF data(2), of "unat k"] k(3)
    by (intro exI [of _ "ring_pop r (unat k)"]) (simp add: drop_drained)
qed


end
