(* ===== verification/Log_Sink.thy ===== *)
theory Log_Sink
  imports Logger
begin

text \<open>
  What the logger relies on in the two ways of keeping its lines (the text buffer, the compression
  buffer), as the interface \<open>log_sink\<close>; the loop of a rotation, a call of \<open>checkRotate\<close> and whole runs
  of the logger are verified once, over that interface.
\<close>

section \<open>Pushing\<close>

lemma Roundup_ring: "RoundupPowerOf2 (2 * kVectorThreshold) = Some (2 * kVectorThreshold)"
  by (simp add: RoundupPowerOf2_def IsPowerOf2_def kVectorThreshold_def)

lemma logger_ring:
  "\<exists>r. new_BuffRing d (2 * kVectorThreshold) kRingQueueVariable False True = Some r \<and> ring_ok r \<and>
     ring_contents r = [] \<and> behavior r = kRingQueueVariable \<and> capacity r = 134217727"
proof -
  have "IsPowerOf2 (2 * kVectorThreshold)" by (simp add: IsPowerOf2_def kVectorThreshold_def)
  then obtain r where r: "new_BuffRing d (2 * kVectorThreshold) kRingQueueVariable False True = Some r" "ring_ok r"
    "ring_contents r = []" "capacity r = 2 * kVectorThreshold - 1"
    using new_BuffRing_Some [OF Roundup_ring, where dflt = d and behav = kRingQueueVariable
        and sp = False and sc = True] by blast
  moreover have "behavior r = kRingQueueVariable" using r(1) by (auto simp: new_BuffRing_def Roundup_ring)
  ultimately show ?thesis by (auto simp: kVectorThreshold_def)
qed

lemma push_back_ok:
  assumes "m_data l = Some r" "ring_ok r" "behavior r = kRingQueueVariable"
  shows "\<exists>r'. push_back p l = Some (0, l\<lparr>m_data := Some r'\<rparr>) \<and> ring_ok r' \<and> behavior r' = kRingQueueVariable \<and>
    capacity r' = capacity r \<and>
    ring_contents r' = ring_contents r @ (if length (ring_contents r) < unat (capacity r) then [p] else [])"
proof -
  obtain k free where k: "DoEnqueue r [p] 1 = Some (k, free, ring_push r (take (unat k) [p]))"
    "unat k = admit (ring_fixed r) 1 (ring_cap r - ring_used r)"
    using DoEnqueue_eq [OF assms(2), of 1 "[p]"] by (auto simp: ring_cap_def)
  have "\<not> ring_fixed r" using assms(3) by (simp add: ring_fixed_def)
  then have "take (unat k) [p] = (if ring_used r < ring_cap r then [p] else [])"
    unfolding k(2) by (simp add: admit_def)
  then show ?thesis
    using k(1) assms ring_push_admitted [OF assms(2) k(2), of "[p]"]
    by (intro exI [of _ "ring_push r (take (unat k) [p])"]) (simp add: push_back_def ring_cap_def)
qed

section \<open>Runs of the logger\<close>

text \<open>
  The operations the threads carry out on the logger, in the order in which they take effect. The
  ring makes one order of the concurrent pushes and the consumer's dequeues (theory \<open>Ring_Run\<close>).
\<close>

datatype log_event = Push PcapPacket | Rotate env

fun log_run :: "'z zlib \<Rightarrow> log_event list \<Rightarrow> 'z BasicBusinessLogger \<Rightarrow> disk \<Rightarrow>
    ('z BasicBusinessLogger \<times> disk) option" where
  "log_run Z [] l fs = Some (l, fs)"
| "log_run Z (Push p # evs) l fs = do { (ret, l) \<leftarrow> push_back p l; log_run Z evs l fs }"
| "log_run Z (Rotate e # evs) l fs = do { (ret, l, fs) \<leftarrow> checkRotate Z e l fs; log_run Z evs l fs }"

text \<open>Which packets find room: all while the ring is not full.\<close>

fun accepted :: "nat \<Rightarrow> log_event list \<Rightarrow> nat \<Rightarrow> PcapPacket list" where
  "accepted cap [] n = []"
| "accepted cap (Push p # evs) n =
     (if n < cap then p # accepted cap evs (Suc n) else accepted cap evs n)"
| "accepted cap (Rotate e # evs) n = accepted cap evs (n - unat kVectorThreshold)"

lemma accepted_all:
  "n + length ps \<le> cap \<Longrightarrow> accepted cap (map Push ps @ evs) n = ps @ accepted cap evs (n + length ps)"
  by (induction ps arbitrary: n) auto

fun rotations :: "log_event list \<Rightarrow> env list" where
  "rotations [] = []"
| "rotations (Push p # evs) = rotations evs"
| "rotations (Rotate e # evs) = e # rotations evs"

text \<open>No rotation is tried before its time.\<close>

fun on_time :: "u32 \<Rightarrow> u32 \<Rightarrow> u32 \<Rightarrow> log_event list \<Rightarrow> bool" where
  "on_time start cycle cnt [] \<longleftrightarrow> True"
| "on_time start cycle cnt (Push p # evs) \<longleftrightarrow> on_time start cycle cnt evs"
| "on_time start cycle cnt (Rotate e # evs) \<longleftrightarrow>
     uptime e - start > cnt * cycle \<and> on_time start cycle (cnt + 1) evs"

section \<open>The interface\<close>

text \<open>What the sink sees of the logger, and what it leaves alone.\<close>

definition sink_part :: "'z BasicBusinessLogger \<Rightarrow> u8 \<times> u32 \<times> string \<times> 'z GzipHelper option" where
  "sink_part l = (m_compress_type l, m_rotate_size l, m_buf l, m_gipHelper l)"

definition same_log :: "'z BasicBusinessLogger \<Rightarrow> 'z BasicBusinessLogger \<Rightarrow> bool" where
  "same_log l l' \<longleftrightarrow> m_data l' = m_data l \<and> m_rotate_size l' = m_rotate_size l \<and>
     m_rotate_cycle l' = m_rotate_cycle l \<and> m_compress_type l' = m_compress_type l \<and>
     m_file_path l' = m_file_path l \<and> m_start_time l' = m_start_time l \<and> m_roate_cnt l' = m_roate_cnt l \<and>
     m_fileGenTime l' = m_fileGenTime l \<and> m_uptimeBak l' = m_uptimeBak l"

lemma same_log_trans: "same_log l l' \<Longrightarrow> same_log l' l'' \<Longrightarrow> same_log l l''"
  by (simp add: same_log_def)

lemma same_log_refl [simp]: "same_log l l"
  by (simp add: same_log_def)

text \<open>No temporary file is in the way.\<close>

definition clean_disk :: "(string option \<Rightarrow> bool) \<Rightarrow> (string \<Rightarrow> string \<Rightarrow> nat \<Rightarrow> string) \<Rightarrow> string \<Rightarrow> disk \<Rightarrow> bool" where
  "clean_disk tmp_ok name path fs \<longleftrightarrow> (\<forall>time k. tmp_ok (fs (name path time k @ ''.tmptmp'')))"

lemma clean_diskD: "clean_disk tmp_ok name path fs \<Longrightarrow> tmp_ok (fs (name path time k @ ''.tmptmp''))"
  by (simp add: clean_disk_def)

text \<open>
  \<open>ok\<close> is the invariant of the sink and \<open>room\<close> its strengthening that the next line is accepted;
  \<open>buffered\<close> is the text kept, \<open>reads\<close> the text of a file, \<open>fits\<close> what is known of the text of one
  file for a given limit, \<open>name\<close> the file names, and \<open>tmp_ok\<close> what a temporary file may be before.
\<close>

locale log_sink =
  fixes Z :: "'z zlib"
    and ok :: "'z BasicBusinessLogger \<Rightarrow> bool"
    and room :: "'z BasicBusinessLogger \<Rightarrow> bool"
    and buffered :: "'z BasicBusinessLogger \<Rightarrow> string"
    and reads :: "string \<Rightarrow> string option"
    and fits :: "u32 \<Rightarrow> string \<Rightarrow> bool"
    and name :: "string \<Rightarrow> string \<Rightarrow> nat \<Rightarrow> string"
    and tmp_ok :: "string option \<Rightarrow> bool"
  assumes sink_cong: "sink_part l = sink_part l' \<Longrightarrow> ok l = ok l' \<and> room l = room l' \<and> buffered l = buffered l'"
    and room_ok: "room l \<Longrightarrow> ok l"
    and wants_law: "ok l \<Longrightarrow> \<exists>b. wants_output l = Some b \<and> (\<not> b \<longrightarrow> room l)"
    and line_law: "room l \<Longrightarrow> \<exists>l'. makeCsvLog Z p l = Some l' \<and> ok l' \<and> buffered l' = buffered l @ csv_line p \<and>
      same_log l l' \<and> m_serial_cnt l' = m_serial_cnt l"
    and output_law: "ok l \<Longrightarrow> \<forall>p. can_open e p \<Longrightarrow> m_serial_cnt l = of_nat n \<Longrightarrow>
      tmp_ok (fs (name (m_file_path l) (m_fileGenTime l) n @ ''.tmptmp'')) \<Longrightarrow>
      \<exists>c l'. outputFile Z e l fs = Some (0, l', publish (name (m_file_path l) (m_fileGenTime l)) n [c] fs) \<and>
        reads c = Some (buffered l) \<and> fits (m_rotate_size l) (buffered l) \<and> room l' \<and> buffered l' = [] \<and>
        same_log l l' \<and> m_serial_cnt l' = m_serial_cnt l"
    and tmp_law: "tmp_ok (fs (name path time k @ ''.tmptmp'')) \<Longrightarrow>
      tmp_ok ((fs(name path time' n @ ''.tmptmp'' := None, name path time' n \<mapsto> c)) (name path time k @ ''.tmptmp''))"
begin

lemma ok_serial [simp]: "ok (l\<lparr>m_serial_cnt := s\<rparr>) = ok l" "room (l\<lparr>m_serial_cnt := s\<rparr>) = room l"
  "buffered (l\<lparr>m_serial_cnt := s\<rparr>) = buffered l"
  using sink_cong [of "l\<lparr>m_serial_cnt := s\<rparr>" l] by (simp_all add: sink_part_def)

lemma ok_start [simp]: "ok (rotate_start e l r) = ok l" "buffered (rotate_start e l r) = buffered l"
  using sink_cong [of "rotate_start e l r" l] by (simp_all add: sink_part_def)

lemma ok_data [simp]: "ok (l\<lparr>m_data := d\<rparr>) = ok l" "buffered (l\<lparr>m_data := d\<rparr>) = buffered l"
  using sink_cong [of "l\<lparr>m_data := d\<rparr>" l] by (simp_all add: sink_part_def)

lemma publish_clean:
  "clean_disk tmp_ok name path fs \<Longrightarrow> clean_disk tmp_ok name path (publish (name path time) n cs fs)"
proof (induction cs arbitrary: n fs)
  case (Cons c cs)
  have "clean_disk tmp_ok name path (fs(name path time n @ ''.tmptmp'' := None, name path time n \<mapsto> c))"
    using tmp_law [where fs = fs] Cons.prems unfolding clean_disk_def by blast
  then show ?case using Cons.IH by simp
qed simp

section \<open>The loop of a rotation\<close>

lemma rotate_step:
  assumes l: "ok l" "m_serial_cnt l = of_nat n" "\<forall>p. can_open e p" "clean_disk tmp_ok name (m_file_path l) fs"
  shows "\<exists>cs ts l' fs'. rotate_loop Z e (p # ps) l fs = rotate_loop Z e ps l' fs' \<and>
    fs' = publish (name (m_file_path l) (m_fileGenTime l)) n cs fs \<and> map reads cs = map Some ts \<and>
    (\<forall>t \<in> set ts. fits (m_rotate_size l) t) \<and> buffered l @ csv_line p = concat ts @ buffered l' \<and>
    length cs \<le> 1 \<and> ok l' \<and> same_log l l' \<and> m_serial_cnt l' = of_nat (n + length cs)"
proof -
  obtain b where b: "wants_output l = Some b" "\<not> b \<longrightarrow> room l" using wants_law [OF l(1)] by blast
  show ?thesis
  proof (cases b)
    case True
    obtain c l1 where 1: "outputFile Z e l fs = Some (0, l1, publish (name (m_file_path l) (m_fileGenTime l)) n [c] fs)"
      "reads c = Some (buffered l)" "fits (m_rotate_size l) (buffered l)" "room l1" "buffered l1 = []"
      "same_log l l1" "m_serial_cnt l1 = of_nat n"
      using output_law [OF l(1,3,2), of fs] clean_diskD [OF l(4)] l(2) by auto
    let ?l2 = "l1\<lparr>m_serial_cnt := m_serial_cnt l1 + 1\<rparr>"
    have "room ?l2" using 1(4) by simp
    then obtain l3 where 3: "makeCsvLog Z p ?l2 = Some l3" "ok l3" "buffered l3 = buffered ?l2 @ csv_line p"
      "same_log ?l2 l3" "m_serial_cnt l3 = m_serial_cnt ?l2"
      using line_law [of ?l2 p] by blast
    have "same_log l1 ?l2" by (simp add: same_log_def)
    then have "same_log l l3" using 1(6) 3(4) same_log_trans by blast
    moreover have "m_serial_cnt l3 = of_nat (n + length [c])" using 3(5) 1(7) by (simp add: add.commute)
    moreover have "rotate_loop Z e (p # ps) l fs =
        rotate_loop Z e ps l3 (publish (name (m_file_path l) (m_fileGenTime l)) n [c] fs)"
      using b(1) True 1(1) 3(1) by simp
    ultimately show ?thesis using 1 3
      by (intro exI [of _ "[c]"] exI [of _ "[buffered l]"] exI [of _ l3] exI [of _ "publish (name (m_file_path l) (m_fileGenTime l)) n [c] fs"]) simp
  next
    case False
    then obtain l1 where "makeCsvLog Z p l = Some l1" "ok l1" "buffered l1 = buffered l @ csv_line p"
      "same_log l l1" "m_serial_cnt l1 = m_serial_cnt l"
      using line_law [of l p] b(2) by blast
    then show ?thesis using b(1) False l(2)
      by (intro exI [of _ "[]"] exI [of _ "[]"] exI [of _ l1] exI [of _ fs]) simp
  qed
qed

lemma rotate_loop_sink:
  assumes "ok l" "m_serial_cnt l = of_nat n" "\<forall>p. can_open e p" "clean_disk tmp_ok name (m_file_path l) fs"
  shows "\<exists>cs ts l'. rotate_loop Z e ps l fs = Some (l', publish (name (m_file_path l) (m_fileGenTime l)) n cs fs) \<and>
    map reads cs = map Some ts \<and> (\<forall>t \<in> set ts. fits (m_rotate_size l) t) \<and>
    buffered l @ csv_text ps = concat ts @ buffered l' \<and> length cs \<le> length ps \<and> ok l' \<and> same_log l l' \<and>
    m_serial_cnt l' = of_nat (n + length cs)"
  using assms
proof (induction ps arbitrary: l n fs)
  case Nil
  then show ?case by (intro exI [of _ "[]"] exI [of _ "[]"] exI [of _ l]) simp
next
  case (Cons p ps)
  let ?name = "name (m_file_path l) (m_fileGenTime l)"
  obtain cs ts l1 where 1: "rotate_loop Z e (p # ps) l fs = rotate_loop Z e ps l1 (publish ?name n cs fs)"
    "map reads cs = map Some ts" "\<forall>t \<in> set ts. fits (m_rotate_size l) t"
    "buffered l @ csv_line p = concat ts @ buffered l1" "length cs \<le> 1" "ok l1" "same_log l l1"
    "m_serial_cnt l1 = of_nat (n + length cs)"
    using rotate_step [OF Cons.prems, of p ps] by blast
  have same: "m_file_path l1 = m_file_path l" "m_fileGenTime l1 = m_fileGenTime l" "m_rotate_size l1 = m_rotate_size l"
    using 1(7) by (simp_all add: same_log_def)
  have "clean_disk tmp_ok name (m_file_path l1) (publish ?name n cs fs)" using publish_clean [OF Cons.prems(4)] same by simp
  from Cons.IH [OF 1(6,8) Cons.prems(3) this, unfolded same] obtain ds us l2 where
    2: "rotate_loop Z e ps l1 (publish ?name n cs fs) = Some (l2, publish ?name (n + length cs) ds (publish ?name n cs fs))"
    "map reads ds = map Some us" "\<forall>t \<in> set us. fits (m_rotate_size l) t"
    "buffered l1 @ csv_text ps = concat us @ buffered l2" "length ds \<le> length ps" "ok l2" "same_log l1 l2"
    "m_serial_cnt l2 = of_nat (n + length cs + length ds)" by blast
  have "buffered l @ csv_text (p # ps) = concat (ts @ us) @ buffered l2"
    using 1(4) 2(4) by (simp add: csv_text_def) (metis append.assoc)
  then show ?case using 1 2 same_log_trans [OF 1(7) 2(7)]
    by (intro exI [of _ "cs @ ds"] exI [of _ "ts @ us"] exI [of _ l2]) (auto simp: publish_append add.assoc)
qed

section \<open>A call of checkRotate\<close>

text \<open>The loop, and a file for an expired time that has none yet.\<close>

lemma rotation_sink:
  assumes sink: "ok l" "m_serial_cnt l = 0" "\<forall>p. can_open e p" "clean_disk tmp_ok name (m_file_path l) fs"
    and len: "length ps < 4294967296"
  shows "\<exists>cs ts l'. do {
      (l', fs) \<leftarrow> rotate_loop Z e ps l fs;
      if expired \<and> m_serial_cnt l' = 0
      then do { (ret, l', fs) \<leftarrow> outputFile Z e l' fs; Some (1, l', fs) }
      else Some (1, l', fs) } = Some (1 :: int, l', publish (name (m_file_path l) (m_fileGenTime l)) 0 cs fs) \<and>
    map reads cs = map Some ts \<and> (\<forall>t \<in> set ts. fits (m_rotate_size l) t) \<and>
    buffered l @ csv_text ps = concat ts @ buffered l' \<and> length cs \<le> max 1 (length ps) \<and>
    (expired \<longrightarrow> cs \<noteq> []) \<and> ok l' \<and> same_log l l'"
proof -
  let ?name = "name (m_file_path l) (m_fileGenTime l)"
  obtain cs ts l1 where 1: "rotate_loop Z e ps l fs = Some (l1, publish ?name 0 cs fs)"
    "map reads cs = map Some ts" "\<forall>t \<in> set ts. fits (m_rotate_size l) t"
    "buffered l @ csv_text ps = concat ts @ buffered l1" "length cs \<le> length ps" "ok l1" "same_log l l1"
    "m_serial_cnt l1 = of_nat (length cs)"
    using rotate_loop_sink [of l 0 e fs ps] sink by auto
  have small: "length cs < 4294967296" using 1(5) len by simp
  have zero: "m_serial_cnt l1 = 0 \<longleftrightarrow> cs = []"
    using small unat_of_nat32 [OF small] by (auto simp: 1(8))
  have names: "m_file_path l1 = m_file_path l" "m_fileGenTime l1 = m_fileGenTime l" "m_rotate_size l1 = m_rotate_size l"
    using 1(7) by (simp_all add: same_log_def)
  show ?thesis
  proof (cases "expired \<and> cs = []")
    case True
    have "tmp_ok (fs (name (m_file_path l1) (m_fileGenTime l1) 0 @ ''.tmptmp''))"
      unfolding names using clean_diskD [OF sink(4)] .
    then obtain c l2 where 2: "outputFile Z e l1 fs = Some (0, l2, publish ?name 0 [c] fs)"
      "reads c = Some (buffered l1)" "fits (m_rotate_size l) (buffered l1)" "room l2" "buffered l2 = []" "same_log l1 l2"
      using output_law [OF 1(6) sink(3), of 0 fs] 1(8) True names by auto
    then show ?thesis using True zero 1(1,2,4) room_ok same_log_trans [OF 1(7) 2(6)]
      by (intro exI [of _ "[c]"] exI [of _ "[buffered l1]"] exI [of _ l2]) simp
  next
    case False
    then show ?thesis using zero 1
      by (intro exI [of _ cs] exI [of _ ts] exI [of _ l1]) auto
  qed
qed

lemma checkRotate_sink:
  assumes data: "m_data l = Some r" "ring_ok r" "behavior r = kRingQueueVariable"
    and sink: "ok l" "\<forall>p. can_open e p" "clean_disk tmp_ok name (m_file_path l) fs"
    and run: "timed_out e l \<or> RingFreeCount r \<le> 67108864"
  shows "\<exists>cs ts l' r'. checkRotate Z e l fs = Some (1, l', publish (name (m_file_path l) (gen_time e)) 0 cs fs) \<and>
    map reads cs = map Some ts \<and> (\<forall>t \<in> set ts. fits (m_rotate_size l) t) \<and>
    buffered l @ csv_text (take (unat kVectorThreshold) (ring_contents r)) = concat ts @ buffered l' \<and>
    length cs \<le> unat kVectorThreshold \<and> (timed_out e l \<longrightarrow> cs \<noteq> []) \<and> ok l' \<and>
    m_data l' = Some r' \<and> ring_ok r' \<and> behavior r' = behavior r \<and> capacity r' = capacity r \<and>
    ring_contents r' = drop (unat kVectorThreshold) (ring_contents r) \<and> same_log (rotate_start e l r') l'"
proof -
  let ?N = "unat kVectorThreshold"
  let ?ps = "take ?N (ring_contents r)"
  obtain r' where r': "ring_ok r'" "ring_contents r' = drop ?N (ring_contents r)" "behavior r' = behavior r"
    "capacity r' = capacity r" and call: "checkRotate Z e l fs = do {
      (l', fs) \<leftarrow> rotate_loop Z e ?ps (rotate_start e l r') fs;
      if timed_out e l \<and> m_serial_cnt l' = 0
      then do { (ret, l', fs) \<leftarrow> outputFile Z e l' fs; Some (1, l', fs) }
      else Some (1, l', fs) }"
    using checkRotate_drained [OF data run] by blast
  have N: "max 1 (length ?ps) \<le> ?N" "length ?ps < 4294967296" by (simp_all add: kVectorThreshold_def)
  obtain cs ts l' where 1: "checkRotate Z e l fs = Some (1, l', publish (name (m_file_path l) (gen_time e)) 0 cs fs)"
    "map reads cs = map Some ts" "\<forall>t \<in> set ts. fits (m_rotate_size l) t"
    "buffered l @ csv_text ?ps = concat ts @ buffered l'" "length cs \<le> max 1 (length ?ps)"
    "timed_out e l \<longrightarrow> cs \<noteq> []" "ok l'" "same_log (rotate_start e l r') l'"
    using rotation_sink [of "rotate_start e l r'" e fs ?ps "timed_out e l"] sink N(2) unfolding call by auto
  have "m_data l' = Some r'" using 1(8) by (simp add: same_log_def)
  then show ?thesis using 1 r' N(1)
    by (intro exI [of _ cs] exI [of _ ts] exI [of _ l'] exI [of _ r']) simp
qed

section \<open>Runs\<close>

text \<open>One rotation at its time, with what later steps of a run need.\<close>

lemma run_rotate:
  assumes data: "m_data l = Some r" "ring_ok r" "behavior r = kRingQueueVariable"
    and sink: "ok l" "\<forall>p. can_open e p" "clean_disk tmp_ok name (m_file_path l) fs" and time: "timed_out e l"
  shows "\<exists>cs ts l' r' fs'. checkRotate Z e l fs = Some (1, l', fs') \<and>
    fs' = publish (name (m_file_path l) (gen_time e)) 0 cs fs \<and> map reads cs = map Some ts \<and>
    length cs \<le> unat kVectorThreshold \<and> m_data l' = Some r' \<and> ring_ok r' \<and> behavior r' = kRingQueueVariable \<and>
    capacity r' = capacity r \<and> ring_contents r' = drop (unat kVectorThreshold) (ring_contents r) \<and> ok l' \<and>
    buffered l @ csv_text (take (unat kVectorThreshold) (ring_contents r)) = concat ts @ buffered l' \<and>
    m_file_path l' = m_file_path l \<and> m_start_time l' = m_start_time l \<and> m_rotate_cycle l' = m_rotate_cycle l \<and>
    m_roate_cnt l' = m_roate_cnt l + 1 \<and> clean_disk tmp_ok name (m_file_path l') fs'"
proof -
  obtain cs ts l' r' where c: "checkRotate Z e l fs = Some (1, l', publish (name (m_file_path l) (gen_time e)) 0 cs fs)"
    "map reads cs = map Some ts" "length cs \<le> unat kVectorThreshold" "m_data l' = Some r'" "ring_ok r'"
    "behavior r' = behavior r" "capacity r' = capacity r"
    "ring_contents r' = drop (unat kVectorThreshold) (ring_contents r)" "ok l'"
    "buffered l @ csv_text (take (unat kVectorThreshold) (ring_contents r)) = concat ts @ buffered l'"
    "same_log (rotate_start e l r') l'"
    using checkRotate_sink [OF data sink disjI1 [OF time]] by blast
  moreover have "m_file_path l' = m_file_path l" "m_start_time l' = m_start_time l"
    "m_rotate_cycle l' = m_rotate_cycle l" "m_roate_cnt l' = m_roate_cnt l + 1"
    using c(11) time by (simp_all add: same_log_def)
  moreover have "clean_disk tmp_ok name (m_file_path l) (publish (name (m_file_path l) (gen_time e)) 0 cs fs)"
    using publish_clean [OF sink(3)] .
  ultimately show ?thesis using data(3) by (metis (no_types, lifting))
qed

lemma log_run_sink:
  assumes "m_data l = Some r" "ring_ok r" "behavior r = kRingQueueVariable" "ok l"
    "clean_disk tmp_ok name (m_file_path l) fs"
    "\<forall>e \<in> set (rotations evs). \<forall>p. can_open e p"
    "on_time (m_start_time l) (m_rotate_cycle l) (m_roate_cnt l) evs"
  shows "\<exists>bs tss l' r'. log_run Z evs l fs = Some (l', publish_all (name (m_file_path l)) bs fs) \<and>
    map fst bs = map gen_time (rotations evs) \<and> (\<forall>b \<in> set bs. length (snd b) \<le> unat kVectorThreshold) \<and>
    map (\<lambda>b. map reads (snd b)) bs = map (map Some) tss \<and> ok l' \<and> m_data l' = Some r' \<and> ring_ok r' \<and>
    buffered l @ csv_text (ring_contents r) @ csv_text (accepted (unat (capacity r)) evs (length (ring_contents r))) =
      concat (concat tss) @ buffered l' @ csv_text (ring_contents r')"
  using assms
proof (induction evs arbitrary: l r fs)
  case Nil
  then show ?case by (intro exI [of _ "[]"]) simp
next
  case (Cons ev evs)
  show ?case
  proof (cases ev)
    case (Push p)
    obtain r1 where r1: "push_back p l = Some (0, l\<lparr>m_data := Some r1\<rparr>)" "ring_ok r1"
      "behavior r1 = kRingQueueVariable" "capacity r1 = capacity r"
      "ring_contents r1 = ring_contents r @ (if length (ring_contents r) < unat (capacity r) then [p] else [])"
      using push_back_ok [OF Cons.prems(1-3)] by blast
    show ?thesis
      using Cons.IH [of "l\<lparr>m_data := Some r1\<rparr>" r1 fs] Cons.prems(4-7) r1 Push
      by (cases "length (ring_contents r) < unat (capacity r)") (simp_all add: csv_text_def)
  next
    case (Rotate e)
    let ?N = "unat kVectorThreshold"
    have t: "timed_out e l" "\<forall>p. can_open e p" using Cons.prems(6,7) Rotate by (simp_all add: timed_out_def)
    obtain cs ts l1 r1 fs1 where c: "checkRotate Z e l fs = Some (1, l1, fs1)"
      "fs1 = publish (name (m_file_path l) (gen_time e)) 0 cs fs" "map reads cs = map Some ts" "length cs \<le> ?N"
      "m_data l1 = Some r1" "ring_ok r1" "behavior r1 = kRingQueueVariable" "capacity r1 = capacity r"
      "ring_contents r1 = drop ?N (ring_contents r)" "ok l1"
      "buffered l @ csv_text (take ?N (ring_contents r)) = concat ts @ buffered l1"
      "m_file_path l1 = m_file_path l" "m_start_time l1 = m_start_time l" "m_rotate_cycle l1 = m_rotate_cycle l"
      "m_roate_cnt l1 = m_roate_cnt l + 1" "clean_disk tmp_ok name (m_file_path l1) fs1"
      using run_rotate [OF Cons.prems(1-4) t(2) Cons.prems(5) t(1)] by blast
    have pre: "\<forall>e \<in> set (rotations evs). \<forall>p. can_open e p"
      "on_time (m_start_time l1) (m_rotate_cycle l1) (m_roate_cnt l1) evs"
      using Cons.prems(6,7) c(13-15) Rotate by simp_all
    obtain bs tss l2 r2 where d: "log_run Z evs l1 fs1 = Some (l2, publish_all (name (m_file_path l)) bs fs1)"
      "map fst bs = map gen_time (rotations evs)" "\<forall>b \<in> set bs. length (snd b) \<le> ?N"
      "map (\<lambda>b. map reads (snd b)) bs = map (map Some) tss" "ok l2" "m_data l2 = Some r2" "ring_ok r2"
      "buffered l1 @ csv_text (ring_contents r1) @ csv_text (accepted (unat (capacity r)) evs (length (ring_contents r1))) =
        concat (concat tss) @ buffered l2 @ csv_text (ring_contents r2)"
      using Cons.IH [OF c(5-7,10,16) pre] unfolding c(8,12) by blast
    have "buffered l @ csv_text (ring_contents r) @ csv_text (accepted (unat (capacity r)) (ev # evs) (length (ring_contents r))) =
        (buffered l @ csv_text (take ?N (ring_contents r))) @ csv_text (drop ?N (ring_contents r)) @
        csv_text (accepted (unat (capacity r)) evs (length (ring_contents r1)))"
      using csv_text_split [of "ring_contents r" ?N] Rotate by (simp add: c(9))
    also have "\<dots> = concat ts @ concat (concat tss) @ buffered l2 @ csv_text (ring_contents r2)"
      using d(8) by (simp add: c(11) flip: c(9))
    finally show ?thesis
      using c(1-4) d Rotate by (intro exI [of _ "(gen_time e, cs) # bs"] exI [of _ "ts # tss"] exI [of _ l2] exI [of _ r2]) simp
  qed
qed

end

section \<open>The files of a run\<close>

locale file_sink = log_sink Z ok room buffered reads fits name tmp_ok
  for Z :: "'z zlib"
    and ok :: "'z BasicBusinessLogger \<Rightarrow> bool"
    and room :: "'z BasicBusinessLogger \<Rightarrow> bool"
    and buffered :: "'z BasicBusinessLogger \<Rightarrow> string"
    and reads :: "string \<Rightarrow> string option"
    and fits :: "u32 \<Rightarrow> string \<Rightarrow> bool"
    and name :: "string \<Rightarrow> string \<Rightarrow> nat \<Rightarrow> string"
    and tmp_ok :: "string option \<Rightarrow> bool" +
  assumes names_law: "numbered_files (name path) (names_ok path) 2147483648"
begin

lemma published_texts:
  assumes bs: "distinct (map fst bs)" "\<forall>b \<in> set bs. names_ok path (fst b)"
      "\<forall>b \<in> set bs. length (snd b) \<le> 2147483648"
    and tss: "map (\<lambda>b. map reads (snd b)) bs = map (map Some) tss"
    and x: "(time, ts) \<in> set (zip (map fst bs) tss)" "i < length ts"
  shows "\<exists>c. publish_all (name path) bs fs (name path time i) = Some c \<and> reads c = Some (ts ! i)"
proof -
  have len: "length tss = length bs" using tss map_eq_imp_length_eq by fastforce
  then obtain j where j: "j < length bs" "time = fst (bs ! j)" "ts = tss ! j"
    using x(1) by (auto simp: in_set_zip)
  have m: "map reads (snd (bs ! j)) = map Some ts"
    using arg_cong [OF tss, of "\<lambda>xs. xs ! j"] j len by simp
  then have n: "length (snd (bs ! j)) = length ts" using map_eq_imp_length_eq by blast
  have "reads (snd (bs ! j) ! i) = Some (ts ! i)"
    using arg_cong [OF m, of "\<lambda>xs. xs ! i"] x(2) n by simp
  moreover have "\<forall>b \<in> set bs. names_ok path (fst b) \<and> length (snd b) \<le> 2147483648"
    using bs(2,3) by auto
  then have "publish_all (name path) bs fs (name path time i) = Some (snd (bs ! j) ! i)"
    using numbered_files.publish_all_lookup [OF names_law bs(1)] j x(2) n by simp
  ultimately show ?thesis by blast
qed

lemma run_files:
  assumes l: "m_data l = Some r" "ring_ok r" "behavior r = kRingQueueVariable" "ok l"
      "clean_disk tmp_ok name (m_file_path l) fs"
    and world: "\<forall>e \<in> set (rotations evs). names_ok (m_file_path l) (gen_time e) \<and> (\<forall>p. can_open e p)"
    and times: "distinct (map gen_time (rotations evs))" "on_time (m_start_time l) (m_rotate_cycle l) (m_roate_cnt l) evs"
  shows "\<exists>files l' fs' r'. log_run Z evs l fs = Some (l', fs') \<and> ok l' \<and> m_data l' = Some r' \<and>
    map fst files = map gen_time (rotations evs) \<and>
    (\<forall>(time, ts) \<in> set files. \<forall>i < length ts. \<exists>c. fs' (name (m_file_path l) time i) = Some c \<and> reads c = Some (ts ! i)) \<and>
    buffered l @ csv_text (ring_contents r) @ csv_text (accepted (unat (capacity r)) evs (length (ring_contents r))) =
      concat (concat (map snd files)) @ buffered l' @ csv_text (ring_contents r')"
proof -
  have op: "\<forall>e \<in> set (rotations evs). \<forall>p. can_open e p" using world by blast
  obtain bs tss l' r' where run: "log_run Z evs l fs = Some (l', publish_all (name (m_file_path l)) bs fs)"
    "map fst bs = map gen_time (rotations evs)" "\<forall>b \<in> set bs. length (snd b) \<le> unat kVectorThreshold"
    "map (\<lambda>b. map reads (snd b)) bs = map (map Some) tss" "ok l'" "m_data l' = Some r'"
    "buffered l @ csv_text (ring_contents r) @ csv_text (accepted (unat (capacity r)) evs (length (ring_contents r))) =
      concat (concat tss) @ buffered l' @ csv_text (ring_contents r')"
    using log_run_sink [OF l op times(2)] by blast
  have "\<forall>b \<in> set bs. names_ok (m_file_path l) (fst b)"
  proof
    fix b assume "b \<in> set bs"
    then have "fst b \<in> set (map fst bs)" by simp
    then show "names_ok (m_file_path l) (fst b)" using world by (auto simp: run(2))
  qed
  moreover have small: "\<forall>b \<in> set bs. length (snd b) \<le> 2147483648"
    using run(3) by (auto simp: kVectorThreshold_def)
  ultimately have "\<forall>(time, ts) \<in> set (zip (map fst bs) tss). \<forall>i < length ts.
      \<exists>c. publish_all (name (m_file_path l)) bs fs (name (m_file_path l) time i) = Some c \<and> reads c = Some (ts ! i)"
    using published_texts [OF _ _ small run(4)] run(2) times(1) by auto
  moreover have "length tss = length bs" using run(4) map_eq_imp_length_eq by fastforce
  then have "map fst (zip (map fst bs) tss) = map fst bs" "map snd (zip (map fst bs) tss) = tss" by simp_all
  ultimately show ?thesis using run
    by (intro exI [of _ "zip (map fst bs) tss"] exI [of _ l'] exI [of _ "publish_all (name (m_file_path l)) bs fs"] exI [of _ r']) simp
qed

end

section \<open>A sample world\<close>

definition sample_env :: "u32 \<Rightarrow> env" where
  "sample_env t = \<lparr>uptime = t, uptime2 = t, gen_time = ''20170612163257'', can_open = (\<lambda>p. True),
     blank = blank_packet\<rparr>"

end
