(* ===== verification/Logger_Plain.thy ===== *)
theory Logger_Plain
  imports Log_Sink
begin

text \<open>
  The logger in plain mode: its text buffer is a sink in the sense of theory \<open>Log_Sink\<close>, so nothing is
  lost; and two defects of \<open>checkRotate\<close>, calls before their time and rotations within one second.
\<close>

section \<open>The text buffer as a sink\<close>

text \<open>A line has at most 83 characters; \<open>k\<close> bounds what the buffer holds beyond the limit at the start.\<close>

definition plain_ok :: "nat \<Rightarrow> 'z BasicBusinessLogger \<Rightarrow> bool" where
  "plain_ok k l \<longleftrightarrow> m_compress_type l \<noteq> kCompressGzip \<and> length (m_buf l) \<le> unat (m_rotate_size l) + max 83 k"

definition plain_room :: "'z BasicBusinessLogger \<Rightarrow> bool" where
  "plain_room l \<longleftrightarrow> m_compress_type l \<noteq> kCompressGzip \<and> length (m_buf l) \<le> unat (m_rotate_size l)"

definition plain_fits :: "nat \<Rightarrow> u32 \<Rightarrow> string \<Rightarrow> bool" where
  "plain_fits k rotate_size t \<longleftrightarrow> length t \<le> unat rotate_size + max 83 k"

lemma outputFile_csv:
  assumes "m_compress_type l \<noteq> kCompressGzip" "m_serial_cnt l = of_nat n" "\<forall>p. can_open e p"
  shows "outputFile Z e l fs =
    Some (0, l\<lparr>m_buf := []\<rparr>, publish (log_name (m_file_path l) (m_fileGenTime l)) n [m_buf l] fs)"
  using assms by (simp add: outputFile_def log_name_def rename_file_def Let_def)

interpretation plain_log: file_sink Z "plain_ok k" plain_room m_buf Some "plain_fits k" log_name "\<lambda>_. True" for Z k
proof unfold_locales
  fix l l' :: "'a BasicBusinessLogger" and p e n fs
  show "sink_part l = sink_part l' \<Longrightarrow> plain_ok k l = plain_ok k l' \<and> plain_room l = plain_room l' \<and> m_buf l = m_buf l'"
    by (simp add: sink_part_def plain_ok_def plain_room_def)
  show "plain_room l \<Longrightarrow> plain_ok k l" by (simp add: plain_ok_def plain_room_def)
  show "plain_ok k l \<Longrightarrow> \<exists>b. wants_output l = Some b \<and> (\<not> b \<longrightarrow> plain_room l)"
    by (simp add: wants_output_def plain_ok_def plain_room_def)
  show "\<exists>l'. makeCsvLog Z p l = Some l' \<and> plain_ok k l' \<and> m_buf l' = m_buf l @ csv_line p \<and>
      same_log l l' \<and> m_serial_cnt l' = m_serial_cnt l" if "plain_room l"
    using that csv_line_length [of p] max.cobounded1 [of 83 k]
    by (intro exI [of _ "l\<lparr>m_buf := m_buf l @ csv_line p\<rparr>"])
      (auto simp: makeCsvLog_def plain_room_def plain_ok_def same_log_def)
  show "\<exists>c l'. outputFile Z e l fs = Some (0, l', publish (log_name (m_file_path l) (m_fileGenTime l)) n [c] fs) \<and>
      Some c = Some (m_buf l) \<and> plain_fits k (m_rotate_size l) (m_buf l) \<and> plain_room l' \<and> m_buf l' = [] \<and>
      same_log l l' \<and> m_serial_cnt l' = m_serial_cnt l"
    if "plain_ok k l" "\<forall>p. can_open e p" "m_serial_cnt l = of_nat n"
    using that outputFile_csv [of l n e Z fs]
    by (intro exI [of _ "m_buf l"] exI [of _ "l\<lparr>m_buf := []\<rparr>"])
      (simp add: plain_ok_def plain_room_def plain_fits_def same_log_def)
qed (simp_all add: log_name_def log_path_inj log_path_not_tmp)

lemma clean_plain [simp]: "clean_disk (\<lambda>_. True) name path fs"
  by (simp add: clean_disk_def)

lemma map_Some_eq: "map Some cs = map Some ts \<longleftrightarrow> cs = ts"
  by (simp add: inj_map_eq_map)

lemma checkRotate_csv:
  assumes data: "m_data l = Some r" "ring_ok r" "behavior r = kRingQueueVariable"
    and plain: "m_compress_type l \<noteq> kCompressGzip" "\<forall>p. can_open e p"
    and run: "timed_out e l \<or> RingFreeCount r \<le> 67108864"
  shows "\<exists>cs l' r'. checkRotate Z e l fs = Some (1, l', publish (log_name (m_file_path l) (gen_time e)) 0 cs fs) \<and>
    m_data l' = Some r' \<and> ring_ok r' \<and> behavior r' = behavior r \<and> capacity r' = capacity r \<and>
    ring_contents r' = drop (unat kVectorThreshold) (ring_contents r) \<and>
    m_buf l @ csv_text (take (unat kVectorThreshold) (ring_contents r)) = concat cs @ m_buf l' \<and>
    length cs \<le> unat kVectorThreshold \<and> (timed_out e l \<longrightarrow> cs \<noteq> []) \<and>
    (\<forall>c \<in> set cs. length c \<le> max (length (m_buf l)) (unat (m_rotate_size l) + 83)) \<and>
    m_file_path l' = m_file_path l \<and> m_compress_type l' = m_compress_type l \<and> m_rotate_size l' = m_rotate_size l \<and>
    m_start_time l' = m_start_time l \<and> m_rotate_cycle l' = m_rotate_cycle l \<and>
    m_roate_cnt l' = m_roate_cnt l + (if timed_out e l then 1 else 0)"
proof -
  let ?k = "length (m_buf l) - unat (m_rotate_size l)"
  have "plain_ok ?k l" using plain(1) by (auto simp: plain_ok_def)
  from plain_log.checkRotate_sink [OF data this plain(2) clean_plain run, of Z]
  obtain cs ts l' r' where c: "checkRotate Z e l fs = Some (1, l', publish (log_name (m_file_path l) (gen_time e)) 0 cs fs)"
    "map Some cs = map Some ts" "\<forall>t \<in> set ts. plain_fits ?k (m_rotate_size l) t"
    "m_buf l @ csv_text (take (unat kVectorThreshold) (ring_contents r)) = concat ts @ m_buf l'"
    "length cs \<le> unat kVectorThreshold" "timed_out e l \<longrightarrow> cs \<noteq> []" "plain_ok ?k l'" "m_data l' = Some r'"
    "ring_ok r'" "behavior r' = behavior r" "capacity r' = capacity r"
    "ring_contents r' = drop (unat kVectorThreshold) (ring_contents r)" "same_log (rotate_start e l r') l'" by blast
  moreover have "unat (m_rotate_size l) + max 83 ?k = max (length (m_buf l)) (unat (m_rotate_size l) + 83)" by simp
  ultimately show ?thesis
    by (intro exI [of _ cs] exI [of _ l'] exI [of _ r'])
      (auto simp: map_Some_eq same_log_def plain_ok_def plain_fits_def)
qed

section \<open>Properties\<close>

text \<open>
  C16. A rotation in plain mode whose time has come or that finds the ring half full, all of whose paths can be
  opened, loses nothing and invents nothing: the lines buffered before and
  the lines of the packets taken out of the ring are the contents of the files written, in the order
  of their numbers, followed by what stays buffered; no other path changes, and the packets not taken stay in
  the ring in their order. A rotation whose time has come writes at least one file. No file is longer than
  the limit and one line (at most 83 characters), or than the buffer was before.
\<close>

theorem checkRotate_conserves:
  assumes data: "m_data l = Some r" "ring_ok r" "behavior r = kRingQueueVariable"
    and plain: "m_compress_type l \<noteq> kCompressGzip" "\<forall>p. can_open e p" "names_ok (m_file_path l) (gen_time e)"
    and run: "timed_out e l \<or> RingFreeCount r \<le> 67108864"
  shows "\<exists>cs l' fs' r'. checkRotate Z e l fs = Some (1, l', fs') \<and> m_data l' = Some r' \<and> ring_ok r' \<and>
    ring_contents r' = drop (unat kVectorThreshold) (ring_contents r) \<and>
    m_buf l @ csv_text (take (unat kVectorThreshold) (ring_contents r)) = concat cs @ m_buf l' \<and>
    (timed_out e l \<longrightarrow> cs \<noteq> []) \<and>
    (\<forall>i < length cs. fs' (log_path (m_file_path l) (gen_time e) (of_nat i)) = Some (cs ! i)) \<and>
    (\<forall>p. (\<forall>i. p \<noteq> log_path (m_file_path l) (gen_time e) i \<and>
        p \<noteq> log_path (m_file_path l) (gen_time e) i @ ''.tmptmp'') \<longrightarrow> fs' p = fs p) \<and>
    (\<forall>c \<in> set cs. length c \<le> max (length (m_buf l)) (unat (m_rotate_size l) + 83))"
proof -
  let ?name = "log_name (m_file_path l) (gen_time e)"
  obtain cs l' r' where c: "checkRotate Z e l fs = Some (1, l', publish ?name 0 cs fs)"
    "m_data l' = Some r'" "ring_ok r'" "ring_contents r' = drop (unat kVectorThreshold) (ring_contents r)"
    "m_buf l @ csv_text (take (unat kVectorThreshold) (ring_contents r)) = concat cs @ m_buf l'"
    "length cs \<le> unat kVectorThreshold" "timed_out e l \<longrightarrow> cs \<noteq> []"
    "\<forall>c \<in> set cs. length c \<le> max (length (m_buf l)) (unat (m_rotate_size l) + 83)"
    using checkRotate_csv [OF data plain(1,2) run] by blast
  let ?fs = "publish ?name 0 cs fs"
  have "length cs \<le> 2147483648" using c(6) by (simp add: kVectorThreshold_def)
  then have files: "?fs (log_path (m_file_path l) (gen_time e) (of_nat i)) = Some (cs ! i)" if "i < length cs" for i
    using log_files.publish_lookup [OF plain(3), of 0 cs i] that by (simp add: log_name_def)
  have rest: "?fs p = fs p" if "\<forall>i. p \<noteq> log_path (m_file_path l) (gen_time e) i \<and>
        p \<noteq> log_path (m_file_path l) (gen_time e) i @ ''.tmptmp''" for p
    using that by (intro log_files.publish_other) (simp add: log_name_def)
  show ?thesis
    using c files rest by (intro exI [of _ cs] exI [of _ l'] exI [of _ ?fs] exI [of _ r']) simp
qed

text \<open>
  C23. A call of \<open>checkRotate\<close> that comes too early is undefined: when the time is not over and more
  than half of the ring is free, it loops over an uninitialised array up to an uninitialised bound; in plain
  mode with paths that can be opened, only then.
\<close>

theorem checkRotate_undefined:
  assumes data: "m_data l = Some r" "ring_ok r" "behavior r = kRingQueueVariable"
    and plain: "m_compress_type l \<noteq> kCompressGzip" "\<forall>p. can_open e p"
  shows "checkRotate Z e l fs = None \<longleftrightarrow>
    uptime e - m_start_time l \<le> m_roate_cnt l * m_rotate_cycle l \<and> RingFreeCount r > 67108864"
proof (cases "timed_out e l \<or> RingFreeCount r \<le> 67108864")
  case True
  then have "checkRotate Z e l fs \<noteq> None" using checkRotate_csv [OF data plain True, of Z fs] by auto
  then show ?thesis using True by (auto simp: timed_out_def)
next
  case False
  then have "checkRotate Z e l fs = None"
    unfolding checkRotate_def timed_out_def [symmetric] using data(1) by simp
  then show ?thesis using False by (auto simp: timed_out_def not_less not_le)
qed

text \<open>C31. Two rotations within the same second use the same file names: the first file of the later one
  replaces the first file of the earlier one.\<close>

theorem rotations_overwrite:
  assumes data: "m_data l = Some r" "ring_ok r" "behavior r = kRingQueueVariable"
    and plain: "m_compress_type l \<noteq> kCompressGzip" "\<forall>p. can_open e p \<and> can_open e' p"
      "names_ok (m_file_path l) (gen_time e)"
    and first: "timed_out e l" "checkRotate Z e l fs = Some (ret, l1, fs1)"
    and second: "timed_out e' l1" "gen_time e' = gen_time e"
  shows "\<exists>c1 c2 t1 t2 l2 fs2. checkRotate Z e' l1 fs1 = Some (1, l2, fs2) \<and>
    fs1 (log_path (m_file_path l) (gen_time e) 0) = Some c1 \<and>
    m_buf l @ csv_text (take (unat kVectorThreshold) (ring_contents r)) = c1 @ t1 \<and>
    fs2 (log_path (m_file_path l) (gen_time e) 0) = Some c2 \<and>
    m_buf l1 @ csv_text (take (unat kVectorThreshold) (drop (unat kVectorThreshold) (ring_contents r))) = c2 @ t2"
proof -
  let ?name = "log_name (m_file_path l) (gen_time e)" and ?N = "unat kVectorThreshold"
  have open1: "\<forall>p. can_open e p" and open2: "\<forall>p. can_open e' p" using plain(2) by auto
  have head: "publish ?name 0 cs gs (log_path (m_file_path l) (gen_time e) 0) = Some (hd cs)"
    if "cs \<noteq> []" "length cs \<le> ?N" for cs gs
    using log_files.publish_lookup [OF plain(3), of 0 cs 0 gs] that
    by (simp add: log_name_def kVectorThreshold_def hd_conv_nth)
  have run1: "timed_out e l \<or> RingFreeCount r \<le> 67108864" using first(1) by simp
  obtain cs r1 where c1: "fs1 = publish ?name 0 cs fs" "m_data l1 = Some r1" "ring_ok r1"
    "behavior r1 = behavior r" "ring_contents r1 = drop ?N (ring_contents r)"
    "m_buf l @ csv_text (take ?N (ring_contents r)) = concat cs @ m_buf l1" "length cs \<le> ?N" "cs \<noteq> []"
    "m_file_path l1 = m_file_path l"
    "m_compress_type l1 = m_compress_type l" "m_rotate_size l1 = m_rotate_size l"
    using checkRotate_csv [OF data plain(1) open1 run1, of Z fs] first by auto
  have run2: "timed_out e' l1 \<or> RingFreeCount r1 \<le> 67108864" using second(1) by simp
  have pre2: "behavior r1 = kRingQueueVariable" "m_compress_type l1 \<noteq> kCompressGzip"
    using c1 data(3) plain(1) by simp_all
  obtain ds l2 r2 where c2: "checkRotate Z e' l1 fs1 = Some (1, l2, publish ?name 0 ds fs1)"
    "m_buf l1 @ csv_text (take ?N (ring_contents r1)) = concat ds @ m_buf l2" "length ds \<le> ?N" "ds \<noteq> []"
    using checkRotate_csv [OF c1(2,3) pre2(1,2) open2 run2, of Z fs1] second c1(9) by auto
  have split: "concat xs @ b = hd xs @ (concat (tl xs) @ b)" if "xs \<noteq> []" for xs :: "string list" and b
    using that by (cases xs) simp_all
  show ?thesis
    using c2 c1(1,6) head [OF c1(8,7), of fs] head [OF c2(4,3), of fs1] split [OF c1(8)] split [OF c2(4)] c1(5)
    by metis
qed

section \<open>The logger as the application sets it up\<close>

lemma logger_init_plain:
  assumes "compress_type \<noteq> kCompressGzip"
  shows "\<exists>r l'. logger_init junk Z e path rotate_size rotate_cycle compress_type l = Some (0, l') \<and>
    m_data l' = Some r \<and> ring_ok r \<and> ring_contents r = [] \<and> behavior r = kRingQueueVariable \<and>
    capacity r = 134217727 \<and> m_buf l' = m_buf l \<and> m_compress_type l' = compress_type \<and>
    m_file_path l' = path \<and> m_rotate_size l' = rotate_size \<and> m_rotate_cycle l' = rotate_cycle \<and>
    m_start_time l' = uptime2 e \<and> m_roate_cnt l' = m_roate_cnt l"
proof -
  obtain r where r: "new_BuffRing (blank e) (2 * kVectorThreshold) kRingQueueVariable False True = Some r" "ring_ok r"
    "ring_contents r = []" "behavior r = kRingQueueVariable" "capacity r = 134217727"
    using logger_ring [of "blank e"] by blast
  define l' where "l' = l\<lparr>m_file_path := path, m_rotate_size := rotate_size,
      m_rotate_cycle := rotate_cycle, m_compress_type := compress_type, m_uptimeBak := ucast (uptime e + 10),
      m_start_time := uptime2 e, m_data := Some r\<rparr>"
  moreover have "logger_init junk Z e path rotate_size rotate_cycle compress_type l = Some (0, l')"
    using assms r(1) by (simp add: logger_init_def Let_def l'_def)
  ultimately show ?thesis using r(2-5) by (intro exI [of _ r] exI [of _ l']) (simp add: l'_def)
qed

lemma logger_run_files:
  assumes init: "logger_init junk Z e0 path rotate_size rotate_cycle compress_type new_BasicBusinessLogger = Some (ret, l0)"
      "compress_type \<noteq> kCompressGzip"
    and world: "\<forall>e \<in> set (rotations evs). names_ok path (gen_time e) \<and> (\<forall>p. can_open e p)"
    and times: "distinct (map gen_time (rotations evs))" "on_time (uptime2 e0) rotate_cycle 0 evs"
  shows "\<exists>files l fs' r. log_run Z evs l0 fs = Some (l, fs') \<and> m_data l = Some r \<and>
    map fst files = map gen_time (rotations evs) \<and>
    (\<forall>(time, cs) \<in> set files. \<forall>i < length cs. fs' (log_path path time (of_nat i)) = Some (cs ! i)) \<and>
    csv_text (accepted 134217727 evs 0) = concat (concat (map snd files)) @ m_buf l @ csv_text (ring_contents r)"
proof -
  obtain r0 where l0: "m_data l0 = Some r0" "ring_ok r0" "ring_contents r0 = []" "behavior r0 = kRingQueueVariable"
    "capacity r0 = 134217727" "m_buf l0 = []" "m_compress_type l0 \<noteq> kCompressGzip" "m_file_path l0 = path"
    "m_rotate_cycle l0 = rotate_cycle" "m_start_time l0 = uptime2 e0" "m_roate_cnt l0 = 0"
    using logger_init_plain [OF init(2), of junk Z e0 path rotate_size rotate_cycle new_BasicBusinessLogger] init
    by (auto simp: new_BasicBusinessLogger_def)
  have ok: "plain_ok 0 l0" using l0 by (simp add: plain_ok_def)
  have pre: "\<forall>e \<in> set (rotations evs). names_ok (m_file_path l0) (gen_time e) \<and> (\<forall>p. can_open e p)"
    "on_time (m_start_time l0) (m_rotate_cycle l0) (m_roate_cnt l0) evs"
    using world times(2) l0 by simp_all
  show ?thesis
    using plain_log.run_files [OF l0(1,2,4) ok clean_plain pre(1) times(1) pre(2), of Z fs]
    by (simp add: log_name_def l0) blast
qed

text \<open>
  C14. Take any order in which the threads' pushes and rotations take effect on a freshly initialised
  plain logger, the rotations each in their own second and not before their time, and suppose that every path
  can be opened. The run is free of
  undefined behaviour, and at its end the files on the disk, in the order of their times and
  numbers, then the buffer, then the ring hold exactly the lines of the packets that found room,
  each once and in the order of the pushes.
\<close>

theorem logger_run_lossless:
  assumes init: "logger_init junk Z e0 path rotate_size rotate_cycle compress_type new_BasicBusinessLogger = Some (ret, l0)"
      "compress_type \<noteq> kCompressGzip"
    and world: "\<forall>e \<in> set (rotations evs). names_ok path (gen_time e) \<and> (\<forall>p. can_open e p)"
    and times: "distinct (map gen_time (rotations evs))" "on_time (uptime2 e0) rotate_cycle 0 evs"
  shows "\<exists>files l fs' r. log_run Z evs l0 fs = Some (l, fs') \<and> m_data l = Some r \<and>
    map fst files = map gen_time (rotations evs) \<and>
    (\<forall>(time, cs) \<in> set files. \<forall>i < length cs. fs' (log_path path time (of_nat i)) = Some (cs ! i)) \<and>
    csv_text (accepted 134217727 evs 0) = concat (concat (map snd files)) @ m_buf l @ csv_text (ring_contents r)"
  using assms by (rule logger_run_files)

text \<open>A logger whose ring of four slots holds one packet, one second after its first deadline.\<close>

definition sample_ring :: "PcapPacket BuffRing" where
  "sample_ring = \<lparr>rsize = 4, rmask = 3, capacity = 3, behavior = kRingQueueVariable,
     single_producer = False, single_consumer = True, prod_ht = \<lparr>head = 0, tail = 0\<rparr>,
     cons_ht = \<lparr>head = 4294967295, tail = 4294967295\<rparr>, rdata = replicate 4 blank_packet\<rparr>"

definition sample_logger :: "(string \<times> string) BasicBusinessLogger" where
  "sample_logger = new_BasicBusinessLogger\<lparr>m_data := Some sample_ring, m_rotate_size := 104857600,
     m_rotate_cycle := 1, m_file_path := ''./log'', m_start_time := 100\<rparr>"

lemma sample_ring_ok: "ring_ok sample_ring" "behavior sample_ring = kRingQueueVariable"
  "ring_contents sample_ring = [blank_packet]"
  by (simp_all add: ring_ok_def sample_ring_def IsPowerOf2_def ring_used_def ring_contents_def ring_slice_def)

lemma sample_logger_fields: "m_data sample_logger = Some sample_ring" "m_compress_type sample_logger \<noteq> kCompressGzip"
  "names_ok (m_file_path sample_logger) (gen_time (sample_env t))" "m_buf sample_logger = []"
  "\<forall>p. can_open (sample_env t) p" "timed_out (sample_env 102) sample_logger"
  by (simp_all add: sample_logger_def new_BasicBusinessLogger_def kCompressGzip_def names_ok_def sample_env_def
      timed_out_def)

lemma take_threshold: "length xs \<le> 67108864 \<Longrightarrow> take (unat kVectorThreshold) xs = xs"
  by (simp add: kVectorThreshold_def)

lemma checkRotate_conserves_witness:
  "\<exists>cs l' fs' r'. checkRotate store_zlib (sample_env 102) sample_logger Map.empty = Some (1, l', fs') \<and>
    m_data l' = Some r' \<and> ring_contents r' = [] \<and> csv_line blank_packet = concat cs @ m_buf l' \<and> cs \<noteq> [] \<and>
    (\<forall>i < length cs. fs' (log_path ''./log'' ''20170612163257'' (of_nat i)) = Some (cs ! i))"
proof -
  have n: "m_file_path sample_logger = ''./log''" "gen_time (sample_env 102) = ''20170612163257''"
    by (simp_all add: sample_logger_def new_BasicBusinessLogger_def sample_env_def)
  have t: "take (unat kVectorThreshold) [blank_packet] = [blank_packet]"
    "drop (unat kVectorThreshold) [blank_packet] = []" by (simp_all add: kVectorThreshold_def)
  show ?thesis
    using checkRotate_conserves [OF sample_logger_fields(1) sample_ring_ok(1,2) sample_logger_fields(2,5,3)
      disjI1 [OF sample_logger_fields(6)], where Z = store_zlib and fs = Map.empty]
    unfolding sample_ring_ok(3) t n sample_logger_fields(4) by (auto simp: csv_text_def sample_logger_fields)
qed

lemma checkRotate_undefined_witness:
  "\<exists>l. logger_init (CHR 0x00) store_zlib (sample_env 100) ''./log'' 104857600 1 kCompressNone new_BasicBusinessLogger =
      Some (0, l) \<and> checkRotate store_zlib (sample_env 100) l Map.empty = None"
proof -
  have ct: "kCompressNone \<noteq> kCompressGzip" by (simp add: kCompressNone_def kCompressGzip_def)
  obtain r l where l: "logger_init (CHR 0x00) store_zlib (sample_env 100) ''./log'' 104857600 1 kCompressNone
      new_BasicBusinessLogger = Some (0, l)"
    "m_data l = Some r" "ring_ok r" "ring_contents r = []" "behavior r = kRingQueueVariable"
    "capacity r = 134217727" "m_buf l = []" "m_compress_type l \<noteq> kCompressGzip" "m_start_time l = 100" "m_roate_cnt l = 0"
    using logger_init_plain [OF ct, of "CHR 0x00" store_zlib "sample_env 100" "''./log''" 104857600 1
        new_BasicBusinessLogger] ct
    by (auto simp: sample_env_def new_BasicBusinessLogger_def)
  have "ring_used r = 0" using l(4) by (simp flip: length_ring_contents)
  then have "unat (RingFreeCount r) = 134217727" using RingFreeCount_unat [OF l(3)] l(6) by simp
  then have "RingFreeCount r > 67108864" by (simp add: word_less_nat_alt)
  then show ?thesis
    using checkRotate_undefined [OF l(2,3,5,8) sample_logger_fields(5), where Z = store_zlib and fs = Map.empty] l
    by (auto simp: sample_env_def)
qed

lemma rotations_overwrite_witness:
  "\<exists>c1 c2 t1 t2 l1 fs1 l2 fs2. checkRotate store_zlib (sample_env 102) sample_logger Map.empty = Some (1, l1, fs1) \<and>
    checkRotate store_zlib (sample_env 102) l1 fs1 = Some (1, l2, fs2) \<and>
    fs1 (log_path ''./log'' ''20170612163257'' 0) = Some c1 \<and> csv_line blank_packet = c1 @ t1 \<and>
    fs2 (log_path ''./log'' ''20170612163257'' 0) = Some c2 \<and> m_buf l1 = c2 @ t2"
proof -
  have op: "\<forall>p. can_open (sample_env 102) p \<and> can_open (sample_env 102) p" by (simp add: sample_env_def)
  have n: "m_file_path sample_logger = ''./log''" "gen_time (sample_env 102) = ''20170612163257''"
    "m_start_time sample_logger = 100" "m_rotate_cycle sample_logger = 1" "m_roate_cnt sample_logger = 0"
    by (simp_all add: sample_logger_def new_BasicBusinessLogger_def sample_env_def)
  have t: "take (unat kVectorThreshold) [blank_packet] = [blank_packet]"
    "drop (unat kVectorThreshold) [blank_packet] = []" by (simp_all add: kVectorThreshold_def)
  obtain l1 fs1 where 1: "checkRotate store_zlib (sample_env 102) sample_logger Map.empty = Some (1, l1, fs1)"
    "m_start_time l1 = 100" "m_rotate_cycle l1 = 1" "m_roate_cnt l1 = 1"
    using checkRotate_csv [OF sample_logger_fields(1) sample_ring_ok(1,2) sample_logger_fields(2,5)
      disjI1 [OF sample_logger_fields(6)], where Z = store_zlib and fs = Map.empty] sample_logger_fields(6) n
    by auto
  have "timed_out (sample_env 102) l1" using 1 by (simp add: timed_out_def sample_env_def)
  from rotations_overwrite [OF sample_logger_fields(1) sample_ring_ok(1,2) sample_logger_fields(2) op
      sample_logger_fields(3) sample_logger_fields(6) 1(1) this refl]
  show ?thesis using 1(1) unfolding sample_ring_ok(3) t n sample_logger_fields(4)
    by (auto simp: csv_text_def)
qed

lemma logger_run_lossless_witness:
  "\<exists>l0 files l fs' r. logger_init (CHR 0x00) store_zlib (sample_env 100) ''./log'' 104857600 1 kCompressNone
      new_BasicBusinessLogger = Some (0, l0) \<and>
    log_run store_zlib [Push blank_packet, Push blank_packet, Rotate (sample_env 102)] l0 Map.empty = Some (l, fs') \<and>
    map fst files = [''20170612163257''] \<and>
    csv_line blank_packet @ csv_line blank_packet = concat (concat (map snd files)) @ m_buf l @ csv_text (ring_contents r)"
proof -
  have ct: "kCompressNone \<noteq> kCompressGzip" by (simp add: kCompressNone_def kCompressGzip_def)
  let ?evs = "[Push blank_packet, Push blank_packet, Rotate (sample_env 102)]"
  obtain l0 :: "(string \<times> string) BasicBusinessLogger" where l0: "logger_init (CHR 0x00) store_zlib (sample_env 100) ''./log'' 104857600 1 kCompressNone
      new_BasicBusinessLogger = Some (0, l0)"
    using logger_init_plain [OF ct, of "CHR 0x00" store_zlib "sample_env 100" "''./log''" 104857600 1
        new_BasicBusinessLogger] by blast
  have w: "\<forall>e \<in> set (rotations ?evs). names_ok ''./log'' (gen_time e) \<and> (\<forall>p. can_open e p)"
    "distinct (map gen_time (rotations ?evs))" "on_time (uptime2 (sample_env 100)) 1 0 ?evs"
    by (simp_all add: sample_env_def names_ok_def)
  have e: "map gen_time (rotations ?evs) = [''20170612163257'']"
    "csv_text (accepted 134217727 ?evs 0) = csv_line blank_packet @ csv_line blank_packet"
    by (simp_all add: sample_env_def csv_text_def)
  obtain files l fs' r where "log_run store_zlib ?evs l0 Map.empty = Some (l, fs')"
    "map fst files = map gen_time (rotations ?evs)"
    "csv_text (accepted 134217727 ?evs 0) = concat (concat (map snd files)) @ m_buf l @ csv_text (ring_contents r)"
    using logger_run_lossless [OF l0 ct w, where fs = Map.empty] by (elim exE conjE)
  then show ?thesis using l0 unfolding e
    by (intro exI [of _ l0] exI [of _ files] exI [of _ l] exI [of _ fs'] exI [of _ r] conjI)
qed

end
