(* ===== verification/Logger_Vector.thy ===== *)
theory Logger_Vector
  imports Logger_Plain
begin

text \<open>
  The logger as it is compiled with \<^verbatim>\<open>VECTOR_TEST\<close>: the packets wait in a vector under a mutex instead of
  the ring. Nothing initialises the mutex. Where it works all the same, no packet is lost, but the
  logger counts its rotations wrongly, so that the intervals between them double.
\<close>

section \<open>Operations\<close>

text \<open>
  A mutex of type \<^verbatim>\<open>pthread_mutex_t\<close>. The call of \<^verbatim>\<open>LOCK_INIT\<close> is commented out in the constructor, so \<open>m_mutex\<close> is
  what the memory of the logger holds: \<open>Mutex_uninit\<close>, and locking it is undefined, or, where the zeroed
  memory of a static object happens to be a free mutex (as with glibc), \<open>Mutex_free\<close>.
\<close>

datatype mutex = Mutex_uninit | Mutex_free | Mutex_held

fun LOCK_LOCK :: "mutex \<Rightarrow> mutex option" where
  "LOCK_LOCK Mutex_free = Some Mutex_held"
| "LOCK_LOCK _ = None"

fun LOCK_UNLOCK :: "mutex \<Rightarrow> mutex option" where
  "LOCK_UNLOCK Mutex_held = Some Mutex_free"
| "LOCK_UNLOCK _ = None"

text \<open>
  The fields of the logger with \<open>m_data\<close> as a vector and with \<open>m_mutex\<close> (the field \<open>m_data\<close> of \<open>base\<close> is not
  used). A call is one step: what it does under the mutex no other thread sees, so that it never finds
  the mutex held.
\<close>

record 'z VectorLogger =
  base :: "'z BasicBusinessLogger"
  v_data :: "PcapPacket list"
  m_mutex :: mutex

definition push_back_vector :: "PcapPacket \<Rightarrow> 'z VectorLogger \<Rightarrow> (int \<times> 'z VectorLogger) option" where
  "push_back_vector members v = do {
     mutex \<leftarrow> LOCK_LOCK (m_mutex v);
     let v = v\<lparr>m_mutex := mutex, v_data := v_data v @ [members]\<rparr>;
     mutex \<leftarrow> LOCK_UNLOCK (m_mutex v);
     Some (0, v\<lparr>m_mutex := mutex\<rparr>) }"

text \<open>The count of rotations, with \<open>now\<close> the clock as the line reads it.\<close>

definition advance_cnt :: "u32 \<Rightarrow> 'z BasicBusinessLogger \<Rightarrow> u32" where
  "advance_cnt now l = m_roate_cnt l + ((now - m_start_time l) div m_rotate_cycle l + 1)"

definition checkRotate_vector :: "'z zlib \<Rightarrow> env \<Rightarrow> 'z VectorLogger \<Rightarrow> disk \<Rightarrow>
    (int \<times> 'z VectorLogger \<times> disk) option" where
  "checkRotate_vector Z e v fs =
     (let l = base v;
          isTimeOut = (uptime e - m_start_time l > m_roate_cnt l * m_rotate_cycle l)
      in do {
        l \<leftarrow> (if isTimeOut
          then if m_rotate_cycle l = 0 then None
               else Some (l\<lparr>m_uptimeBak := ucast (uptime2 e), m_roate_cnt := advance_cnt (uptime2 e) l\<rparr>)
          else Some l);
        if isTimeOut \<or> length (v_data v) \<ge> unat kVectorThreshold then do {
          mutex \<leftarrow> LOCK_LOCK (m_mutex v);
          let data = v_data v;
          let v = v\<lparr>m_mutex := mutex, v_data := []\<rparr>;
          mutex \<leftarrow> LOCK_UNLOCK (m_mutex v);
          let v = v\<lparr>m_mutex := mutex\<rparr>;
          let l = l\<lparr>m_serial_cnt := 0\<rparr>;
          let l = getFileGenTime e l;
          (l, fs) \<leftarrow> rotate_loop Z e data l fs;
          (l, fs) \<leftarrow> (if isTimeOut \<and> m_serial_cnt l = 0 then do {
              (ret, l, fs) \<leftarrow> outputFile Z e l fs;
              Some (l, fs) }
            else Some (l, fs));
          Some (1, v\<lparr>base := l\<rparr>, fs) }
        else Some (0, v\<lparr>base := l\<rparr>, fs) })"

section \<open>A call\<close>

definition vector_start :: "env \<Rightarrow> 'z BasicBusinessLogger \<Rightarrow> 'z BasicBusinessLogger" where
  "vector_start e l =
     (if timed_out e l then l\<lparr>m_uptimeBak := ucast (uptime2 e), m_roate_cnt := advance_cnt (uptime2 e) l\<rparr> else l)
       \<lparr>m_serial_cnt := 0, m_fileGenTime := gen_time e\<rparr>"

text \<open>Nothing is lost: the lines of all waiting packets go to the files or stay in the buffer.\<close>

lemma checkRotate_vector_csv:
  assumes plain: "m_compress_type (base v) \<noteq> kCompressGzip" "\<forall>p. can_open e p"
    and buf: "length (m_buf (base v)) \<le> unat (m_rotate_size (base v)) + 83"
    and cycle: "m_rotate_cycle (base v) \<noteq> 0"
    and len: "length (v_data v) < 4294967296" and mutex: "m_mutex v = Mutex_free"
    and run: "timed_out e (base v) \<or> length (v_data v) \<ge> unat kVectorThreshold"
  shows "\<exists>cs l'. checkRotate_vector Z e v fs =
      Some (1, \<lparr>base = l', v_data = [], m_mutex = Mutex_free\<rparr>, publish (log_name (m_file_path (base v)) (gen_time e)) 0 cs fs) \<and>
    m_buf (base v) @ csv_text (v_data v) = concat cs @ m_buf l' \<and> plain_ok 0 l' \<and>
    (timed_out e (base v) \<longrightarrow> cs \<noteq> []) \<and> same_log (vector_start e (base v)) l'"
proof -
  let ?l = "vector_start e (base v)"
  have l: "plain_ok 0 ?l" "m_serial_cnt ?l = 0" "m_file_path ?l = m_file_path (base v)" "m_fileGenTime ?l = gen_time e"
    "m_buf ?l = m_buf (base v)"
    using plain(1) buf by (simp_all add: vector_start_def plain_ok_def)
  have call: "checkRotate_vector Z e v fs = map_option (\<lambda>(ret, l, fs). (ret, \<lparr>base = l, v_data = [], m_mutex = Mutex_free\<rparr>, fs)) (do {
      (l', fs) \<leftarrow> rotate_loop Z e (v_data v) ?l fs;
      if timed_out e (base v) \<and> m_serial_cnt l' = 0
      then do { (ret, l', fs) \<leftarrow> outputFile Z e l' fs; Some (1, l', fs) }
      else Some (1, l', fs) })"
    using run cycle mutex unfolding checkRotate_vector_def Let_def timed_out_def [symmetric]
    by (cases "timed_out e (base v)") (auto simp: vector_start_def getFileGenTime_def split: option.splits bind_splits)
  obtain cs ts l' where "do {
      (l', fs) \<leftarrow> rotate_loop Z e (v_data v) ?l fs;
      if timed_out e (base v) \<and> m_serial_cnt l' = 0
      then do { (ret, l', fs) \<leftarrow> outputFile Z e l' fs; Some (1, l', fs) }
      else Some (1, l', fs) } = Some (1 :: int, l', publish (log_name (m_file_path ?l) (m_fileGenTime ?l)) 0 cs fs)"
    "map Some cs = map Some ts" "m_buf ?l @ csv_text (v_data v) = concat ts @ m_buf l'"
    "timed_out e (base v) \<longrightarrow> cs \<noteq> []" "plain_ok 0 l'" "same_log ?l l'"
    using plain_log.rotation_sink [OF l(1,2) plain(2) clean_plain len, of Z fs "timed_out e (base v)"] by blast
  then show ?thesis unfolding call l by (intro exI [of _ cs] exI [of _ l']) (simp add: map_Some_eq)
qed

section \<open>Runs\<close>

fun vector_run :: "'z zlib \<Rightarrow> log_event list \<Rightarrow> 'z VectorLogger \<Rightarrow> disk \<Rightarrow> (nat \<times> 'z VectorLogger \<times> disk) option" where
  "vector_run Z [] v fs = Some (0, v, fs)"
| "vector_run Z (Push p # evs) v fs = do {
     (ret, v) \<leftarrow> push_back_vector p v;
     vector_run Z evs v fs }"
| "vector_run Z (Rotate e # evs) v fs = do {
     (ret, v', fs) \<leftarrow> checkRotate_vector Z e v fs;
     (n, v', fs) \<leftarrow> vector_run Z evs v' fs;
     Some (if timed_out e (base v) then Suc n else n, v', fs) }"

text \<open>A call at any time: it returns, and the count advances exactly when the time is over.\<close>

lemma checkRotate_vector_any:
  assumes v: "plain_ok 0 (base v)" "m_rotate_cycle (base v) \<noteq> 0" "length (v_data v) < 4294967296" "\<forall>p. can_open e p"
    "m_mutex v = Mutex_free"
  shows "\<exists>ret v' fs'. checkRotate_vector Z e v fs = Some (ret, v', fs') \<and> plain_ok 0 (base v') \<and>
    m_rotate_cycle (base v') = m_rotate_cycle (base v) \<and> m_start_time (base v') = m_start_time (base v) \<and>
    m_roate_cnt (base v') =
      (if timed_out e (base v) then advance_cnt (uptime2 e) (base v) else m_roate_cnt (base v)) \<and>
    length (v_data v') \<le> length (v_data v) \<and> m_mutex v' = Mutex_free"
proof (cases "timed_out e (base v) \<or> length (v_data v) \<ge> unat kVectorThreshold")
  case True
  have p: "m_compress_type (base v) \<noteq> kCompressGzip" "length (m_buf (base v)) \<le> unat (m_rotate_size (base v)) + 83"
    using v(1) by (simp_all add: plain_ok_def)
  obtain l' fs' where "checkRotate_vector Z e v fs = Some (1, \<lparr>base = l', v_data = [], m_mutex = Mutex_free\<rparr>, fs')" "plain_ok 0 l'"
    "same_log (vector_start e (base v)) l'"
    using checkRotate_vector_csv [OF p(1) v(4) p(2) v(2,3,5) True, of Z fs] by blast
  then show ?thesis by (simp add: same_log_def vector_start_def)
next
  case False
  then have "checkRotate_vector Z e v fs = Some (0, v, fs)"
    unfolding checkRotate_vector_def Let_def timed_out_def [symmetric] by simp
  then show ?thesis using False v(1,5) by simp
qed

text \<open>In numbers, while nothing wraps around: each rotation at least doubles the count plus one.\<close>

lemma advance_doubles:
  assumes c: "m_rotate_cycle l \<noteq> 0" "unat (m_roate_cnt l) * unat (m_rotate_cycle l) \<le> 2 * T + unat (m_rotate_cycle l)"
    and small: "unat (m_rotate_cycle l) < 1073741824" "T < 1073741824"
    and clock: "uptime e - m_start_time l \<le> now - m_start_time l" "unat (now - m_start_time l) \<le> T"
    and time: "timed_out e l"
  shows "unat (m_roate_cnt l) \<le> T div unat (m_rotate_cycle l)"
    and "2 * (unat (m_roate_cnt l) + 1) \<le> unat (advance_cnt now l) + 1"
    and "unat (advance_cnt now l) * unat (m_rotate_cycle l) \<le> 2 * T + unat (m_rotate_cycle l)"
proof -
  let ?c = "unat (m_rotate_cycle l)" and ?n = "unat (m_roate_cnt l)" and ?t = "unat (now - m_start_time l)"
  have c0: "0 < ?c" using c(1) by (simp add: unat_gt_0)
  have prod: "unat (m_roate_cnt l * m_rotate_cycle l) = ?n * ?c"
    using c(2) small by (subst unat_mult_lem [symmetric]) simp
  have late: "?n * ?c < ?t"
    using time clock(1) unfolding timed_out_def word_less_nat_alt word_le_nat_alt prod by simp
  then have "?n \<le> ?t div ?c" using c0 by (simp add: less_eq_div_iff_mult_less_eq)
  moreover have "?t div ?c \<le> T div ?c" using clock(2) by (rule div_le_mono)
  ultimately show "?n \<le> T div ?c" by simp
  have "?t div ?c * ?c \<le> ?t" by simp
  then have "?n * ?c + ?t div ?c * ?c + ?c \<le> 2 * T + ?c" using late clock(2) by linarith
  then have bound: "(?n + (?t div ?c + 1)) * ?c \<le> 2 * T + ?c" by (simp only: add_mult_distrib add.assoc mult_1)
  moreover have "k \<le> k * ?c" for k using c0 by (cases ?c) simp_all
  from this [of "?n + (?t div ?c + 1)"] have "?n + (?t div ?c + 1) \<le> (?n + (?t div ?c + 1)) * ?c" .
  ultimately have "?n + (?t div ?c + 1) < 4294967296" using small by linarith
  then have adv: "unat (advance_cnt now l) = ?n + (?t div ?c + 1)"
    by (simp add: advance_cnt_def unat_word_ariths unat_div)
  show "2 * (?n + 1) \<le> unat (advance_cnt now l) + 1" using \<open>?n \<le> ?t div ?c\<close> by (simp add: adv)
  show "unat (advance_cnt now l) * ?c \<le> 2 * T + ?c" unfolding adv by (rule bound)
qed

lemma vector_run_bound:
  assumes "plain_ok 0 (base v)" "m_rotate_cycle (base v) \<noteq> 0" "unat (m_rotate_cycle (base v)) < 1073741824" "T < 1073741824"
    "length (v_data v) + length evs < 4294967296"
    "\<forall>e \<in> set (rotations evs). (\<forall>p. can_open e p) \<and>
      uptime e - m_start_time (base v) \<le> uptime2 e - m_start_time (base v) \<and> unat (uptime2 e - m_start_time (base v)) \<le> T"
    "unat (m_roate_cnt (base v)) * unat (m_rotate_cycle (base v)) \<le> 2 * T + unat (m_rotate_cycle (base v))"
    "m_mutex v = Mutex_free"
  shows "\<exists>n v' fs'. vector_run Z evs v fs = Some (n, v', fs') \<and>
    (n = 0 \<or> 2 ^ n * (unat (m_roate_cnt (base v)) + 1) \<le> 2 * (T div unat (m_rotate_cycle (base v)) + 1))"
  using assms
proof (induction evs arbitrary: v fs)
  case (Cons ev evs)
  show ?case
  proof (cases ev)
    case (Push p)
    then show ?thesis using Cons.IH [of "v\<lparr>v_data := v_data v @ [p], m_mutex := Mutex_free\<rparr>" fs] Cons.prems
      by (simp add: push_back_vector_def)
  next
    case (Rotate e)
    let ?l = "base v"
    have e: "\<forall>p. can_open e p" "uptime e - m_start_time ?l \<le> uptime2 e - m_start_time ?l"
      "unat (uptime2 e - m_start_time ?l) \<le> T" using Cons.prems(6) Rotate by simp_all
    have len: "length (v_data v) < 4294967296" using Cons.prems(5) by simp
    obtain ret v1 fs1 where 1: "checkRotate_vector Z e v fs = Some (ret, v1, fs1)" "plain_ok 0 (base v1)"
      "m_rotate_cycle (base v1) = m_rotate_cycle ?l" "m_start_time (base v1) = m_start_time ?l"
      "m_roate_cnt (base v1) = (if timed_out e ?l then advance_cnt (uptime2 e) ?l else m_roate_cnt ?l)"
      "length (v_data v1) \<le> length (v_data v)" "m_mutex v1 = Mutex_free"
      using checkRotate_vector_any [OF Cons.prems(1,2) len e(1) Cons.prems(8), of Z fs] by blast
    note adv = advance_doubles [OF Cons.prems(2,7,3,4) e(2,3)]
    have "unat (m_roate_cnt (base v1)) * unat (m_rotate_cycle (base v1)) \<le> 2 * T + unat (m_rotate_cycle (base v1))"
      using adv(3) Cons.prems(7) 1(3,5) by simp
    then obtain n v' fs' where 2: "vector_run Z evs v1 fs1 = Some (n, v', fs')"
      "n = 0 \<or> 2 ^ n * (unat (m_roate_cnt (base v1)) + 1) \<le> 2 * (T div unat (m_rotate_cycle ?l) + 1)"
      using Cons.IH [of v1 fs1] Cons.prems(2-6) 1(2-4,6,7) Rotate by fastforce
    show ?thesis
    proof (cases "timed_out e ?l")
      case True
      have "2 ^ Suc n * (unat (m_roate_cnt ?l) + 1) = 2 ^ n * (2 * (unat (m_roate_cnt ?l) + 1))" by simp
      also have "\<dots> \<le> 2 ^ n * (unat (m_roate_cnt (base v1)) + 1)"
        using adv(2) [OF True] True 1(5) by (intro mult_left_mono) simp_all
      finally have "2 ^ Suc n * (unat (m_roate_cnt ?l) + 1) \<le> 2 * (T div unat (m_rotate_cycle ?l) + 1)"
        using 2(2) adv(1) [OF True] by (cases "n = 0") simp_all
      then show ?thesis using 1(1) 2(1) True Rotate by simp
    next
      case False
      then show ?thesis using 1(1,5) 2 Rotate by simp
    qed
  qed
qed simp

section \<open>Properties\<close>

text \<open>
  C32. The logger compiled with \<^verbatim>\<open>VECTOR_TEST\<close>, in plain mode with files that can be opened. Nothing
  initialises its mutex: taken as uninitialised, the first \<open>push_back\<close> is undefined, and so is the first \<open>checkRotate\<close> whose
  time has come. Where the memory happens to be a free mutex, every run of pushes and tried rotations
  returns, but the logger counts the whole time since the start again at each rotation, so the
  rotations become exponentially rare: within \<open>T\<close> seconds at most about log2 of \<open>T / cycle\<close> of them are made
  because their time has come, where one per cycle is meant.
\<close>

theorem vector_rotations_rare:
  assumes plain: "m_compress_type (base v) \<noteq> kCompressGzip" "m_buf (base v) = []" "m_roate_cnt (base v) = 0"
    and cycle: "0 < m_rotate_cycle (base v)" "m_rotate_cycle (base v) < 1073741824" "T < 1073741824"
    and len: "length (v_data v) + length evs < 4294967296"
    and world: "\<forall>e \<in> set (rotations evs). (\<forall>p. can_open e p) \<and>
      uptime e - m_start_time (base v) \<le> uptime2 e - m_start_time (base v) \<and> unat (uptime2 e - m_start_time (base v)) \<le> T"
  shows "(m_mutex v = Mutex_uninit \<longrightarrow> push_back_vector p v = None \<and>
      (timed_out e (base v) \<longrightarrow> checkRotate_vector Z e v fs = None)) \<and>
    (m_mutex v = Mutex_free \<longrightarrow> (\<exists>n v' fs'. vector_run Z evs v fs = Some (n, v', fs') \<and>
      2 ^ n \<le> 2 * (T div unat (m_rotate_cycle (base v)) + 1)))"
proof (intro conjI impI)
  assume "m_mutex v = Mutex_uninit"
  then show "push_back_vector p v = None" by (simp add: push_back_vector_def)
next
  assume "m_mutex v = Mutex_uninit" "timed_out e (base v)"
  then show "checkRotate_vector Z e v fs = None"
    unfolding checkRotate_vector_def Let_def timed_out_def [symmetric] by (cases "m_rotate_cycle (base v) = 0") simp_all
next
  assume mutex: "m_mutex v = Mutex_free"
  have pre: "plain_ok 0 (base v)" "m_rotate_cycle (base v) \<noteq> 0" "unat (m_rotate_cycle (base v)) < 1073741824"
    "unat (m_roate_cnt (base v)) * unat (m_rotate_cycle (base v)) \<le> 2 * T + unat (m_rotate_cycle (base v))"
    using plain cycle by (simp_all add: plain_ok_def word_less_nat_alt unat_gt_0 [symmetric])
  show "\<exists>n v' fs'. vector_run Z evs v fs = Some (n, v', fs') \<and>
      2 ^ n \<le> 2 * (T div unat (m_rotate_cycle (base v)) + 1)"
    using vector_run_bound [OF pre(1-3) cycle(3) len world pre(4) mutex, of Z fs] plain(3) by auto
qed

text \<open>Ten tries in the seconds 1 to 10: four rotations.\<close>

definition sample_vector :: "(string \<times> string) VectorLogger" where
  "sample_vector = \<lparr>base = sample_logger\<lparr>m_data := None\<rparr>, v_data = [], m_mutex = Mutex_free\<rparr>"

lemma vector_rotations_rare_witness:
  "\<exists>n v' fs'. vector_run store_zlib (map (\<lambda>t. Rotate (sample_env (of_nat t))) [101..<111]) sample_vector Map.empty =
      Some (n, v', fs') \<and> n \<le> 4"
proof -
  let ?evs = "map (\<lambda>t. Rotate (sample_env (of_nat t))) [101..<111]"
  have b: "m_compress_type (base sample_vector) \<noteq> kCompressGzip" "m_buf (base sample_vector) = []"
    "m_roate_cnt (base sample_vector) = 0" "m_rotate_cycle (base sample_vector) = 1"
    "m_start_time (base sample_vector) = 100" "v_data sample_vector = []" "m_mutex sample_vector = Mutex_free"
    by (simp_all add: sample_vector_def sample_logger_def new_BasicBusinessLogger_def kCompressGzip_def)
  have w: "\<forall>e \<in> set (rotations ?evs). (\<forall>p. can_open e p) \<and>
      uptime e - m_start_time (base sample_vector) \<le> uptime2 e - m_start_time (base sample_vector) \<and>
      unat (uptime2 e - m_start_time (base sample_vector)) \<le> 10"
    unfolding b by (simp add: upt_conv_Cons sample_env_def)
  obtain n v' fs' where r: "vector_run store_zlib ?evs sample_vector Map.empty = Some (n, v', fs')"
    "2 ^ n \<le> 2 * (10 div unat (m_rotate_cycle (base sample_vector)) + 1 :: nat)"
    using vector_rotations_rare [OF b(1-3) _ _ _ _ w, where Z = store_zlib and fs = Map.empty] by (auto simp: b)
  have "n \<le> 4"
  proof (rule ccontr)
    assume "\<not> n \<le> 4"
    then have "(2 :: nat) ^ 5 \<le> 2 ^ n" by (intro power_increasing) simp_all
    then show False using r(2) by (simp add: b)
  qed
  then show ?thesis using r(1) by blast
qed

end
