(* ===== verification/Logger_Gzip.thy ===== *)
theory Logger_Gzip
  imports Log_Sink
begin

text \<open>
  The logger in compressed mode: the compression buffer is a sink in the sense of theory \<open>Log_Sink\<close>, as
  long as zlib works, and each file written decompresses to the lines put into it.
\<close>

section \<open>A zlib that works\<close>

text \<open>
  Beyond \<open>library_laws\<close>: memory is available, calls on an open stream with room for the output succeed,
  and one call writes less than a megabyte (a stream of the window and memory level used here holds
  384 KiB, \<^verbatim>\<open>zconf.h\<close>, and the input of a call is one line). \<open>live\<close> says that a stream is open.
\<close>

definition init_works :: "'z zlib \<Rightarrow> ('z \<Rightarrow> bool) \<Rightarrow> bool" where
  "init_works Z live \<longleftrightarrow>
     (\<forall>st. \<exists>st'. deflateInit2 Z kZlibCompressLevel Z_DEFLATED 31 kZlibMemoryLevel Z_DEFAULT_STRATEGY st =
        (Z_OK, st') \<and> live st') \<and>
     (\<forall>st. live st \<longrightarrow> (\<exists>st'. deflateSetHeader Z st = (Z_OK, st') \<and> live st'))"

definition update_works :: "'z zlib \<Rightarrow> ('z \<Rightarrow> bool) \<Rightarrow> bool" where
  "update_works Z live \<longleftrightarrow>
     (\<forall>st source room. live st \<and> length source < 1024 \<and> 1048576 \<le> room \<longrightarrow>
        (\<exists>out taken st'. deflate Z source room Z_NO_FLUSH st = (Z_OK, out, taken, st') \<and>
           length out < 1048576 \<and> live st'))"

definition finish_works :: "'z zlib \<Rightarrow> ('z \<Rightarrow> bool) \<Rightarrow> bool" where
  "finish_works Z live \<longleftrightarrow>
     (\<forall>st room. live st \<and> 1048576 \<le> room \<longrightarrow>
        (\<exists>out taken st' st''. deflate Z [] room Z_FINISH st = (Z_STREAM_END, out, taken, st') \<and>
           deflateEnd Z st' = (Z_OK, st'')))"

definition zlib_works :: "'z zlib \<Rightarrow> ('z \<Rightarrow> bool) \<Rightarrow> bool" where
  "zlib_works Z live \<longleftrightarrow> init_works Z live \<and> update_works Z live \<and> finish_works Z live"

lemma zlib_worksD:
  assumes "zlib_works Z live"
  shows works_init: "\<exists>st'. deflateInit2 Z kZlibCompressLevel Z_DEFLATED 31 kZlibMemoryLevel Z_DEFAULT_STRATEGY st =
      (Z_OK, st') \<and> live st'"
    and works_header: "live st \<Longrightarrow> \<exists>st'. deflateSetHeader Z st = (Z_OK, st') \<and> live st'"
    and works_update: "live st \<Longrightarrow> length source < 1024 \<Longrightarrow> 1048576 \<le> room \<Longrightarrow>
      \<exists>out taken st'. deflate Z source room Z_NO_FLUSH st = (Z_OK, out, taken, st') \<and>
        length out < 1048576 \<and> live st'"
    and works_finish: "live st \<Longrightarrow> 1048576 \<le> room \<Longrightarrow>
      \<exists>out taken st' st''. deflate Z [] room Z_FINISH st = (Z_STREAM_END, out, taken, st') \<and>
        deflateEnd Z st' = (Z_OK, st'')"
  using assms unfolding zlib_works_def init_works_def update_works_def finish_works_def by blast+

section \<open>The compression buffer as a sink\<close>

text \<open>Two megabytes are left for the end of a file, four for the next line and the end.\<close>

definition gz_state :: "('z \<Rightarrow> string) \<Rightarrow> ('z \<Rightarrow> bool) \<Rightarrow> nat \<Rightarrow> 'z GzipHelper \<Rightarrow> bool" where
  "gz_state produced live left h \<longleftrightarrow> gz_inv produced h \<and> live (gz_stream h) \<and>
     gz_compress_level h = kZlibCompressLevel \<and> gz_memory_level h = kZlibMemoryLevel \<and>
     8388624 \<le> length (gz_data h) \<and> unat (gz_size h) + left \<le> length (gz_data h)"

definition gz_ok :: "('z \<Rightarrow> string) \<Rightarrow> ('z \<Rightarrow> bool) \<Rightarrow> nat \<Rightarrow> 'z BasicBusinessLogger \<Rightarrow> bool" where
  "gz_ok produced live left l \<longleftrightarrow> m_compress_type l = kCompressGzip \<and>
     (case m_gipHelper l of None \<Rightarrow> False | Some h \<Rightarrow> gz_state produced live left h)"

definition gz_buffered :: "('z \<Rightarrow> string) \<Rightarrow> 'z BasicBusinessLogger \<Rightarrow> string" where
  "gz_buffered consumed l = (case m_gipHelper l of None \<Rightarrow> [] | Some h \<Rightarrow> consumed (gz_stream h))"

definition gz_name :: "string \<Rightarrow> string \<Rightarrow> nat \<Rightarrow> string" where
  "gz_name path time k = log_path path time (of_nat k) @ ''.gz''"

lemma gz_okE:
  assumes "gz_ok produced live left l"
  obtains h where "m_compress_type l = kCompressGzip" "m_gipHelper l = Some h" "gz_state produced live left h"
  using assms by (auto simp: gz_ok_def split: option.splits)

lemma gz_not_full:
  assumes "gz_state produced live left h" "\<not> isFull h"
  shows "gz_state produced live 4194304 h"
proof -
  have sz: "length (gz_data h) < 4294967296" "unat (gz_size h) \<le> length (gz_data h)"
    using assms(1) by (simp_all add: gz_state_def gz_inv_def)
  then have "unat (gz_size h + 8421392) = unat (gz_size h) + 8421392" "unat (getCompressCapacity h) = length (gz_data h)"
    by (simp_all add: unat_word_ariths getCompressCapacity_def unat_of_nat64)
  moreover have "gz_size h + 8421392 \<le> getCompressCapacity h"
    using assms(2) by (simp add: isFull_def kSafeThreshold_def kWindowBitsToGetGzipHeader_def add.assoc not_less)
  ultimately have "unat (gz_size h) + 8421392 \<le> length (gz_data h)" by (metis word_le_nat_alt)
  then show ?thesis using assms(1) by (simp add: gz_state_def)
qed


lemma gz_update:
  assumes Z: "library_laws Z consumed produced gunzip" "zlib_works Z live" and h: "gz_state produced live 4194304 h"
    and x: "length x < 1024"
  shows "\<exists>h'. compressUpdate Z x (of_nat (length x)) h = Some (0, h') \<and> gz_state produced live 2097152 h' \<and>
    consumed (gz_stream h') = consumed (gz_stream h) @ x"
proof -
  let ?room = "length (gz_data h) - unat (gz_size h)"
  have st: "gz_inv produced h" "live (gz_stream h)" "unat (gz_size h) + 4194304 \<le> length (gz_data h)"
    using h by (simp_all add: gz_state_def)
  have room: "1048576 \<le> ?room" using st(3) by linarith
  obtain out taken st where d: "deflate Z x ?room Z_NO_FLUSH (gz_stream h) = (Z_OK, out, taken, st)"
    "length out < 1048576" "live st"
    using works_update [OF Z(2) st(2) x room] by blast
  obtain d' where u: "compressUpdate Z x (of_nat (length x)) h =
      Some (0, h\<lparr>gz_data := d', gz_stream := st, gz_size := gz_size h + of_nat (length out)\<rparr>)"
    "length d' = length (gz_data h)" "unat (gz_size h + of_nat (length out)) = unat (gz_size h) + length out"
    "gz_inv produced (h\<lparr>gz_data := d', gz_stream := st, gz_size := gz_size h + of_nat (length out)\<rparr>)"
    using compressUpdate_step [OF Z(1) st(1) _ d(1)] x by auto
  note law = deflate_lawD [OF Z(1) d(1)]
  have "taken = length x" using law(5) d(2) st(3) by simp
  then have "consumed st = consumed (gz_stream h) @ x" using law(3) by simp
  then show ?thesis using u d(2,3) h
    by (intro exI [of _ "h\<lparr>gz_data := d', gz_stream := st, gz_size := gz_size h + of_nat (length out)\<rparr>"])
      (simp add: gz_state_def)
qed

lemma gz_finish:
  assumes Z: "library_laws Z consumed produced gunzip" "zlib_works Z live" and h: "gz_state produced live 2097152 h"
    and fs: "opens path" "fs path = None"
  shows "\<exists>h' c. compressFinish Z h = Some (0, h') \<and>
    dumpCompressFile Z opens path h' fs = Some (0, fs(path \<mapsto> c)) \<and> gunzip c = Some (consumed (gz_stream h)) \<and>
    gz_state produced live 4194304 (snd (compressReset Z h')) \<and> consumed (gz_stream (snd (compressReset Z h'))) = []"
proof -
  let ?room = "length (gz_data h) - unat (gz_size h)"
  have st: "gz_inv produced h" "live (gz_stream h)" "unat (gz_size h) + 2097152 \<le> length (gz_data h)"
    "length (gz_data h) < 4294967296" "8388624 \<le> length (gz_data h)"
    using h by (simp_all add: gz_state_def gz_inv_def)
  obtain st1 where 1: "deflateSetHeader Z (gz_stream h) = (Z_OK, st1)" "live st1"
    using works_header [OF Z(2) st(2)] by blast
  have room: "1048576 \<le> ?room" using st(3) by linarith
  obtain out taken st2 st3 where 2: "deflate Z [] ?room Z_FINISH st1 = (Z_STREAM_END, out, taken, st2)"
    "deflateEnd Z st2 = (Z_OK, st3)"
    using works_finish [OF Z(2) 1(2) room] by blast
  obtain d n where 3: "compressFinish Z h = Some (0, h\<lparr>gz_data := d, gz_stream := st3, gz_size := n\<rparr>)"
    "length d = length (gz_data h)" "unat n \<le> length d" "gunzip (take (unat n) d) = Some (consumed (gz_stream h))"
    using compressFinish_step [OF Z(1) st(1) 1(1) 2] by blast
  let ?h = "h\<lparr>gz_data := d, gz_stream := st3, gz_size := n\<rparr>"
  have "dumpCompressFile Z opens path ?h fs = Some (0, fs(path \<mapsto> take (unat n) d))"
    using fs 3(3) front_law [OF Z(1)] by (simp add: dumpCompressFile_def Let_def)
  moreover obtain st4 where 4: "deflateInit2 Z kZlibCompressLevel Z_DEFLATED 31 kZlibMemoryLevel Z_DEFAULT_STRATEGY
      (snd (deflateReset Z st3)) = (Z_OK, st4)" "live st4"
    using works_init [OF Z(2)] by blast
  have "snd (compressReset Z ?h) = ?h\<lparr>gz_size := 0, gz_stream := st4\<rparr>"
    using 4(1) h by (simp add: compressReset_def streamInit_def gz_state_def kWindowBitsToGetGzipHeader_def MAX_WBITS_def)
  moreover have "consumed st4 = []" "produced st4 = []" using init_lawD [OF Z(1) 4(1)] by simp_all
  ultimately show ?thesis using 3 4(2) st(4,5) h
    by (intro exI [of _ ?h] exI [of _ "take (unat n) d"]) (simp add: gz_state_def gz_inv_def)
qed

lemma gz_name_not_tmp: "gz_name path time k \<noteq> gz_name path' time' j @ ''.tmptmp''"
proof
  assume "gz_name path time k = gz_name path' time' j @ ''.tmptmp''"
  then have "last (gz_name path time k) = last (gz_name path' time' j @ ''.tmptmp'')" by simp
  then show False by (simp add: gz_name_def)
qed

interpretation gz_files: numbered_files "gz_name path" "names_ok path" 2147483648 for path
  by unfold_locales (simp_all add: gz_name_not_tmp, simp add: gz_name_def log_path_inj)

lemma outputFile_gzip:
  assumes Z: "library_laws Z consumed produced gunzip" "zlib_works Z live" and l: "gz_ok produced live 2097152 l"
    "\<forall>p. can_open e p" "m_serial_cnt l = of_nat n"
    and tmp: "fs (gz_name (m_file_path l) (m_fileGenTime l) n @ ''.tmptmp'') = None"
  shows "\<exists>c l'. outputFile Z e l fs = Some (0, l', publish (gz_name (m_file_path l) (m_fileGenTime l)) n [c] fs) \<and>
    gunzip c = Some (gz_buffered consumed l) \<and> gz_ok produced live 4194304 l' \<and> gz_buffered consumed l' = [] \<and>
    same_log l l' \<and> m_serial_cnt l' = m_serial_cnt l"
proof -
  obtain h where h: "m_compress_type l = kCompressGzip" "m_gipHelper l = Some h" "gz_state produced live 2097152 h"
    using l(1) by (rule gz_okE)
  let ?tmp = "gz_name (m_file_path l) (m_fileGenTime l) n @ ''.tmptmp''"
  obtain h' c where f: "compressFinish Z h = Some (0, h')"
    "dumpCompressFile Z (can_open e) ?tmp h' fs = Some (0, fs(?tmp \<mapsto> c))" "gunzip c = Some (consumed (gz_stream h))"
    "gz_state produced live 4194304 (snd (compressReset Z h'))" "consumed (gz_stream (snd (compressReset Z h'))) = []"
    using gz_finish [OF Z h(3), of "can_open e" ?tmp fs] l(2) tmp by auto
  have path: "log_path (m_file_path l) (m_fileGenTime l) (m_serial_cnt l) @ ''.gz'' = gz_name (m_file_path l) (m_fileGenTime l) n"
    using l(3) by (simp add: gz_name_def)
  have "outputFile Z e l fs = Some (0, l\<lparr>m_gipHelper := Some (snd (compressReset Z h'))\<rparr>,
      rename_file ?tmp (gz_name (m_file_path l) (m_fileGenTime l) n) (fs(?tmp \<mapsto> c)))"
    unfolding outputFile_def Let_def path using h(1,2) f(1,2) by simp
  then show ?thesis using f(3-5) h(1,2) tmp
    by (intro exI [of _ c] exI [of _ "l\<lparr>m_gipHelper := Some (snd (compressReset Z h'))\<rparr>"])
      (simp add: rename_file_def gz_ok_def gz_buffered_def same_log_def)
qed

lemma gz_sink:
  assumes Z: "library_laws Z consumed produced gunzip" "zlib_works Z live"
  shows "file_sink Z (gz_ok produced live 2097152) (gz_ok produced live 4194304) (gz_buffered consumed) gunzip
    (\<lambda>_ _. True) gz_name (\<lambda>x. x = None)"
proof unfold_locales
  fix l l' :: "'a BasicBusinessLogger" and p e n and fs :: disk and path time time' k c
  show "sink_part l = sink_part l' \<Longrightarrow> gz_ok produced live 2097152 l = gz_ok produced live 2097152 l' \<and>
      gz_ok produced live 4194304 l = gz_ok produced live 4194304 l' \<and> gz_buffered consumed l = gz_buffered consumed l'"
    by (simp add: sink_part_def gz_ok_def gz_buffered_def)
  show "gz_ok produced live 4194304 l \<Longrightarrow> gz_ok produced live 2097152 l"
    by (auto simp: gz_ok_def gz_state_def split: option.splits)
  show "\<exists>b. wants_output l = Some b \<and> (\<not> b \<longrightarrow> gz_ok produced live 4194304 l)" if "gz_ok produced live 2097152 l"
    using that gz_not_full by (elim gz_okE) (auto simp: wants_output_def gz_ok_def)
  show "\<exists>l'. makeCsvLog Z p l = Some l' \<and> gz_ok produced live 2097152 l' \<and>
      gz_buffered consumed l' = gz_buffered consumed l @ csv_line p \<and> same_log l l' \<and> m_serial_cnt l' = m_serial_cnt l"
    if l: "gz_ok produced live 4194304 l"
  proof -
    obtain h where h: "m_compress_type l = kCompressGzip" "m_gipHelper l = Some h" "gz_state produced live 4194304 h"
      using l by (rule gz_okE)
    obtain h' where "compressUpdate Z (csv_line p) (of_nat (length (csv_line p))) h = Some (0, h')"
      "gz_state produced live 2097152 h'" "consumed (gz_stream h') = consumed (gz_stream h) @ csv_line p"
      using gz_update [OF Z h(3), of "csv_line p"] csv_line_length [of p] by auto
    then show ?thesis using h(1,2)
      by (intro exI [of _ "l\<lparr>m_gipHelper := Some h'\<rparr>"])
        (simp add: makeCsvLog_def gz_ok_def gz_buffered_def same_log_def)
  qed
  show "\<exists>c l'. outputFile Z e l fs = Some (0, l', publish (gz_name (m_file_path l) (m_fileGenTime l)) n [c] fs) \<and>
      gunzip c = Some (gz_buffered consumed l) \<and> True \<and> gz_ok produced live 4194304 l' \<and>
      gz_buffered consumed l' = [] \<and> same_log l l' \<and> m_serial_cnt l' = m_serial_cnt l"
    if "gz_ok produced live 2097152 l" "\<forall>p. can_open e p" "m_serial_cnt l = of_nat n"
      "fs (gz_name (m_file_path l) (m_fileGenTime l) n @ ''.tmptmp'') = None"
    using outputFile_gzip [where fs = fs, OF Z that] by simp
  show "(fs(gz_name path time' n @ ''.tmptmp'' := None, gz_name path time' n \<mapsto> c))
      (gz_name path time k @ ''.tmptmp'') = None" if "fs (gz_name path time k @ ''.tmptmp'') = None"
    using that gz_name_not_tmp [of path time' n path time k] by auto
qed

section \<open>Properties\<close>

text \<open>A freshly initialised logger in compressed mode.\<close>

lemma logger_init_gzip:
  assumes Z: "library_laws Z consumed produced gunzip" "zlib_works Z live"
    and size: "unat (rotate_size + 16384) < 4286578672"
  shows "\<exists>r l'. logger_init junk Z e path rotate_size rotate_cycle kCompressGzip l = Some (0, l') \<and>
    m_data l' = Some r \<and> ring_ok r \<and> ring_contents r = [] \<and> behavior r = kRingQueueVariable \<and>
    capacity r = 134217727 \<and> gz_ok produced live 4194304 l' \<and> gz_buffered consumed l' = [] \<and>
    m_file_path l' = path \<and> m_rotate_cycle l' = rotate_cycle \<and> m_start_time l' = uptime2 e \<and>
    m_roate_cnt l' = m_roate_cnt l"
proof -
  let ?s = "ucast (rotate_size + 16384) :: u64"
  have s: "unat ?s < 4286578672" using size by (simp add: unsigned_ucast_eq take_bit_nat_eq_self)
  obtain st where st: "deflateInit2 Z kZlibCompressLevel Z_DEFLATED 31 kZlibMemoryLevel Z_DEFAULT_STRATEGY (zeroed Z) =
      (Z_OK, st)" "live st" using works_init [OF Z(2)] by blast
  have init: "fst (deflateInit2 Z kZlibCompressLevel Z_DEFLATED 31 kZlibMemoryLevel Z_DEFAULT_STRATEGY (zeroed Z)) = Z_OK"
    by (simp only: st(1) fst_conv)
  obtain h where h: "compressInit junk Z (new_GzipHelper Z ?s kZlibCompressLevel kZlibMemoryLevel) = (0, h)"
    "gz_inv produced h" "consumed (gz_stream h) = []" "length (gz_data h) = unat ?s + 8388624" "gz_size h = 0"
    "gz_compress_level h = kZlibCompressLevel" "gz_memory_level h = kZlibMemoryLevel"
    "(Z_OK, gz_stream h) = deflateInit2 Z kZlibCompressLevel Z_DEFLATED 31 kZlibMemoryLevel Z_DEFAULT_STRATEGY (zeroed Z)"
    using compressInit_ok [OF Z(1) init s, of junk] by blast
  have "live (gz_stream h)" using h(8) st by simp
  then have ok: "gz_state produced live 4194304 h" using h(2,4-7) by (simp add: gz_state_def)
  obtain r where r: "new_BuffRing (blank e) (2 * kVectorThreshold) kRingQueueVariable False True = Some r" "ring_ok r"
    "ring_contents r = []" "behavior r = kRingQueueVariable" "capacity r = 134217727"
    using logger_ring [of "blank e"] by blast
  define l' where "l' = l\<lparr>m_file_path := path, m_rotate_size := rotate_size,
      m_rotate_cycle := rotate_cycle, m_compress_type := kCompressGzip, m_uptimeBak := ucast (uptime e + 10),
      m_start_time := uptime2 e, m_gipHelper := Some h, m_data := Some r\<rparr>"
  moreover have "logger_init junk Z e path rotate_size rotate_cycle kCompressGzip l = Some (0, l')"
    using h(1) r(1) by (simp add: logger_init_def Let_def l'_def)
  ultimately show ?thesis using r(2-5) ok h(3)
    by (intro exI [of _ r] exI [of _ l']) (simp add: l'_def gz_ok_def gz_buffered_def)
qed

text \<open>
  C15. In compressed mode, with a zlib as documented that works and a compiler that takes \<^verbatim>\<open>front()\<close> of
  the vector of size 0 as the start of its capacity (\<open>library_laws\<close>), take any order in which the threads'
  pushes and rotations take effect on a freshly initialised logger, the rotations each in their own second and
  not before their time, every path openable, and no temporary files left on the disk. The run is free of undefined
  behaviour; each file it leaves decompresses, and the texts of the files in the order of their times
  and numbers, then what the stream has taken in, then the ring hold exactly the lines of the packets
  that found room, each once and in the order of the pushes.
\<close>

theorem logger_run_gzip:
  assumes Z: "library_laws Z consumed produced gunzip" "zlib_works Z live"
    and init: "logger_init junk Z e0 path rotate_size rotate_cycle kCompressGzip new_BasicBusinessLogger = Some (ret, l0)"
      "unat (rotate_size + 16384) < 4286578672"
    and world: "\<forall>e \<in> set (rotations evs). names_ok path (gen_time e) \<and> (\<forall>p. can_open e p)"
      "\<forall>time k. fs (gz_name path time k @ ''.tmptmp'') = None"
    and times: "distinct (map gen_time (rotations evs))" "on_time (uptime2 e0) rotate_cycle 0 evs"
  shows "\<exists>files l h fs' r. log_run Z evs l0 fs = Some (l, fs') \<and> m_data l = Some r \<and> m_gipHelper l = Some h \<and>
    map fst files = map gen_time (rotations evs) \<and>
    (\<forall>(time, ts) \<in> set files. \<forall>i < length ts.
       \<exists>c. fs' (log_path path time (of_nat i) @ ''.gz'') = Some c \<and> gunzip c = Some (ts ! i)) \<and>
    csv_text (accepted 134217727 evs 0) =
      concat (concat (map snd files)) @ consumed (gz_stream h) @ csv_text (ring_contents r)"
proof -
  obtain r0 where l0: "m_data l0 = Some r0" "ring_ok r0" "ring_contents r0 = []" "behavior r0 = kRingQueueVariable"
    "capacity r0 = 134217727" "gz_ok produced live 4194304 l0" "gz_buffered consumed l0 = []" "m_file_path l0 = path"
    "m_rotate_cycle l0 = rotate_cycle" "m_start_time l0 = uptime2 e0" "m_roate_cnt l0 = 0"
    using logger_init_gzip [OF Z init(2), of junk e0 path rotate_cycle new_BasicBusinessLogger] init(1)
    by (auto simp: new_BasicBusinessLogger_def)
  note sink = gz_sink [OF Z]
  have ok: "gz_ok produced live 2097152 l0" using l0(6) by (auto simp: gz_ok_def gz_state_def split: option.splits)
  have clean: "clean_disk (\<lambda>x. x = None) gz_name (m_file_path l0) fs" using world(2) l0(8) by (simp add: clean_disk_def)
  have pre: "\<forall>e \<in> set (rotations evs). names_ok (m_file_path l0) (gen_time e) \<and> (\<forall>p. can_open e p)"
    "on_time (m_start_time l0) (m_rotate_cycle l0) (m_roate_cnt l0) evs"
    using world(1) times(2) l0 by simp_all
  obtain files l fs' r where run: "log_run Z evs l0 fs = Some (l, fs')" "gz_ok produced live 2097152 l" "m_data l = Some r"
    "map fst files = map gen_time (rotations evs)"
    "\<forall>(time, ts) \<in> set files. \<forall>i < length ts. \<exists>c. fs' (gz_name (m_file_path l0) time i) = Some c \<and> gunzip c = Some (ts ! i)"
    "gz_buffered consumed l0 @ csv_text (ring_contents r0) @
      csv_text (accepted (unat (capacity r0)) evs (length (ring_contents r0))) =
      concat (concat (map snd files)) @ gz_buffered consumed l @ csv_text (ring_contents r)"
    using file_sink.run_files [OF sink l0(1,2,4) ok clean pre(1) times(1) pre(2)] by blast
  obtain h where h: "m_gipHelper l = Some h" using run(2) by (rule gz_okE)
  then have "gz_buffered consumed l = consumed (gz_stream h)" by (simp add: gz_buffered_def)
  then have "csv_text (accepted 134217727 evs 0) =
      concat (concat (map snd files)) @ consumed (gz_stream h) @ csv_text (ring_contents r)"
    using run(6) l0(3,5,7) by simp
  moreover have "\<forall>(time, ts) \<in> set files. \<forall>i < length ts.
      \<exists>c. fs' (log_path path time (of_nat i) @ ''.gz'') = Some c \<and> gunzip c = Some (ts ! i)"
    using run(5) by (simp add: gz_name_def l0(8))
  ultimately show ?thesis using run(1,3,4) h by blast
qed

text \<open>A compressor that writes its input out at once, unchanged.\<close>

definition copy_zlib :: "string zlib" where
  "copy_zlib =
     \<lparr>zeroed = [],
      deflateInit2 = \<lambda>level method bits mem strategy st. (Z_OK, []),
      deflateReset = \<lambda>st. (Z_OK, []),
      deflateSetHeader = \<lambda>st. (Z_OK, st),
      deflate = \<lambda>source room flush st.
        if length source \<le> room
        then (if flush = Z_FINISH then Z_STREAM_END else Z_OK, source, length source, st @ source)
        else (Z_BUF_ERROR, [], 0, st),
      deflateEnd = \<lambda>st. (Z_OK, st),
      total_out = \<lambda>st. of_nat (length st),
      front_unchecked = True\<rparr>"

lemma copy_zlib_laws: "library_laws copy_zlib (\<lambda>st. st) (\<lambda>st. st) Some"
proof -
  have "init_law copy_zlib (\<lambda>st. st) (\<lambda>st. st)" "header_law copy_zlib (\<lambda>st. st) (\<lambda>st. st)"
    "total_law copy_zlib (\<lambda>st. st)"
    by (simp_all add: copy_zlib_def init_law_def header_law_def total_law_def)
  moreover have "deflate_law copy_zlib (\<lambda>st. st) (\<lambda>st. st) Some"
    unfolding deflate_law_def by (auto simp: copy_zlib_def zlib_codes split: if_splits)
  moreover have "front_unchecked copy_zlib" by (simp add: copy_zlib_def)
  ultimately show ?thesis by (simp add: library_laws_def zlib_laws_def)
qed

lemma copy_zlib_works: "zlib_works copy_zlib (\<lambda>st. True)"
proof -
  have "init_works copy_zlib (\<lambda>st. True)" "finish_works copy_zlib (\<lambda>st. True)"
    by (simp_all add: copy_zlib_def init_works_def finish_works_def)
  moreover have "update_works copy_zlib (\<lambda>st. True)"
    unfolding update_works_def by (simp add: copy_zlib_def zlib_codes)
  ultimately show ?thesis by (simp add: zlib_works_def)
qed

theorem logger_run_gzip_witness:
  "\<exists>l0 files l h fs' r. logger_init (CHR 0x00) copy_zlib (sample_env 100) ''./log'' 104857600 1 kCompressGzip
      new_BasicBusinessLogger = Some (0, l0) \<and>
    log_run copy_zlib [Push blank_packet, Push blank_packet, Rotate (sample_env 102)] l0 Map.empty = Some (l, fs') \<and>
    m_gipHelper l = Some h \<and> m_data l = Some r \<and> map fst files = [''20170612163257''] \<and>
    csv_line blank_packet @ csv_line blank_packet =
      concat (concat (map snd files)) @ gz_stream h @ csv_text (ring_contents r)"
proof -
  let ?evs = "[Push blank_packet, Push blank_packet, Rotate (sample_env 102)]"
  have size: "unat ((104857600 :: u32) + 16384) < 4286578672" by simp
  obtain l0 :: "string BasicBusinessLogger" where l0: "logger_init (CHR 0x00) copy_zlib (sample_env 100) ''./log'' 104857600 1
      kCompressGzip new_BasicBusinessLogger = Some (0, l0)"
    using logger_init_gzip [OF copy_zlib_laws copy_zlib_works size, of "CHR 0x00" "sample_env 100" "''./log''" 1
        new_BasicBusinessLogger] by blast
  have w: "\<forall>e \<in> set (rotations ?evs). names_ok ''./log'' (gen_time e) \<and> (\<forall>p. can_open e p)"
    "\<forall>time k. (Map.empty :: disk) (gz_name ''./log'' time k @ ''.tmptmp'') = None"
    "distinct (map gen_time (rotations ?evs))" "on_time (uptime2 (sample_env 100)) 1 0 ?evs"
    by (simp_all add: sample_env_def names_ok_def)
  have e: "map gen_time (rotations ?evs) = [''20170612163257'']"
    "csv_text (accepted 134217727 ?evs 0) = csv_line blank_packet @ csv_line blank_packet"
    by (simp_all add: sample_env_def csv_text_def)
  obtain files l h fs' r where "log_run copy_zlib ?evs l0 Map.empty = Some (l, fs')" "m_data l = Some r"
    "m_gipHelper l = Some h" "map fst files = map gen_time (rotations ?evs)"
    "csv_text (accepted 134217727 ?evs 0) = concat (concat (map snd files)) @ gz_stream h @ csv_text (ring_contents r)"
    using logger_run_gzip [OF copy_zlib_laws copy_zlib_works l0 size w] by (elim exE conjE)
  then show ?thesis using l0 unfolding e
    by (intro exI [of _ l0] exI [of _ files] exI [of _ l] exI [of _ h] exI [of _ fs'] exI [of _ r] conjI)
qed

end
