(* ===== verification/Cmd_Line.thy ===== *)
theory Cmd_Line
  imports Format "HOL-Library.Sublist"
begin

text \<open>
  The interactive command line of \<^verbatim>\<open>access_cmdline.cpp\<close>: the editing state of \<open>CmdLine\<close>, what each
  key does to it and writes to the terminal, the completion of commands from the list of hints,
  and the history file. The bytes written to the terminal and the debugging output are kept in
  the state, in the order of the calls (the buffering of \<^verbatim>\<open>printf\<close> is not modelled). \<open>None\<close> is an exception
  of \<^verbatim>\<open>std::string\<close> or the use of an invalid iterator. Positions and iterators are indices. What the
  terminal makes of the bytes is the subject of the theory \<open>Console\<close>.
\<close>

section \<open>State\<close>

record CmdLine =
  history :: "string list"
  curr :: nat
  hints :: "string list"
  prompt :: string
  cmd :: string
  cmd_buffer :: string
  m_index :: nat
  last_key :: int
  out_fd :: string

definition backspace_char :: char where "backspace_char = CHR 0x08"

text \<open>A \<^verbatim>\<open>char\<close> is signed.\<close>

definition key_code :: "char \<Rightarrow> int" where
  "key_code c = (if (of_char c :: int) < 128 then of_char c else of_char c - 256)"

definition isprint :: "char \<Rightarrow> bool" where
  "isprint c \<longleftrightarrow> 32 \<le> (of_char c :: nat) \<and> (of_char c :: nat) \<le> 126"

section \<open>Output\<close>

definition writeLine :: "string \<Rightarrow> CmdLine \<Rightarrow> CmdLine" where
  "writeLine buf c = c\<lparr>out_fd := out_fd c @ buf\<rparr>"

definition Left :: "nat \<Rightarrow> CmdLine \<Rightarrow> CmdLine" where
  "Left n c = writeLine (replicate n backspace_char) c"

definition Space :: "nat \<Rightarrow> CmdLine \<Rightarrow> CmdLine" where
  "Space n c = writeLine (replicate n (CHR '' '')) c"

definition backSpace :: "nat \<Rightarrow> CmdLine \<Rightarrow> CmdLine" where
  "backSpace n c = Left n (Space n (Left n c))"

definition clearLine :: "CmdLine \<Rightarrow> CmdLine" where
  "clearLine c =
     (let r = length (cmd c) - m_index c in backSpace (m_index c) (Left r (Space r c)))"

definition writeCmd :: "CmdLine \<Rightarrow> CmdLine" where
  "writeCmd c = writeLine (cmd c) c"

section \<open>Hints\<close>

definition addHint :: "string \<Rightarrow> CmdLine \<Rightarrow> CmdLine" where
  "addHint hint c = (if hint \<in> set (hints c) then c else c\<lparr>hints := hints c @ [hint]\<rparr>)"

definition addHints :: "string list \<Rightarrow> CmdLine \<Rightarrow> CmdLine" where
  "addHints cmds c = fold addHint cmds c"

text \<open>
  The loop over the hints. Its state is \<open>common\<close>, \<open>possible\<close>, \<open>i\<close>, \<open>len_min\<close> and \<open>have_space\<close>,
  which is not reset between hints.
\<close>

fun match_hints :: "string \<Rightarrow> bool \<Rightarrow> string list \<Rightarrow> string list \<times> string \<times> nat \<times> nat \<times> bool \<Rightarrow>
    string list \<times> string \<times> nat \<times> nat \<times> bool" where
  "match_hints cm will_sub [] st = st"
| "match_hints cm will_sub (h # hs) (common, possible, i, len_min, have_space) =
     (let have_space = (if str_find h (CHR '' '') \<noteq> None then True else have_space) in
      if length h > length cm \<and> take (length cm) h = cm \<and> (will_sub \<or> \<not> will_sub \<and> \<not> have_space)
      then match_hints cm will_sub hs
        (common @ [h],
         possible @ h @ '' '' @ (if Suc i mod 4 = 0 then [newline] else []), Suc i,
         (if length h < len_min then length h else len_min), have_space)
      else match_hints cm will_sub hs (common, possible, i, len_min, have_space))"

text \<open>\<open>find\<close> and \<open>erase\<close> of a substring; \<open>erase\<close> at \<^verbatim>\<open>npos\<close> throws.\<close>

fun sub_find :: "string \<Rightarrow> string \<Rightarrow> nat option" where
  "sub_find [] t = (if t = [] then Some 0 else None)"
| "sub_find (c # s) t = (if take (length t) (c # s) = t then Some 0 else map_option Suc (sub_find s t))"

fun erase_main :: "nat \<Rightarrow> string \<Rightarrow> string \<Rightarrow> string option" where
  "erase_main 0 main possible = Some possible"
| "erase_main (Suc i) main possible = do {
     n \<leftarrow> sub_find possible (c_string main);
     erase_main i main (take n possible @ drop (n + length main) possible) }"

text \<open>\<^verbatim>\<open>for (size_t i = cmd.length(); i < len_min; i++)\<close>, the number of rounds left as a counter.\<close>

fun common_str :: "string list \<Rightarrow> nat \<Rightarrow> nat \<Rightarrow> string" where
  "common_str common i 0 = []"
| "common_str common i (Suc n) =
     (let x = hd common ! i;
          x = (if list_all (\<lambda>h. h ! i = x) common then x else CHR 0x00)
      in if x \<noteq> CHR 0x00 then x # common_str common (Suc i) n else [])"

text \<open>The number of matches, \<open>*possible\<close> and \<open>*append_str\<close>.\<close>

definition compareHints :: "CmdLine \<Rightarrow> string \<Rightarrow> string \<Rightarrow> (nat \<times> string \<times> string) option" where
  "compareHints c possible append_str =
     (if length (cmd c) = 0 then Some (0, possible, append_str)
      else let will_sub = (str_find (cmd c) (CHR '' '') \<noteq> None) in
        case match_hints (cmd c) will_sub (hints c) ([], [], 0, 65535, False) of
          (common, possible, i, len_min, have_space) \<Rightarrow>
            if length common < 2 then Some (length common, possible, append_str)
            else do {
              possible \<leftarrow> (if will_sub
                then erase_main i (takeWhile (\<lambda>x. x \<noteq> CHR '' '') (cmd c)) possible else Some possible);
              Some (length common, possible,
                append_str @ common_str common (length (cmd c)) (len_min - length (cmd c))) })"

section \<open>Keys\<close>

definition cmdRTrim :: "string \<Rightarrow> string" where
  "cmdRTrim s = take (case find_last_not_of s blanks of None \<Rightarrow> 0 | Some n \<Rightarrow> n + 1) s"

lemma cmdRTrim_RTrim [simp]: "cmdRTrim s = RTrim s"
  by (simp add: cmdRTrim_def RTrim_def)

definition strip :: "string \<Rightarrow> string" where
  "strip s = cmdRTrim (case find_first_not_of s '' '' of None \<Rightarrow> [] | Some n \<Rightarrow> drop n s)"

definition key_enter :: "CmdLine \<Rightarrow> (string \<times> CmdLine) option" where
  "key_enter c =
     (let c = writeLine [newline] c;
          c = c\<lparr>cmd := strip (cmd c)\<rparr> in do {
        c \<leftarrow> (if cmd c = [] then Some (writeLine (prompt c) c)
          else if history c = [] then None
          else if last (history c) \<noteq> cmd c then
            (let c = (if cmd c \<noteq> ''exit'' then c\<lparr>history := history c @ [cmd c]\<rparr> else c)
             in Some (c\<lparr>curr := length (history c)\<rparr>))
          else Some (c\<lparr>curr := length (history c)\<rparr>));
        Some (cmd c, c\<lparr>cmd := [], cmd_buffer := [], m_index := 0\<rparr>) })"

definition key_tab :: "CmdLine \<Rightarrow> CmdLine option" where
  "key_tab c = do {
     (count, possible_cmd, append_str) \<leftarrow> compareHints c [] [];
     Some (if count > 1 \<and> last_key c = key_code (CHR 0x09) then
         (let c = writeLine ([newline] @ possible_cmd @ [newline]) c;
              c = writeLine (prompt c) c;
              c = c\<lparr>cmd := cmd c @ append_str\<rparr>;
              c = c\<lparr>m_index := length (cmd c)\<rparr>
          in writeLine (cmd c) c)
       else if count = 1 then
         (let c = clearLine c;
              c = writeLine possible_cmd c;
              c = c\<lparr>cmd := possible_cmd\<rparr>
          in c\<lparr>m_index := length (cmd c), last_key := 0\<rparr>)
       else c) }"

definition substr_from :: "string \<Rightarrow> nat \<Rightarrow> string option" where
  "substr_from s n = (if n \<le> length s then Some (drop n s) else None)"

definition key_backspace :: "CmdLine \<Rightarrow> CmdLine option" where
  "key_backspace c =
     (if m_index c > 0 then do {
        let c = clearLine c;
        last_part \<leftarrow> substr_from (cmd c) (m_index c);
        let c = c\<lparr>m_index := m_index c - 1\<rparr>;
        let c = c\<lparr>cmd := take (m_index c) (cmd c) @ drop (Suc (m_index c)) (cmd c)\<rparr>;
        Some (Left (length last_part) (writeLine (cmd c) c)) }
      else Some c)"

definition show_history :: "CmdLine \<Rightarrow> CmdLine option" where
  "show_history c = do {
     let c = clearLine c;
     entry \<leftarrow> mem_get (history c) (curr c);
     let c = writeLine entry c;
     Some (c\<lparr>cmd := entry, m_index := length entry\<rparr>) }"

definition key_up :: "CmdLine \<Rightarrow> CmdLine option" where
  "key_up c = do {
     c \<leftarrow> (if curr c = 0 then Some c
       else let c = c\<lparr>curr := curr c - 1\<rparr> in do {
         entry \<leftarrow> mem_get (history c) (curr c);
         Some (if entry = cmd c \<and> curr c \<noteq> 0 then c\<lparr>curr := curr c - 1\<rparr> else c) });
     show_history c }"

definition key_down :: "CmdLine \<Rightarrow> CmdLine option" where
  "key_down c =
     (if curr c = length (history c) then Some c
      else if curr c = length (history c) - 1 then
        (let c = (if length (cmd_buffer c) \<noteq> 0
            then (let c = writeLine (cmd_buffer c) (clearLine c)
                  in c\<lparr>cmd := cmd_buffer c, m_index := length (cmd_buffer c)\<rparr>)
            else c)
         in Some (c\<lparr>curr := curr c + 1\<rparr>))
      else show_history (c\<lparr>curr := curr c + 1\<rparr>))"

definition key_left :: "CmdLine \<Rightarrow> CmdLine" where
  "key_left c = (writeLine [backspace_char] c)\<lparr>m_index := m_index c - 1\<rparr>"

definition key_right :: "CmdLine \<Rightarrow> CmdLine" where
  "key_right c = (writeLine [cmd c ! m_index c] c)\<lparr>m_index := m_index c + 1\<rparr>"

definition key_insert :: "char \<Rightarrow> CmdLine \<Rightarrow> CmdLine option" where
  "key_insert k c = do {
     let c = clearLine c;
     last_part \<leftarrow> substr_from (cmd c) (m_index c);
     let c = c\<lparr>cmd := take (m_index c) (cmd c) @ k # drop (m_index c) (cmd c)\<rparr>;
     let c = c\<lparr>cmd_buffer := cmd c\<rparr>;
     let c = Left (length last_part) (writeLine (cmd c) c);
     Some (c\<lparr>m_index := m_index c + 1\<rparr>) }"

text \<open>
  \<open>k\<close> is the byte read, \<open>b0\<close> and \<open>b1\<close> the two bytes read after an escape character, \<open>len\<close> what the
  first \<^verbatim>\<open>read\<close> returned, which the last branch prints.
\<close>

definition readLine :: "char \<Rightarrow> char \<Rightarrow> char \<Rightarrow> int \<Rightarrow> CmdLine \<Rightarrow> (string \<times> CmdLine) option" where
  "readLine k b0 b1 len c = do {
     (res, c) \<leftarrow>
       (if k = newline then key_enter c
        else if k = CHR 0x09 then map_option (Pair []) (key_tab c)
        else if k = CHR 0x7F \<or> k = CHR 0x08 then map_option (Pair []) (key_backspace c)
        else if k = CHR 0x1B then
          (if b0 = CHR 0x5B \<and> b1 = CHR 0x41 \<and> length (history c) > 0 then map_option (Pair []) (key_up c)
           else if b0 = CHR 0x5B \<and> b1 = CHR 0x42 \<and> length (history c) > 0 then map_option (Pair []) (key_down c)
           else if b0 = CHR 0x5B \<and> b1 = CHR 0x44 \<and> m_index c > 0 then Some ([], key_left c)
           else if b0 = CHR 0x5B \<and> b1 = CHR 0x43 \<and> m_index c < length (cmd c) then Some ([], key_right c)
           else Some ([], c))
        else if isprint k then map_option (Pair []) (key_insert k c)
        else Some ([], writeLine (''len = '' @ show_int len @ [newline]) c));
     Some (res, c\<lparr>last_key := key_code k\<rparr>) }"

section \<open>History file and construction\<close>

function history_loop :: "string \<Rightarrow> string list \<Rightarrow> string list" where
  "history_loop f tmp =
     (if f = [] then tmp
      else let buf = c_string (fst (fgets 1023 f)) in
        history_loop (snd (fgets 1023 f)) (if length buf > 0 then tmp @ [cmdRTrim buf] else tmp))"
  by pat_completeness auto
termination
proof (relation "measure (\<lambda>(f, tmp). length f)")
  fix f :: string and tmp x
  assume ne: "f \<noteq> []"
  obtain b r where br: "fgets 1023 f = (b, r)" by force
  have "b \<noteq> []" using fgets_progress [of 1023 f] ne br by simp
  moreover have "f = b @ r" by (rule fgets_rest [OF br])
  ultimately show "((snd (fgets 1023 f), if 0 < length x then tmp @ [cmdRTrim x] else tmp), f, tmp)
      \<in> measure (\<lambda>(f, tmp). length f)"
    using br by (cases b) auto
qed simp

declare history_loop.simps [simp del]

text \<open>Both loops over the history stop after the entry at which \<open>i\<close> is 501.\<close>

definition readHistory :: "string option \<Rightarrow> string list" where
  "readHistory file = (case file of None \<Rightarrow> [''help''] | Some f \<Rightarrow> take 502 (rev (history_loop f [])))"

definition writeBackHistory :: "string list \<Rightarrow> string" where
  "writeBackHistory hist = concat (map (\<lambda>h. c_string h @ [newline]) (take 502 (rev hist)))"

text \<open>\<open>init\<close> also switches the terminal to unbuffered input without echo, which is not modelled.\<close>

definition CmdLine_init :: "string option \<Rightarrow> CmdLine \<Rightarrow> CmdLine" where
  "CmdLine_init history_file c =
     (let c = writeLine (prompt c) c;
          c = c\<lparr>history := history c @ readHistory history_file\<rparr>
      in c\<lparr>curr := length (history c)\<rparr>)"

text \<open>
  The constructors; the contents of the history file stand for its name, \<open>key\<close> is the value of the
  uninitialised member \<open>last_key\<close>.
\<close>

definition new_CmdLine :: "string \<Rightarrow> string option \<Rightarrow> int \<Rightarrow> CmdLine" where
  "new_CmdLine prompt_cstr history_file key = CmdLine_init history_file
     \<lparr>history = [], curr = 0, hints = [], prompt = prompt_cstr, cmd = [], cmd_buffer = [],
      m_index = 0, last_key = key, out_fd = []\<rparr>"

definition default_CmdLine :: "string option \<Rightarrow> int \<Rightarrow> CmdLine" where
  "default_CmdLine history_file key = CmdLine_init history_file
     \<lparr>history = [], curr = 0, hints = [], prompt = ''> '', cmd = [], cmd_buffer = [],
      m_index = 0, last_key = key, out_fd = []\<rparr>"

definition setPrompt :: "string \<Rightarrow> CmdLine \<Rightarrow> CmdLine" where
  "setPrompt p c = c\<lparr>prompt := p\<rparr>"

text \<open>The destructor: what it writes to the history file.\<close>

definition destroy_CmdLine :: "CmdLine \<Rightarrow> string" where
  "destroy_CmdLine c = writeBackHistory (history c)"

lemma new_CmdLine_eq: "new_CmdLine prompt_cstr history_file key =
    \<lparr>history = readHistory history_file, curr = length (readHistory history_file), hints = [], prompt = prompt_cstr,
     cmd = [], cmd_buffer = [], m_index = 0, last_key = key, out_fd = prompt_cstr\<rparr>"
  by (simp add: new_CmdLine_def CmdLine_init_def writeLine_def Let_def)

section \<open>What output leaves alone\<close>

lemma writeLine_sel [simp]:
  "prompt (writeLine w c) = prompt c" "cmd (writeLine w c) = cmd c" "m_index (writeLine w c) = m_index c"
  "history (writeLine w c) = history c" "curr (writeLine w c) = curr c" "hints (writeLine w c) = hints c"
  "cmd_buffer (writeLine w c) = cmd_buffer c" "last_key (writeLine w c) = last_key c"
  by (simp_all add: writeLine_def)

lemma clearLine_sel [simp]:
  "prompt (clearLine c) = prompt c" "cmd (clearLine c) = cmd c" "m_index (clearLine c) = m_index c"
  "history (clearLine c) = history c" "curr (clearLine c) = curr c" "hints (clearLine c) = hints c"
  "cmd_buffer (clearLine c) = cmd_buffer c" "last_key (clearLine c) = last_key c"
  by (simp_all add: clearLine_def backSpace_def Left_def Space_def Let_def)

section \<open>Completion\<close>

definition extends :: "string \<Rightarrow> string \<Rightarrow> bool" where
  "extends cm h \<longleftrightarrow> length h > length cm \<and> take (length cm) h = cm"

definition plain_hints :: "string list \<Rightarrow> bool" where
  "plain_hints hs \<longleftrightarrow> (\<forall>h \<in> set hs. CHR '' '' \<notin> set h)"

lemma str_find_None: "c \<notin> set s \<Longrightarrow> str_find s c = None"
proof -
  assume "c \<notin> set s"
  then have "length (takeWhile (\<lambda>x. x \<noteq> c) s) = length s" by (simp add: takeWhile_no_delim)
  then show ?thesis by (simp only: str_find_def Let_def) simp
qed

lemma match_hints_plain:
  assumes "plain_hints hs"
  shows "\<exists>p. match_hints cm ws hs (cs, ps, i, lm, False) =
      (cs @ filter (extends cm) hs, p, i + length (filter (extends cm) hs),
       fold (\<lambda>h m. min (length h) m) (filter (extends cm) hs) lm, False) \<and>
    (filter (extends cm) hs = [] \<longrightarrow> p = ps) \<and>
    (\<forall>h. filter (extends cm) hs = [h] \<longrightarrow>
      p = ps @ h @ '' '' @ (if Suc i mod 4 = 0 then [newline] else []))"
  using assms
proof (induction hs arbitrary: cs ps i lm)
  case (Cons h hs)
  then have h: "str_find h (CHR '' '') = None" and hs: "plain_hints hs"
    by (simp_all add: plain_hints_def str_find_None)
  show ?case
  proof (cases "extends cm h")
    case True
    let ?ps = "ps @ h @ '' '' @ (if Suc i mod 4 = 0 then [newline] else [])"
    obtain p where p: "match_hints cm ws hs (cs @ [h], ?ps, Suc i, min (length h) lm, False) =
        ((cs @ [h]) @ filter (extends cm) hs, p, Suc i + length (filter (extends cm) hs),
         fold (\<lambda>h m. min (length h) m) (filter (extends cm) hs) (min (length h) lm), False)"
      "filter (extends cm) hs = [] \<longrightarrow> p = ?ps"
      using Cons.IH [OF hs, of "cs @ [h]" ?ps "Suc i" "min (length h) lm"] by blast
    have "match_hints cm ws (h # hs) (cs, ps, i, lm, False) =
        match_hints cm ws hs (cs @ [h], ?ps, Suc i, min (length h) lm, False)"
      using True h by (simp add: extends_def Let_def min_def)
    then show ?thesis using p True by auto
  next
    case False
    then have "match_hints cm ws (h # hs) (cs, ps, i, lm, False) = match_hints cm ws hs (cs, ps, i, lm, False)"
      using h by (auto simp: extends_def Let_def)
    then show ?thesis using Cons.IH [OF hs, of cs ps i lm] False by simp
  qed
qed simp

lemma fold_min_le:
  "fold (\<lambda>h m. min (length h) m) hs lm \<le> lm"
  "h \<in> set hs \<Longrightarrow> fold (\<lambda>h m. min (length h) m) hs lm \<le> length h"
proof (induction hs arbitrary: lm)
  case (Cons x xs)
  { case 1 show ?case using Cons.IH(1) [of "min (length x) lm"] by simp }
  { case 2 then show ?case using Cons.IH(1) [of "min (length x) lm"] Cons.IH(2) [of "min (length x) lm"] by auto }
qed simp_all

lemma fold_min_in:
  "fold (\<lambda>h m. min (length h) m) hs lm = lm \<or>
   (\<exists>h \<in> set hs. fold (\<lambda>h m. min (length h) m) hs lm = length h)"
proof (induction hs arbitrary: lm)
  case (Cons x xs)
  then show ?case using Cons.IH [of "min (length x) lm"] by (auto simp: min_def split: if_splits)
qed simp

lemma compareHints_plain:
  assumes "plain_hints (hints c)" "cmd c \<noteq> []"
  defines "M \<equiv> filter (extends (cmd c)) (hints c)"
  shows "\<exists>p. compareHints c [] [] = Some (length M, p,
      if length M < 2 then [] else common_str M (length (cmd c))
        (fold (\<lambda>h m. min (length h) m) M 65535 - length (cmd c))) \<and>
    (\<forall>h. M = [h] \<longrightarrow> p = h @ '' '')"
proof -
  define ws where "ws = (str_find (cmd c) (CHR '' '') \<noteq> None)"
  obtain p where p: "match_hints (cmd c) ws (hints c) ([], [], 0, 65535, False) =
      (M, p, length M, fold (\<lambda>h m. min (length h) m) M 65535, False)"
    "\<forall>h. M = [h] \<longrightarrow> p = h @ '' ''"
    using match_hints_plain [OF assms(1), of "cmd c" ws "[]" "[]" 0 65535, folded M_def] by auto
  have nosp: "CHR '' '' \<notin> set (cmd c)" if ne: "M \<noteq> []"
  proof -
    obtain h where "h \<in> set M" using ne by (cases M) auto
    then have h: "h \<in> set (hints c)" "extends (cmd c) h" by (simp_all add: M_def)
    then have "set (cmd c) \<subseteq> set h" using set_take_subset [of "length (cmd c)" h] by (simp add: extends_def)
    then show ?thesis using h(1) assms(1) by (auto simp: plain_hints_def)
  qed
  have ws: "\<not> ws" if "M \<noteq> []" using nosp [OF that] by (simp add: ws_def str_find_None)
  show ?thesis
  proof (cases "length M < 2")
    case True
    then show ?thesis using p assms(2) unfolding compareHints_def Let_def ws_def [symmetric] by simp
  next
    case False
    then have "M \<noteq> []" by auto
    then have "\<not> ws" by (rule ws)
    then show ?thesis using False p assms(2) unfolding compareHints_def Let_def ws_def [symmetric] by simp
  qed
qed

text \<open>The completion is the longest one that all matches share.\<close>

lemma common_str_prefix:
  assumes "\<forall>h \<in> set M. i + n \<le> length h" "M \<noteq> []"
  shows "length (common_str M i n) \<le> n \<and>
    (\<forall>h \<in> set M. take (length (common_str M i n)) (drop i h) = common_str M i n) \<and>
    ((\<forall>h \<in> set M. CHR 0x00 \<notin> set h) \<longrightarrow> length (common_str M i n) < n \<longrightarrow>
      (\<exists>h \<in> set M. h ! (i + length (common_str M i n)) \<noteq> hd M ! (i + length (common_str M i n))))"
  using assms
proof (induction n arbitrary: i)
  case (Suc n)
  let ?x = "hd M ! i" and ?cs = "common_str M (Suc i) n"
  have len: "\<forall>h \<in> set M. i < length h" using Suc.prems by auto
  have IH: "length ?cs \<le> n" "\<forall>h \<in> set M. take (length ?cs) (drop (Suc i) h) = ?cs"
    "(\<forall>h \<in> set M. CHR 0x00 \<notin> set h) \<longrightarrow> length ?cs < n \<longrightarrow>
      (\<exists>h \<in> set M. h ! (Suc i + length ?cs) \<noteq> hd M ! (Suc i + length ?cs))"
    using Suc.IH [of "Suc i"] Suc.prems by auto
  have step: "take (Suc k) (drop i h) = h ! i # take k (drop (Suc i) h)" if "h \<in> set M" for h k
    using len that by (simp add: Cons_nth_drop_Suc [symmetric])
  have nz: "?x \<noteq> CHR 0x00" if "\<forall>h \<in> set M. CHR 0x00 \<notin> set h"
    using that len Suc.prems(2) by (metis hd_in_set nth_mem)
  show ?case
  proof (cases "list_all (\<lambda>h. h ! i = ?x) M \<and> ?x \<noteq> CHR 0x00")
    case True
    then have "common_str M i (Suc n) = ?x # ?cs" by (simp add: Let_def)
    moreover have "\<forall>h \<in> set M. h ! i = ?x" using True by (simp add: list_all_iff)
    ultimately show ?thesis using IH step by simp
  next
    case False
    then have "common_str M i (Suc n) = []" by (auto simp: Let_def)
    moreover have "\<exists>h \<in> set M. h ! i \<noteq> ?x" if "\<forall>h \<in> set M. CHR 0x00 \<notin> set h"
      using False nz [OF that] by (auto simp: list_all_iff)
    ultimately show ?thesis by simp
  qed
qed auto

lemma extends_prefix: "extends cm h \<longleftrightarrow> strict_prefix cm h"
proof -
  have "prefix cm h \<longleftrightarrow> take (length cm) h = cm"
    by (metis append_take_drop_id prefix_def take_is_prefix append_eq_conv_conj)
  then show ?thesis
    by (auto simp: extends_def strict_prefix_def prefix_length_less dest: prefix_length_le)
qed

lemma prefix_take_drop: "prefix (a @ b) h \<longleftrightarrow> prefix a h \<and> take (length b) (drop (length a) h) = b"
  by (auto simp: prefix_def) (metis append_take_drop_id)

lemma common_longest:
  assumes two: "1 < length M" and M: "\<forall>h \<in> set M. strict_prefix cm h \<and> length h < 65535 \<and> CHR 0x00 \<notin> set h"
    and a: "a = common_str M (length cm) (fold (\<lambda>h m. min (length h) m) M 65535 - length cm)"
  shows "(\<forall>h \<in> set M. prefix (cm @ a) h) \<and> \<not> (\<exists>x. \<forall>h \<in> set M. prefix (cm @ a @ [x]) h)"
proof -
  define lm where "lm = fold (\<lambda>h m. min (length h) m) M 65535"
  have ne: "M \<noteq> []" using two by auto
  have le: "lm \<le> length h" if "h \<in> set M" for h unfolding lm_def using that by (rule fold_min_le(2))
  obtain s where s: "s \<in> set M" "lm = length s"
    using fold_min_in [of M 65535] le [of "hd M"] M ne unfolding lm_def
    by (metis hd_in_set linorder_not_le)
  have cm: "length cm < lm" using M s by (auto dest: prefix_length_less)
  then have rng: "\<forall>h \<in> set M. length cm + (lm - length cm) \<le> length h" using le by auto
  note cs = common_str_prefix [OF rng ne, folded lm_def, folded a [folded lm_def]]
  have pre: "prefix (cm @ a) h" if "h \<in> set M" for h
    using cs M that by (auto simp: prefix_take_drop dest: strict_prefix_def [THEN iffD1])
  have "\<not> (\<forall>h \<in> set M. prefix (cm @ a @ [x]) h)" for x
  proof
    assume all: "\<forall>h \<in> set M. prefix (cm @ a @ [x]) h"
    then have "length (cm @ a @ [x]) \<le> length s" using s by (blast dest: prefix_length_le)
    then have "length a < lm - length cm" using s by simp
    then obtain h where h: "h \<in> set M" "h ! (length cm + length a) \<noteq> hd M ! (length cm + length a)"
      using cs M by auto
    have "g ! (length cm + length a) = x" if "g \<in> set M" for g
    proof -
      have "prefix (cm @ a @ [x]) g" using all that by blast
      then obtain r where "g = (cm @ a @ [x]) @ r" by (rule prefixE)
      then show ?thesis by (simp add: nth_append)
    qed
    then show False using h ne by (metis hd_in_set)
  qed
  then show ?thesis using pre by blast
qed

text \<open>C33. On TAB, with hints of one word: nothing happens without a match; a single match becomes the
  command, followed by a blank; with several matches the first TAB does nothing and the second one
  extends the command to the longest text that all the matches still begin with.\<close>

theorem tab_completes:
  assumes "plain_hints (hints c)" "cmd c \<noteq> []" "\<forall>h \<in> set (hints c). length h < 65535 \<and> CHR 0x00 \<notin> set h"
    and M: "M = filter (strict_prefix (cmd c)) (hints c)"
  shows "\<exists>c'. key_tab c = Some c' \<and>
    (M = [] \<longrightarrow> c' = c) \<and>
    (\<forall>h. M = [h] \<longrightarrow> cmd c' = h @ '' '' \<and> m_index c' = length (cmd c')) \<and>
    (1 < length M \<and> last_key c \<noteq> key_code (CHR 0x09) \<longrightarrow> c' = c) \<and>
    (1 < length M \<and> last_key c = key_code (CHR 0x09) \<longrightarrow>
       m_index c' = length (cmd c') \<and> prefix (cmd c) (cmd c') \<and>
       (\<forall>h \<in> set M. prefix (cmd c') h) \<and> \<not> (\<exists>x. \<forall>h \<in> set M. prefix (cmd c' @ [x]) h))"
proof -
  have M: "M = filter (extends (cmd c)) (hints c)" unfolding M by (simp add: extends_prefix cong: filter_cong)
  define a where "a = (if length M < 2 then [] else common_str M (length (cmd c))
        (fold (\<lambda>h m. min (length h) m) M 65535 - length (cmd c)))"
  obtain p where p: "compareHints c [] [] = Some (length M, p, a)" "\<forall>h. M = [h] \<longrightarrow> p = h @ '' ''"
    using compareHints_plain [OF assms(1,2), folded M] unfolding a_def by blast
  define c' where "c' = (if 1 < length M \<and> last_key c = key_code (CHR 0x09)
    then writeLine (cmd c @ a) ((writeLine (prompt c) (writeLine ([newline] @ p @ [newline]) c))
      \<lparr>cmd := cmd c @ a, m_index := length (cmd c @ a)\<rparr>)
    else if length M = 1 then (writeLine p (clearLine c))\<lparr>cmd := p, m_index := length p, last_key := 0\<rparr> else c)"
  have k: "key_tab c = Some c'"
    unfolding key_tab_def p(1) c'_def by (simp add: Let_def)
  have long: "(\<forall>h \<in> set M. prefix (cmd c @ a) h) \<and> \<not> (\<exists>x. \<forall>h \<in> set M. prefix (cmd c @ a @ [x]) h)"
    if two: "1 < length M"
  proof (rule common_longest [OF two])
    show "\<forall>h \<in> set M. strict_prefix (cmd c) h \<and> length h < 65535 \<and> CHR 0x00 \<notin> set h"
      using assms(3) by (simp add: M extends_prefix)
    show "a = common_str M (length (cmd c)) (fold (\<lambda>h m. min (length h) m) M 65535 - length (cmd c))"
      using two by (simp add: a_def)
  qed
  have sel: "cmd c' = cmd c @ a" "m_index c' = length (cmd c')"
    if "1 < length M" "last_key c = key_code (CHR 0x09)"
    using that by (simp_all add: c'_def)
  have one: "cmd c' = h @ '' ''" "m_index c' = length (cmd c')" if "M = [h]" for h
    using that p(2) by (simp_all add: c'_def)
  have none: "c' = c" if "M = [] \<or> 1 < length M \<and> last_key c \<noteq> key_code (CHR 0x09)"
    using that by (auto simp: c'_def)
  show ?thesis
    using k long sel one none by (intro exI [of _ c']) auto
qed

lemma tab_completes_witness:
  "\<exists>c'. key_tab ((addHints [''start'', ''status'', ''exit''] (new_CmdLine ''> '' None 9))
        \<lparr>cmd := ''s'', m_index := 1\<rparr>) = Some c' \<and> cmd c' = ''sta''"
proof -
  let ?c = "(addHints [''start'', ''status'', ''exit''] (new_CmdLine ''> '' None 9))\<lparr>cmd := ''s'', m_index := 1\<rparr>"
  have f: "hints ?c = [''start'', ''status'', ''exit'']" "cmd ?c = ''s''" "last_key ?c = key_code (CHR 0x09)"
    by (simp_all add: addHints_def addHint_def new_CmdLine_eq Let_def key_code_def)
  have M: "[''start'', ''status''] = filter (strict_prefix (cmd ?c)) (hints ?c)"
    unfolding f by (simp add: strict_prefix_def)
  have h: "plain_hints (hints ?c)" "cmd ?c \<noteq> []" "\<forall>h \<in> set (hints ?c). length h < 65535 \<and> CHR 0x00 \<notin> set h"
    unfolding f by (simp_all add: plain_hints_def)
  obtain c' where c': "key_tab ?c = Some c'" "prefix ''s'' (cmd c')"
    "\<forall>h \<in> set [''start'', ''status'']. prefix (cmd c') h"
    "\<not> (\<exists>x. \<forall>h \<in> set [''start'', ''status'']. prefix (cmd c' @ [x]) h)"
    using tab_completes [OF h M] f(2,3) by auto
  have "cmd c' \<in> set (prefixes ''start'')" using c'(3) by (simp only: in_set_prefixes) simp
  then consider "cmd c' = []" | "cmd c' = ''s''" | "cmd c' = ''st''" | "cmd c' = ''sta''"
    | "cmd c' = ''star''" | "cmd c' = ''start''" by auto
  then have "cmd c' = ''sta''"
  proof cases
    case 1 then show ?thesis using c'(2) by simp
  next
    case 2 then show ?thesis using c'(4) [unfolded not_ex, rule_format, of "CHR ''t''"] by simp
  next
    case 3 then show ?thesis using c'(4) [unfolded not_ex, rule_format, of "CHR ''a''"] by simp
  next
    case 5 then show ?thesis using c'(3) by simp
  next
    case 6 then show ?thesis using c'(3) by simp
  qed
  then show ?thesis using c'(1) by blast
qed

section \<open>The history file\<close>

lemma RTrim_newline: "RTrim (s @ [CHR 0x0A]) = RTrim s"
  by (simp add: RTrim_eq blanks_def)

lemma history_loop_nil: "history_loop [] tmp = tmp"
  by (simp add: history_loop.simps)

lemma history_loop_lines:
  assumes "\<forall>l \<in> set ls. line_ok l \<and> RTrim l = l"
  shows "history_loop (concat (map (\<lambda>l. l @ [CHR 0x0A]) ls) @ s) tmp = history_loop s (tmp @ ls)"
  using assms
proof (induction ls arbitrary: tmp)
  case (Cons l ls)
  let ?rest = "concat (map (\<lambda>l. l @ [CHR 0x0A]) ls) @ s"
  have l: "CHR 0x0A \<notin> set l" "length l < 1023" "CHR 0x00 \<notin> set l" "RTrim l = l"
    using Cons.prems by (auto simp: line_ok_def)
  have "fgets 1023 (l @ CHR 0x0A # ?rest) = (l @ [CHR 0x0A], ?rest)" by (rule fgets_line [OF l(1,2)])
  moreover have "c_string (l @ [CHR 0x0A]) = l @ [CHR 0x0A]" using l(3) by (intro c_string_id) simp
  ultimately have "history_loop (l @ CHR 0x0A # ?rest) tmp = history_loop ?rest (tmp @ [l])"
    by (subst history_loop.simps) (simp add: RTrim_newline l(4))
  then show ?case using Cons by simp
qed simp

text \<open>C34. What a session saves, the next one reads: writing the history back to its file and reading
  the file gives the last 502 commands (all of them when there are fewer), in their order.\<close>

theorem history_roundtrip:
  assumes "\<forall>h \<in> set hist. line_ok h \<and> RTrim h = h"
  shows "readHistory (Some (writeBackHistory hist)) = drop (length hist - 502) hist"
proof -
  let ?t = "take 502 (rev hist)"
  have t: "\<forall>h \<in> set ?t. line_ok h \<and> RTrim h = h" using assms by (auto dest: in_set_takeD)
  then have m: "map (\<lambda>h. c_string h @ [newline]) ?t = map (\<lambda>h. h @ [CHR 0x0A]) ?t"
    by (intro map_cong) (simp_all add: c_string_id line_ok_def newline_def)
  have "history_loop (writeBackHistory hist) [] = ?t"
    unfolding writeBackHistory_def m
    using history_loop_lines [OF t, of "[]" "[]"] by (simp add: history_loop_nil)
  then show ?thesis by (simp add: readHistory_def take_rev)
qed

lemma history_roundtrip_witness:
  "readHistory (Some (writeBackHistory [''core_num'', ''skip_output''])) = [''core_num'', ''skip_output'']"
  using history_roundtrip [of "[''core_num'', ''skip_output'']"]
  by (simp add: line_ok_def RTrim_eq blanks_def)

text \<open>With a history file that exists but is empty, the first command entered reads the element before
  the beginning of the empty history: typing one letter and pressing Enter is undefined behaviour.\<close>

theorem empty_history_faults:
  assumes "isprint k" "k \<noteq> CHR '' ''"
  shows "\<exists>c. readLine k b0 b1 len (new_CmdLine prompt_cstr (Some []) key) = Some ([], c) \<and> cmd c = [k] \<and>
    readLine newline b0 b1 len c = None"
proof -
  let ?c = "new_CmdLine prompt_cstr (Some []) key"
  have k: "k \<noteq> newline" "k \<noteq> CHR 0x09" "k \<noteq> CHR 0x7F" "k \<noteq> CHR 0x08" "k \<noteq> CHR 0x1B"
    "k \<noteq> CHR 0x0D"
    using assms(1) by (auto simp: isprint_def newline_def)
  have f: "history ?c = []" "cmd ?c = []" "m_index ?c = 0"
    by (simp_all add: new_CmdLine_eq readHistory_def history_loop_nil Let_def)
  obtain d where d: "key_insert k ?c = Some d" "cmd d = [k]" "history d = []"
    using f by (simp add: key_insert_def Let_def substr_from_def Left_def)
  define c where "c = d\<lparr>last_key := key_code k\<rparr>"
  have c: "cmd c = [k]" "history c = []" using d by (simp_all add: c_def)
  have "readLine k b0 b1 len ?c = Some ([], c)"
    using k assms(1) d(1) by (simp add: readLine_def c_def)
  moreover have "k \<notin> set blanks" using assms(2) k by (simp add: blanks_def newline_def)
  then have "strip [k] = [k]" using assms(2) by (simp add: strip_def find_first_not_of_def Let_def RTrim_eq)
  then have "readLine newline b0 b1 len c = None"
    using c by (simp add: readLine_def key_enter_def Let_def)
  ultimately show ?thesis using c(1) by blast
qed

lemma empty_history_faults_witness:
  "\<exists>c. readLine (CHR ''h'') (CHR 0x00) (CHR 0x00) 1 (new_CmdLine ''logger test > '' (Some []) 0) = Some ([], c) \<and> cmd c = ''h'' \<and>
    readLine newline (CHR 0x00) (CHR 0x00) 1 c = None"
  by (rule empty_history_faults) (simp_all add: isprint_def)

end
