(* ===== verification/Console.thy ===== *)
theory Console
  imports Cmd_Line
begin

text \<open>
  What the bytes written by the command line look like on a terminal, and the thread that reads
  commands (\<^verbatim>\<open>CmdLineProcess\<close> in \<^verbatim>\<open>logger_test.cpp\<close>): every key leaves the line on the terminal in step
  with the editing state.
\<close>

section \<open>The terminal\<close>

text \<open>
  The line the cursor is on. The terminal is a parameter: what the command line relies on is how it shows
  printable characters, backspaces and newlines. A printable character overwrites the one under the
  cursor, a backspace moves left when the cursor is not at the margin, and a newline (which the terminal driver sends
  as carriage return and line feed) starts an empty line. The terminal is wide enough for the line. Nothing is said of
  any other character.
\<close>

record screen =
  sline :: string
  scol :: nat

locale terminal =
  fixes put_char :: "char \<Rightarrow> screen \<Rightarrow> screen"
  assumes put_newline: "put_char newline t = \<lparr>sline = [], scol = 0\<rparr>"
    and put_backspace: "0 < scol t \<Longrightarrow> put_char backspace_char t = t\<lparr>scol := scol t - 1\<rparr>"
    and put_print: "isprint ch \<Longrightarrow> scol t \<le> length (sline t) \<Longrightarrow>
      put_char ch t = \<lparr>sline = take (scol t) (sline t) @ ch # drop (Suc (scol t)) (sline t), scol = Suc (scol t)\<rparr>"

definition disp :: "(char \<Rightarrow> screen \<Rightarrow> screen) \<Rightarrow> string \<Rightarrow> screen \<Rightarrow> screen" where
  "disp put_char s t = fold put_char s t"

definition clean :: "string \<Rightarrow> bool" where
  "clean s \<longleftrightarrow> (\<forall>ch \<in> set s. isprint ch)"

definition sp :: "nat \<Rightarrow> string" where
  "sp n = replicate n (CHR '' '')"

lemma isprint_blank [simp]: "isprint (CHR '' '')" "\<not> isprint newline" "\<not> isprint backspace_char"
  by (simp_all add: isprint_def newline_def backspace_char_def)

lemma clean_simps [simp]: "clean []" "clean (a @ b) \<longleftrightarrow> clean a \<and> clean b" "clean (sp n)"
  "clean (ch # s) \<longleftrightarrow> isprint ch \<and> clean s"
  by (auto simp: clean_def sp_def)

lemma clean_take_drop: "clean s \<Longrightarrow> clean (take n s)" "clean s \<Longrightarrow> clean (drop n s)"
  by (auto simp: clean_def dest: in_set_takeD in_set_dropD)

text \<open>
  What the terminal shows: after the output of \<open>c\<close>, a terminal that was in state \<open>start\<close> shows the prompt
  and the command, with blanks behind, and the cursor at the editing position.
\<close>

definition on_screen :: "(char \<Rightarrow> screen \<Rightarrow> screen) \<Rightarrow> screen \<Rightarrow> CmdLine \<Rightarrow> screen" where
  "on_screen put_char start c = disp put_char (out_fd c) start"

definition displays :: "(char \<Rightarrow> screen \<Rightarrow> screen) \<Rightarrow> screen \<Rightarrow> CmdLine \<Rightarrow> bool" where
  "displays put_char start c \<longleftrightarrow>
     (\<exists>k. on_screen put_char start c =
        \<lparr>sline = prompt c @ cmd c @ sp k, scol = length (prompt c) + m_index c\<rparr>)"

text \<open>The line is blank and the cursor behind the prompt.\<close>

definition blanked :: "(char \<Rightarrow> screen \<Rightarrow> screen) \<Rightarrow> screen \<Rightarrow> CmdLine \<Rightarrow> bool" where
  "blanked put_char start c \<longleftrightarrow>
     (\<exists>k. on_screen put_char start c = \<lparr>sline = prompt c @ sp k, scol = length (prompt c)\<rparr>)"

definition line_inv :: "CmdLine \<Rightarrow> bool" where
  "line_inv c \<longleftrightarrow> clean (prompt c) \<and> clean (cmd c) \<and> clean (cmd_buffer c) \<and>
     (\<forall>h \<in> set (history c). clean h) \<and> (\<forall>h \<in> set (hints c). clean h) \<and> plain_hints (hints c) \<and>
     history c \<noteq> [] \<and> curr c \<le> length (history c) \<and> m_index c \<le> length (cmd c)"

section \<open>Every key keeps the display right\<close>

context terminal
begin

lemma disp_append [simp]: "disp put_char (a @ b) t = disp put_char b (disp put_char a t)"
  by (simp add: disp_def)

lemma disp_nil [simp]: "disp put_char [] t = t"
  by (simp add: disp_def)

text \<open>Text written at the end of \<open>a\<close> overwrites what follows.\<close>

lemma disp_text:
  "clean w \<Longrightarrow> disp put_char w \<lparr>sline = a @ b, scol = length a\<rparr> =
    \<lparr>sline = a @ w @ drop (length w) b, scol = length a + length w\<rparr>"
proof (induction w arbitrary: a b)
  case (Cons c w)
  have "disp put_char (c # w) \<lparr>sline = a @ b, scol = length a\<rparr> =
      disp put_char w \<lparr>sline = (a @ [c]) @ drop 1 b, scol = length (a @ [c])\<rparr>"
    using Cons.prems by (simp add: disp_def put_print)
  also have "\<dots> = \<lparr>sline = (a @ [c]) @ w @ drop (length w) (drop 1 b), scol = length (a @ [c]) + length w\<rparr>"
    using Cons.prems by (intro Cons.IH) simp
  finally show ?case by simp
qed simp

lemma disp_backspaces: "n \<le> scol t \<Longrightarrow> disp put_char (replicate n backspace_char) t = t\<lparr>scol := scol t - n\<rparr>"
  by (induction n arbitrary: t) (simp_all add: disp_def put_backspace)

lemma disp_newline: "disp put_char (w @ [newline]) t = \<lparr>sline = [], scol = 0\<rparr>"
  by (simp add: disp_def put_newline)

lemma on_screen_writeLine: "on_screen put_char start (writeLine w c) = disp put_char w (on_screen put_char start c)"
  by (simp add: on_screen_def writeLine_def)

lemma sp_add: "sp m @ sp n = sp (m + n)"
  by (simp add: sp_def replicate_add)

lemma length_sp [simp]: "length (sp n) = n"
  by (simp add: sp_def)

lemma drop_sp: "drop n (sp k) = sp (k - n)"
  by (simp add: sp_def)

lemma clearLine_blanks:
  assumes "displays put_char start c" "m_index c \<le> length (cmd c)"
  shows "blanked put_char start (clearLine c)"
proof -
  let ?P = "prompt c" and ?m = "m_index c"
  define r where "r = length (cmd c) - ?m"
  obtain k where k: "on_screen put_char start c = \<lparr>sline = ?P @ cmd c @ sp k, scol = length ?P + ?m\<rparr>"
    using assms(1) by (auto simp: displays_def)
  have split: "?P @ cmd c @ sp k = (?P @ take ?m (cmd c)) @ drop ?m (cmd c) @ sp k"
    "length ?P + ?m = length (?P @ take ?m (cmd c))"
    using assms(2) by simp_all
  have rm: "on_screen put_char start (Left r (Space r c)) =
      \<lparr>sline = ?P @ take ?m (cmd c) @ sp (r + k), scol = length ?P + ?m\<rparr>"
    unfolding Left_def Space_def on_screen_writeLine k split sp_def [symmetric]
    using assms(2)
    by (subst disp_text) (simp_all add: disp_backspaces r_def sp_add)
  have "on_screen put_char start (clearLine c) =
      disp put_char (replicate ?m backspace_char) (disp put_char (sp ?m) (disp put_char (replicate ?m backspace_char)
        \<lparr>sline = ?P @ take ?m (cmd c) @ sp (r + k), scol = length ?P + ?m\<rparr>))"
    using rm
    by (simp add: clearLine_def backSpace_def Let_def Left_def Space_def on_screen_writeLine
        r_def [symmetric] sp_def)
  also have "disp put_char (replicate ?m backspace_char)
      \<lparr>sline = ?P @ take ?m (cmd c) @ sp (r + k), scol = length ?P + ?m\<rparr> =
      \<lparr>sline = ?P @ take ?m (cmd c) @ sp (r + k), scol = length ?P\<rparr>"
    by (simp add: disp_backspaces)
  also have "disp put_char (sp ?m) \<dots> = \<lparr>sline = ?P @ sp (?m + (r + k)), scol = length ?P + ?m\<rparr>"
    using assms(2) by (subst disp_text) (simp_all add: sp_add)
  finally show ?thesis
    by (auto simp: blanked_def disp_backspaces)
qed

text \<open>Writing a line into the blank one and moving back from its end.\<close>

lemma writeLine_displays:
  assumes "blanked put_char start c" "clean w" "n \<le> length w"
  shows "displays put_char start ((Left n (writeLine w c))\<lparr>cmd := w, m_index := length w - n\<rparr>)"
proof -
  obtain k where k: "on_screen put_char start c = \<lparr>sline = prompt c @ sp k, scol = length (prompt c)\<rparr>"
    using assms(1) by (auto simp: blanked_def)
  have "on_screen put_char start (Left n (writeLine w c)) =
      \<lparr>sline = prompt c @ w @ sp (k - length w), scol = length (prompt c) + (length w - n)\<rparr>"
    unfolding Left_def on_screen_writeLine k disp_text [OF assms(2)]
    using assms(3) by (simp add: disp_backspaces drop_sp)
  then show ?thesis
    by (auto simp: displays_def on_screen_def Left_def)
qed

lemma writeLine_displays_end:
  assumes "blanked put_char start c" "clean w"
  shows "displays put_char start ((writeLine w c)\<lparr>cmd := w, m_index := length w\<rparr>)"
  using writeLine_displays [OF assms, of 0] by (simp add: Left_def writeLine_def)

lemma displays_cong:
  assumes "displays put_char start c" "prompt c' = prompt c" "cmd c' = cmd c" "m_index c' = m_index c"
    "out_fd c' = out_fd c"
  shows "displays put_char start c'"
  using assms by (simp add: displays_def on_screen_def)

lemma blanked_cong:
  assumes "blanked put_char start c" "prompt c' = prompt c" "out_fd c' = out_fd c"
  shows "blanked put_char start c'"
  using assms by (simp add: blanked_def on_screen_def)

lemma common_str_clean:
  assumes "\<forall>h \<in> set M. i + n \<le> length h \<and> clean h" "M \<noteq> []"
  shows "clean (common_str M i n)"
proof -
  have "take (length (common_str M i n)) (drop i (hd M)) = common_str M i n"
    using common_str_prefix [of M i n] assms by simp
  moreover have "clean (hd M)" using assms by simp
  ultimately show ?thesis by (metis clean_take_drop)
qed

text \<open>Every key keeps the display right.\<close>

lemma clean_subset: "clean s \<Longrightarrow> set t \<subseteq> set s \<Longrightarrow> clean t"
  by (auto simp: clean_def)

lemma set_RTrim: "set (RTrim s) \<subseteq> set s"
  by (simp add: RTrim_def set_take_subset)

lemma clean_strip: "clean s \<Longrightarrow> clean (strip s)"
proof -
  assume "clean s"
  moreover have "set (strip s) \<subseteq> set s"
    using set_RTrim by (auto simp: strip_def split: option.splits dest!: set_RTrim [THEN subsetD] dest: in_set_dropD)
  ultimately show ?thesis by (rule clean_subset)
qed

lemma key_enter_ok:
  assumes "line_inv c"
  shows "\<exists>res c'. key_enter c = Some (res, c') \<and> line_inv c' \<and> prompt c' = prompt c \<and> cmd c' = [] \<and>
    m_index c' = 0 \<and> res = strip (cmd c) \<and>
    (if res = [] then displays put_char start c' else on_screen put_char start c' = \<lparr>sline = [], scol = 0\<rparr>)"
proof -
  let ?c = "(writeLine [newline] c)\<lparr>cmd := strip (cmd c)\<rparr>"
  have nl: "on_screen put_char start (writeLine [newline] c) = \<lparr>sline = [], scol = 0\<rparr>"
    using disp_newline [of "[]"] by (simp add: on_screen_writeLine)
  have cl: "clean (strip (cmd c))" "clean (prompt c)" "history c \<noteq> []"
    using assms clean_strip by (simp_all add: line_inv_def)
  show ?thesis
  proof (cases "strip (cmd c) = []")
    case True
    let ?d = "(writeLine (prompt c) ?c)\<lparr>cmd := [], cmd_buffer := [], m_index := 0\<rparr>"
    have "on_screen put_char start ?d = disp put_char (prompt c) (on_screen put_char start (writeLine [newline] c))"
      by (simp add: on_screen_def writeLine_def disp_def)
    also have "\<dots> = \<lparr>sline = prompt c, scol = length (prompt c)\<rparr>"
      using disp_text [OF cl(2), of "[]" "[]"] by (simp add: nl)
    finally have "displays put_char start ?d"
      unfolding displays_def by (intro exI [of _ 0]) (simp add: sp_def)
    then show ?thesis
      using True assms by (simp add: key_enter_def Let_def line_inv_def)
  next
    case False
    define h where "h = (if last (history c) \<noteq> strip (cmd c) \<and> strip (cmd c) \<noteq> ''exit''
      then history c @ [strip (cmd c)] else history c)"
    let ?d = "?c\<lparr>history := h, curr := length h, cmd := [], cmd_buffer := [], m_index := 0\<rparr>"
    have "key_enter c = Some (strip (cmd c), ?d)"
      using False cl(3) by (auto simp: key_enter_def Let_def h_def)
    moreover have "on_screen put_char start ?d = \<lparr>sline = [], scol = 0\<rparr>"
      using nl by (simp add: on_screen_def)
    moreover have "line_inv ?d"
      using assms cl(1) by (auto simp: line_inv_def h_def)
    ultimately show ?thesis using False by simp
  qed
qed

text \<open>A completion consists of characters of the hints.\<close>

lemma completion_clean:
  assumes "\<forall>h \<in> set (hints c). clean h"
  defines "M \<equiv> filter (extends (cmd c)) (hints c)"
  shows "clean (if length M < 2 then [] else common_str M (length (cmd c))
    (fold (\<lambda>h m. min (length h) m) M 65535 - length (cmd c)))"
proof (cases "length M < 2")
  case False
  let ?n = "fold (\<lambda>h m. min (length h) m) M 65535 - length (cmd c)"
  have "length (cmd c) + ?n \<le> length h \<and> clean h" if h: "h \<in> set M" for h
  proof -
    have "fold (\<lambda>h m. min (length h) m) M 65535 \<le> length h" using h by (rule fold_min_le(2))
    moreover have "length (cmd c) < length h" using h by (simp add: M_def extends_def)
    ultimately show ?thesis using h assms(1) by (simp add: M_def)
  qed
  moreover have "M \<noteq> []" using False by auto
  ultimately show ?thesis using False by (simp add: common_str_clean)
qed simp

text \<open>The line with the matches, then the prompt and the extended command.\<close>

lemma list_matches_ok:
  fixes p :: string
  assumes "line_inv c" "clean a"
  defines "c1 \<equiv> writeLine (prompt c) (writeLine ([newline] @ p @ [newline]) c)"
  defines "c2 \<equiv> writeLine (cmd c @ a) (c1\<lparr>cmd := cmd c @ a, m_index := length (cmd c @ a)\<rparr>)"
  shows "line_inv c2 \<and> prompt c2 = prompt c \<and> displays put_char start c2"
proof -
  have cl: "clean (prompt c)" "clean (cmd c)" using assms(1) by (simp_all add: line_inv_def)
  have "on_screen put_char start c1 = \<lparr>sline = prompt c, scol = length (prompt c)\<rparr>"
    using disp_newline [of "[newline] @ p"] disp_text [OF cl(1), of "[]" "[]"]
    by (simp add: c1_def on_screen_writeLine)
  then have "blanked put_char start c1" by (auto simp: blanked_def sp_def c1_def intro: exI [of _ 0])
  then have "displays put_char start ((writeLine (cmd c @ a) c1)\<lparr>cmd := cmd c @ a, m_index := length (cmd c @ a)\<rparr>)"
    using cl(2) assms(2) by (intro writeLine_displays_end) simp_all
  then have "displays put_char start c2" by (rule displays_cong) (simp_all add: writeLine_def c2_def)
  then show ?thesis using assms(1,2) by (simp add: line_inv_def c2_def c1_def)
qed

lemma replace_line_ok:
  assumes "line_inv c" "displays put_char start c" "clean p"
  shows "line_inv ((writeLine p (clearLine c))\<lparr>cmd := p, m_index := length p\<rparr>)"
    "displays put_char start ((writeLine p (clearLine c))\<lparr>cmd := p, m_index := length p\<rparr>)"
  using assms clearLine_blanks [OF assms(2)] writeLine_displays_end [of start "clearLine c" p]
  by (simp_all add: line_inv_def)

lemma key_tab_ok:
  assumes "line_inv c" "displays put_char start c"
  shows "\<exists>c'. key_tab c = Some c' \<and> line_inv c' \<and> prompt c' = prompt c \<and> displays put_char start c'"
proof (cases "cmd c = []")
  case True
  then show ?thesis using assms by (simp add: key_tab_def compareHints_def)
next
  case False
  let ?M = "filter (extends (cmd c)) (hints c)"
  have inv: "plain_hints (hints c)" "\<forall>h \<in> set (hints c). clean h" using assms(1) by (simp_all add: line_inv_def)
  obtain p a where p: "compareHints c [] [] = Some (length ?M, p, a)" "\<forall>h. ?M = [h] \<longrightarrow> p = h @ '' ''" "clean a"
    using compareHints_plain [OF inv(1) False] completion_clean [OF inv(2)] by blast
  consider "length ?M > 1 \<and> last_key c = key_code (CHR 0x09)" | "length ?M = 1"
    | "length ?M \<noteq> 1" "\<not> (length ?M > 1 \<and> last_key c = key_code (CHR 0x09))" by blast
  then show ?thesis
  proof cases
    case 1
    then show ?thesis using p(1) list_matches_ok [OF assms(1) p(3), of p start] by (simp add: key_tab_def Let_def)
  next
    case 2
    then obtain h where h: "?M = [h]" by (auto simp: length_Suc_conv)
    have "set ?M \<subseteq> set (hints c)" by (rule filter_is_subset)
    then have "h \<in> set (hints c)" unfolding h by simp
    then have "clean p" using inv(2) p(2) [rule_format, OF h] by simp
    let ?d = "(writeLine p (clearLine c))\<lparr>cmd := p, m_index := length p\<rparr>"
    have "key_tab c = Some (?d\<lparr>last_key := 0\<rparr>)" using p(1) 2 by (simp add: key_tab_def Let_def)
    then show ?thesis
      using replace_line_ok [OF assms \<open>clean p\<close>] displays_cong [of start ?d "?d\<lparr>last_key := 0\<rparr>"]
      by (simp add: line_inv_def)
  next
    case 3
    then have "key_tab c = Some c" using p(1) by (auto simp: key_tab_def)
    then show ?thesis using assms by simp
  qed
qed

lemma show_history_ok:
  assumes "line_inv c" "displays put_char start c" "curr c < length (history c)"
  shows "\<exists>c'. show_history c = Some c' \<and> line_inv c' \<and> prompt c' = prompt c \<and> displays put_char start c'"
proof -
  let ?e = "history c ! curr c"
  let ?d = "(writeLine ?e (clearLine c))\<lparr>cmd := ?e, m_index := length ?e\<rparr>"
  have "clean ?e" using assms(1,3) by (simp add: line_inv_def)
  moreover have "blanked put_char start (clearLine c)"
    using clearLine_blanks [OF assms(2)] assms(1) by (simp add: line_inv_def)
  ultimately have "displays put_char start ?d" by (intro writeLine_displays_end)
  moreover have "show_history c = Some ?d"
    using assms(3) by (simp add: show_history_def Let_def mem_get_in)
  moreover have "line_inv ?d" using assms(1) \<open>clean ?e\<close> by (simp add: line_inv_def)
  ultimately show ?thesis by simp
qed

lemma displays_curr: "displays put_char start (c\<lparr>curr := n\<rparr>) = displays put_char start c"
  by (simp add: displays_def on_screen_def)

lemma line_inv_curr: "line_inv c \<Longrightarrow> n \<le> length (history c) \<Longrightarrow> line_inv (c\<lparr>curr := n\<rparr>)"
  by (simp add: line_inv_def)

lemma key_up_ok:
  assumes "line_inv c" "displays put_char start c"
  shows "\<exists>c'. key_up c = Some c' \<and> line_inv c' \<and> prompt c' = prompt c \<and> displays put_char start c'"
proof -
  define n where "n = (if curr c = 0 then 0
    else if history c ! (curr c - 1) = cmd c \<and> curr c - 1 \<noteq> 0 then curr c - 1 - 1 else curr c - 1)"
  have h: "history c \<noteq> []" "curr c \<le> length (history c)" using assms(1) by (simp_all add: line_inv_def)
  then have pos: "0 < length (history c)" by simp
  have n: "n < length (history c)" using h(2) pos by (auto simp: n_def)
  have "show_history (c\<lparr>curr := 0\<rparr>) = show_history c" if "curr c = 0" using that by (cases c) simp
  then have "key_up c = show_history (c\<lparr>curr := n\<rparr>)"
    using h by (cases "curr c = 0") (auto simp: key_up_def n_def Let_def mem_get_def)
  then show ?thesis
    using show_history_ok [of "c\<lparr>curr := n\<rparr>" start] assms n
    by (simp add: displays_curr line_inv_curr)
qed

lemma key_down_ok:
  assumes "line_inv c" "displays put_char start c"
  shows "\<exists>c'. key_down c = Some c' \<and> line_inv c' \<and> prompt c' = prompt c \<and> displays put_char start c'"
proof -
  have h: "history c \<noteq> []" "curr c \<le> length (history c)" using assms(1) by (simp_all add: line_inv_def)
  consider "curr c = length (history c)" | "curr c \<noteq> length (history c)" "curr c = length (history c) - 1"
    | "curr c + 1 < length (history c)"
    using h(2) by linarith
  then show ?thesis
  proof cases
    case 1
    then show ?thesis using assms by (simp add: key_down_def)
  next
    case 2
    have le: "Suc (curr c) \<le> length (history c)" using 2 h by simp
    show ?thesis
    proof (cases "cmd_buffer c = []")
      case True
      then have "key_down c = Some (c\<lparr>curr := curr c + 1\<rparr>)" using 2 by (simp add: key_down_def Let_def)
      then show ?thesis using assms le by (simp add: displays_curr line_inv_curr)
    next
      case False
      let ?d = "(writeLine (cmd_buffer c) (clearLine c))\<lparr>cmd := cmd_buffer c, m_index := length (cmd_buffer c)\<rparr>"
      have "key_down c = Some (?d\<lparr>curr := curr c + 1\<rparr>)" using 2 False by (simp add: key_down_def Let_def)
      moreover have "displays put_char start ?d"
        using clearLine_blanks [OF assms(2)] assms(1)
        by (intro writeLine_displays_end) (simp_all add: line_inv_def)
      moreover have "line_inv ?d" using assms(1) by (simp add: line_inv_def)
      ultimately show ?thesis using le line_inv_curr [of ?d "curr c + 1"]
          displays_curr [where start = start and c = ?d]
        by simp
    qed
  next
    case 3
    then have "curr c \<noteq> length (history c)" "curr c \<noteq> length (history c) - 1" by auto
    then have "key_down c = show_history (c\<lparr>curr := curr c + 1\<rparr>)" by (simp add: key_down_def)
    then show ?thesis
      using show_history_ok [of "c\<lparr>curr := curr c + 1\<rparr>" start] assms 3
      by (simp add: displays_curr line_inv_curr)
  qed
qed

lemma key_left_ok:
  assumes "line_inv c" "displays put_char start c" "0 < m_index c"
  shows "line_inv (key_left c) \<and> prompt (key_left c) = prompt c \<and> displays put_char start (key_left c)"
proof -
  have "1 \<le> scol (on_screen put_char start c)" using assms(2,3) by (auto simp: displays_def)
  from disp_backspaces [OF this] have "on_screen put_char start (key_left c) =
      (on_screen put_char start c)\<lparr>scol := scol (on_screen put_char start c) - 1\<rparr>"
    by (simp add: key_left_def on_screen_def writeLine_def disp_def)
  then show ?thesis
    using assms by (auto simp: displays_def key_left_def line_inv_def)
qed

lemma key_right_ok:
  assumes "line_inv c" "displays put_char start c" "m_index c < length (cmd c)"
  shows "line_inv (key_right c) \<and> prompt (key_right c) = prompt c \<and> displays put_char start (key_right c)"
proof -
  let ?m = "m_index c" and ?P = "prompt c"
  obtain k where k: "on_screen put_char start c = \<lparr>sline = ?P @ cmd c @ sp k, scol = length ?P + ?m\<rparr>"
    using assms(2) by (auto simp: displays_def)
  have split: "?P @ cmd c @ sp k = (?P @ take ?m (cmd c)) @ drop ?m (cmd c) @ sp k"
    "length ?P + ?m = length (?P @ take ?m (cmd c))"
    using assms(3) by simp_all
  have d: "drop ?m (cmd c) = cmd c ! ?m # drop (Suc ?m) (cmd c)"
    using assms(3) by (simp add: Cons_nth_drop_Suc)
  have "clean [cmd c ! ?m]"
    using assms(1,3) by (intro clean_subset [of "cmd c" "[cmd c ! ?m]"]) (simp_all add: line_inv_def)
  then have "on_screen put_char start (key_right c) =
      \<lparr>sline = (?P @ take ?m (cmd c)) @ [cmd c ! ?m] @ drop 1 (drop ?m (cmd c) @ sp k),
       scol = length (?P @ take ?m (cmd c)) + 1\<rparr>"
    using disp_text [of "[cmd c ! ?m]" "?P @ take ?m (cmd c)" "drop ?m (cmd c) @ sp k"] k
    unfolding split by (simp add: key_right_def on_screen_def writeLine_def)
  also have "\<dots> = \<lparr>sline = ?P @ cmd c @ sp k, scol = length ?P + Suc ?m\<rparr>"
    using assms(3) append_take_drop_id [of ?m "cmd c"] unfolding d by simp
  finally show ?thesis
    using assms(1,3) by (auto simp: displays_def key_right_def line_inv_def)
qed

lemma key_insert_ok:
  assumes "line_inv c" "displays put_char start c" "isprint k"
  shows "\<exists>c'. key_insert k c = Some c' \<and> line_inv c' \<and> prompt c' = prompt c \<and> displays put_char start c'"
proof -
  let ?m = "m_index c"
  let ?w = "take ?m (cmd c) @ k # drop ?m (cmd c)"
  have m: "?m \<le> length (cmd c)" and cm: "clean (cmd c)" using assms(1) by (simp_all add: line_inv_def)
  have "clean ?w" using cm assms(3) by (auto simp: clean_take_drop)
  let ?d = "(Left (length (cmd c) - ?m) (writeLine ?w (clearLine c)))\<lparr>cmd := ?w, cmd_buffer := ?w, m_index := Suc ?m\<rparr>"
  have "displays put_char start ((Left (length (cmd c) - ?m) (writeLine ?w (clearLine c)))
      \<lparr>cmd := ?w, m_index := length ?w - (length (cmd c) - ?m)\<rparr>)"
    using clearLine_blanks [OF assms(2) m] \<open>clean ?w\<close> by (rule writeLine_displays) simp
  then have "displays put_char start ?d" by (rule displays_cong) (use m in \<open>simp_all add: Left_def writeLine_def\<close>)
  moreover have "key_insert k c = Some ?d"
  proof -
    define d where "d = clearLine c"
    have "cmd d = cmd c" "m_index d = ?m" by (simp_all add: d_def)
    with m show ?thesis unfolding key_insert_def d_def [symmetric]
      by (cases d) (simp add: substr_from_def Left_def writeLine_def)
  qed
  moreover have "line_inv ?d" using assms(1) \<open>clean ?w\<close> by (simp add: line_inv_def Left_def)
  ultimately show ?thesis by (simp add: Left_def)
qed

lemma key_backspace_ok:
  assumes "line_inv c" "displays put_char start c"
  shows "\<exists>c'. key_backspace c = Some c' \<and> line_inv c' \<and> prompt c' = prompt c \<and> displays put_char start c'"
proof (cases "m_index c")
  case 0
  then show ?thesis using assms by (simp add: key_backspace_def)
next
  case (Suc m)
  let ?w = "take m (cmd c) @ drop (Suc m) (cmd c)"
  have m: "Suc m \<le> length (cmd c)" "m_index c \<le> length (cmd c)" and cm: "clean (cmd c)"
    using assms(1) Suc by (simp_all add: line_inv_def)
  have "clean ?w" using cm by (simp add: clean_take_drop)
  let ?d = "(Left (length (cmd c) - Suc m) (writeLine ?w (clearLine c)))\<lparr>cmd := ?w, m_index := m\<rparr>"
  have "displays put_char start ((Left (length (cmd c) - Suc m) (writeLine ?w (clearLine c)))
      \<lparr>cmd := ?w, m_index := length ?w - (length (cmd c) - Suc m)\<rparr>)"
    using clearLine_blanks [OF assms(2) m(2)] \<open>clean ?w\<close> by (rule writeLine_displays) simp
  then have "displays put_char start ?d" by (rule displays_cong) (use m in \<open>simp_all add: Left_def writeLine_def\<close>)
  moreover have "key_backspace c = Some ?d"
  proof -
    define d where "d = clearLine c"
    have "cmd d = cmd c" "m_index d = Suc m" using Suc by (simp_all add: d_def)
    with m Suc show ?thesis unfolding key_backspace_def d_def [symmetric]
      by (cases d) (simp add: substr_from_def Left_def writeLine_def)
  qed
  moreover have "line_inv ?d" using assms(1) \<open>clean ?w\<close> m(1) by (simp add: line_inv_def Left_def)
  ultimately show ?thesis by (simp add: Left_def)
qed

end

section \<open>The command thread\<close>

text \<open>
  One round of the loop of \<^verbatim>\<open>CmdLineProcess\<close> in \<^verbatim>\<open>logger_test.cpp\<close>: a key is read; a finished command
  is carried out and the prompt is printed again.
\<close>

record Console =
  cmd_line :: CmdLine
  StopRunning :: bool
  SkipOutput :: bool

type_synonym key = "char \<times> char \<times> char \<times> int"

definition CmdLineProcess :: "Rte \<Rightarrow> key \<Rightarrow> Console \<Rightarrow> Console option" where
  "CmdLineProcess GlobalRte key s =
     (if StopRunning s then Some s
      else case key of (k, b0, b1, len) \<Rightarrow> do {
        (cm, c) \<leftarrow> readLine k b0 b1 len (cmd_line s);
        let s = s\<lparr>cmd_line := c\<rparr>;
        if length cm > 0 then
          (if cm = ''stop'' then Some (s\<lparr>StopRunning := True\<rparr>)
           else let s = (if cm = ''core_num''
                  then s\<lparr>cmd_line := writeLine (show_int (core_num GlobalRte) @ '' '' @ [newline]) (cmd_line s)\<rparr>
                  else if cm = ''skip_output'' then s\<lparr>SkipOutput := True\<rparr>
                  else if cm = ''no_skip_output'' then s\<lparr>SkipOutput := False\<rparr> else s)
             in Some (s\<lparr>cmd_line := writeLine ''logger test > '' (cmd_line s)\<rparr>))
        else Some s })"

fun console_run :: "Rte \<Rightarrow> key list \<Rightarrow> Console \<Rightarrow> Console option" where
  "console_run n [] s = Some s"
| "console_run n (k # ks) s = do { s \<leftarrow> CmdLineProcess n k s; console_run n ks s }"

text \<open>Keys that \<open>readLine\<close> has a branch for; for any other byte it prints a debugging line.\<close>

fun handled :: "key \<Rightarrow> bool" where
  "handled (k, b0, b1, len) \<longleftrightarrow> k \<in> {newline, CHR 0x09, CHR 0x7F, CHR 0x08, CHR 0x1B} \<or> isprint k"

definition idle_screen :: "(char \<Rightarrow> screen \<Rightarrow> screen) \<Rightarrow> screen \<Rightarrow> CmdLine \<Rightarrow> bool" where
  "idle_screen put_char start c \<longleftrightarrow> on_screen put_char start c = \<lparr>sline = [], scol = 0\<rparr> \<and> cmd c = [] \<and> m_index c = 0"

text \<open>What a key may do to the line, where \<open>readLine\<close> ends by storing the key.\<close>

definition key_result :: "(char \<Rightarrow> screen \<Rightarrow> screen) \<Rightarrow> screen \<Rightarrow> CmdLine \<Rightarrow> (string \<times> CmdLine) option \<Rightarrow> bool" where
  "key_result put_char start c x \<longleftrightarrow> (\<exists>res c'. x = Some (res, c') \<and> line_inv c' \<and> prompt c' = prompt c \<and>
     (if res = [] then displays put_char start c' else idle_screen put_char start c'))"

definition store_key :: "char \<Rightarrow> string \<Rightarrow> CmdLine \<Rightarrow> string \<times> CmdLine" where
  "store_key k res c = (res, c\<lparr>last_key := key_code k\<rparr>)"

definition app_prompt :: string where "app_prompt = ''logger test > ''"

definition console_ok :: "(char \<Rightarrow> screen \<Rightarrow> screen) \<Rightarrow> screen \<Rightarrow> Console \<Rightarrow> bool" where
  "console_ok put_char start s \<longleftrightarrow> line_inv (cmd_line s) \<and> prompt (cmd_line s) = app_prompt \<and>
     (StopRunning s \<or> displays put_char start (cmd_line s))"

context terminal
begin

lemma displays_last_key: "displays put_char start (c\<lparr>last_key := n\<rparr>) = displays put_char start c"
  by (simp add: displays_def on_screen_def)

lemma line_inv_last_key: "line_inv (c\<lparr>last_key := n\<rparr>) = line_inv c"
  by (simp add: line_inv_def)

lemma idle_screen_last_key: "idle_screen put_char start (c\<lparr>last_key := n\<rparr>) = idle_screen put_char start c"
  by (simp add: idle_screen_def on_screen_def)

lemma key_resultI:
  assumes "line_inv d" "prompt d = prompt c" "if res = [] then displays put_char start d else idle_screen put_char start d"
  shows "key_result put_char start c (Some (store_key k res d))"
  using assms by (simp add: key_result_def store_key_def displays_last_key line_inv_last_key idle_screen_last_key)

lemma key_result_option:
  assumes "\<exists>d. e = Some d \<and> line_inv d \<and> prompt d = prompt c \<and> displays put_char start d"
  shows "key_result put_char start c (map_option (store_key k []) e)"
  using assms key_resultI [of _ c "[]" start k] by auto

lemma readLine_escape:
  assumes "line_inv c" "displays put_char start c"
  shows "key_result put_char start c (readLine (CHR 0x1B) b0 b1 len c)"
proof -
  let ?s = "store_key (CHR 0x1B)"
  have r: "readLine (CHR 0x1B) b0 b1 len c =
    (if b0 = CHR 0x5B \<and> b1 = CHR 0x41 \<and> length (history c) > 0 then map_option (?s []) (key_up c)
     else if b0 = CHR 0x5B \<and> b1 = CHR 0x42 \<and> length (history c) > 0 then map_option (?s []) (key_down c)
     else if b0 = CHR 0x5B \<and> b1 = CHR 0x44 \<and> m_index c > 0 then Some (?s [] (key_left c))
     else if b0 = CHR 0x5B \<and> b1 = CHR 0x43 \<and> m_index c < length (cmd c) then Some (?s [] (key_right c))
     else Some (?s [] c))"
    unfolding readLine_def store_key_def
    by (cases "key_up c"; cases "key_down c") (simp_all add: newline_def)
  have "key_result put_char start c (map_option (?s []) (key_up c))" "key_result put_char start c (map_option (?s []) (key_down c))"
    using key_up_ok [OF assms] key_down_ok [OF assms] by (simp_all add: key_result_option)
  moreover have "key_result put_char start c (Some (?s [] (key_left c)))" if "m_index c > 0"
    using key_left_ok [OF assms that] by (intro key_resultI) simp_all
  moreover have "key_result put_char start c (Some (?s [] (key_right c)))" if "m_index c < length (cmd c)"
    using key_right_ok [OF assms that] by (intro key_resultI) simp_all
  moreover have "key_result put_char start c (Some (?s [] c))" using assms by (intro key_resultI) simp_all
  ultimately show ?thesis unfolding r by (simp only: split: if_split) blast
qed

lemma readLine_ok:
  assumes "line_inv c" "displays put_char start c" "handled (k, b0, b1, len)"
  shows "key_result put_char start c (readLine k b0 b1 len c)"
proof -
  consider "k = newline" | "k = CHR 0x09" | "k = CHR 0x7F \<or> k = CHR 0x08" | "k = CHR 0x1B"
    | "isprint k" "k \<notin> {newline, CHR 0x09, CHR 0x7F, CHR 0x08, CHR 0x1B}"
    using assms(3) by auto
  then show ?thesis
  proof cases
    case 1
    obtain res c' where e: "key_enter c = Some (res, c')" "line_inv c'" "prompt c' = prompt c" "cmd c' = []"
      "m_index c' = 0" "if res = [] then displays put_char start c' else on_screen put_char start c' = \<lparr>sline = [], scol = 0\<rparr>"
      using key_enter_ok [OF assms(1)] by blast
    then have "readLine k b0 b1 len c = Some (store_key k res c')" using 1 by (simp add: readLine_def store_key_def)
    then show ?thesis using key_resultI [of c' c res start k] e by (simp add: idle_screen_def)
  next
    case 2
    then have "readLine k b0 b1 len c = map_option (store_key k []) (key_tab c)"
      by (cases "key_tab c") (simp_all add: readLine_def store_key_def newline_def)
    then show ?thesis using key_result_option [OF key_tab_ok [OF assms(1,2)]] by simp
  next
    case 3
    then have "readLine k b0 b1 len c = map_option (store_key k []) (key_backspace c)"
      by (cases "key_backspace c") (auto simp: readLine_def store_key_def newline_def)
    then show ?thesis using key_result_option [OF key_backspace_ok [OF assms(1,2)]] by simp
  next
    case 4
    then show ?thesis using readLine_escape [OF assms(1,2)] by simp
  next
    case 5
    then have "readLine k b0 b1 len c = map_option (store_key k []) (key_insert k c)"
      by (cases "key_insert k c") (auto simp: readLine_def store_key_def)
    then show ?thesis using key_result_option [OF key_insert_ok [OF assms(1,2) 5(1)]] by simp
  qed
qed

lemma prompt_displays:
  assumes "idle_screen put_char start c" "prompt c = app_prompt" "w = [] \<or> w = v @ [newline]"
  shows "displays put_char start (writeLine app_prompt (writeLine w c))"
proof -
  have "disp put_char w (on_screen put_char start c) = \<lparr>sline = [], scol = 0\<rparr>"
    using assms(1,3) disp_newline by (auto simp: idle_screen_def)
  moreover have "clean app_prompt" by (simp add: app_prompt_def isprint_def)
  ultimately have "on_screen put_char start (writeLine app_prompt (writeLine w c)) =
      \<lparr>sline = app_prompt, scol = length app_prompt\<rparr>"
    using disp_text [of app_prompt "[]" "[]"] by (simp add: on_screen_writeLine)
  then show ?thesis
    using assms(1,2) unfolding displays_def by (intro exI [of _ 0]) (simp add: sp_def idle_screen_def)
qed


lemma line_inv_writeLine: "line_inv (writeLine w c) = line_inv c"
  by (simp add: line_inv_def)

lemma show_int_newline: "\<exists>v. show_int n @ '' '' @ [newline] = v @ [newline]"
  by (intro exI [of _ "show_int n @ '' ''"]) simp

lemma CmdLineProcess_ok:
  assumes "console_ok put_char start s" "handled key"
  shows "\<exists>s'. CmdLineProcess n key s = Some s' \<and> console_ok put_char start s'"
proof (cases "StopRunning s")
  case True
  then show ?thesis using assms(1) by (simp add: CmdLineProcess_def)
next
  case run: False
  obtain k b0 b1 len where key: "key = (k, b0, b1, len)" by (cases key)
  have s: "line_inv (cmd_line s)" "prompt (cmd_line s) = app_prompt" "displays put_char start (cmd_line s)"
    using assms(1) run by (simp_all add: console_ok_def)
  obtain cm c where c: "readLine k b0 b1 len (cmd_line s) = Some (cm, c)" "line_inv c" "prompt c = app_prompt"
    "if cm = [] then displays put_char start c else idle_screen put_char start c"
    using readLine_ok [OF s(1,3), of k b0 b1 len] assms(2) key s(2) by (auto simp: key_result_def)
  consider "cm = []" | "cm = ''stop''" | "cm \<noteq> [] \<and> cm \<noteq> ''stop''" by blast
  then show ?thesis
  proof cases
    case 1
    then have "CmdLineProcess n key s = Some (s\<lparr>cmd_line := c\<rparr>)"
      using c(1) run key by (simp add: CmdLineProcess_def)
    moreover have "displays put_char start c" using 1 c(4) by simp
    ultimately show ?thesis using c(2,3) by (simp add: console_ok_def)
  next
    case 2
    then have "CmdLineProcess n key s = Some (s\<lparr>cmd_line := c, StopRunning := True\<rparr>)"
      using c(1) run key by (simp add: CmdLineProcess_def)
    then show ?thesis using c(2,3) by (simp add: console_ok_def)
  next
    case False: 3
    define w where "w = (if cm = ''core_num'' then show_int (core_num n) @ '' '' @ [newline] else [])"
    have w: "w = [] \<or> w = (show_int (core_num n) @ '' '') @ [newline]" by (simp add: w_def)
    let ?c = "writeLine app_prompt (writeLine w c)"
    have "\<exists>skip. CmdLineProcess n key s = Some \<lparr>cmd_line = ?c, StopRunning = False, SkipOutput = skip\<rparr>"
    proof -
      define d where "d = s\<lparr>cmd_line := c\<rparr>"
      have d: "CmdLineProcess n key s = Some
          (let s = (if cm = ''core_num'' then d\<lparr>cmd_line := writeLine w (cmd_line d)\<rparr>
             else if cm = ''skip_output'' then d\<lparr>SkipOutput := True\<rparr>
             else if cm = ''no_skip_output'' then d\<lparr>SkipOutput := False\<rparr> else d)
           in s\<lparr>cmd_line := writeLine app_prompt (cmd_line s)\<rparr>)"
        unfolding CmdLineProcess_def key Let_def using run False
        by (simp add: c(1) d_def w_def app_prompt_def)
      have w0: "writeLine w c = c" if "cm \<noteq> ''core_num''" using that by (simp add: w_def writeLine_def)
      obtain skip where "d = \<lparr>cmd_line = c, StopRunning = False, SkipOutput = skip\<rparr>"
        using run by (cases s) (simp add: d_def)
      then show ?thesis
        unfolding d Let_def by (cases "cm = ''core_num''") (auto simp: w0)
    qed
    moreover have "displays put_char start ?c" using prompt_displays [OF _ c(3) w] c(4) False by simp
    ultimately show ?thesis using c by (auto simp: console_ok_def line_inv_writeLine)
  qed
qed

lemma console_run_ok:
  "console_ok put_char start s \<Longrightarrow> list_all handled ks \<Longrightarrow> \<exists>s'. console_run n ks s = Some s' \<and> console_ok put_char start s'"
proof (induction ks arbitrary: s)
  case (Cons key ks)
  then obtain s' where "CmdLineProcess n key s = Some s'" "console_ok put_char start s'"
    using CmdLineProcess_ok [of start s key n] by auto
  then show ?case using Cons by simp
qed simp

lemma addHints_fields:
  "\<exists>H. addHints hs c = c\<lparr>hints := H\<rparr> \<and> set H = set (hints c) \<union> set hs"
proof (induction hs arbitrary: c)
  case Nil
  show ?case by (intro exI [of _ "hints c"]) (simp add: addHints_def)
next
  case (Cons h hs)
  obtain H where H: "addHints hs (addHint h c) = (addHint h c)\<lparr>hints := H\<rparr>"
    "set H = set (hints (addHint h c)) \<union> set hs"
    using Cons.IH by blast
  have "addHints (h # hs) c = addHints hs (addHint h c)" by (simp add: addHints_def)
  with H show ?case by (intro exI [of _ H]) (auto simp: addHint_def)
qed

lemma new_console_ok:
  assumes "readHistory file \<noteq> []" "\<forall>h \<in> set (readHistory file). clean h" "\<forall>h \<in> set hs. clean h" "plain_hints hs"
  shows "console_ok put_char \<lparr>sline = [], scol = 0\<rparr>
    \<lparr>cmd_line = addHints hs (new_CmdLine app_prompt file key), StopRunning = False, SkipOutput = skip\<rparr>"
proof -
  let ?c = "new_CmdLine app_prompt file key"
  obtain H where H: "addHints hs ?c = ?c\<lparr>hints := H\<rparr>" "set H = set hs"
    using addHints_fields [of hs ?c] by (auto simp: new_CmdLine_eq Let_def)
  have cl: "clean app_prompt" by (simp add: app_prompt_def isprint_def)
  then have "disp put_char app_prompt \<lparr>sline = [], scol = 0\<rparr> = \<lparr>sline = app_prompt, scol = length app_prompt\<rparr>"
    using disp_text [of app_prompt "[]" "[]"] by simp
  then have "displays put_char \<lparr>sline = [], scol = 0\<rparr> (?c\<lparr>hints := H\<rparr>)"
    unfolding displays_def by (intro exI [of _ 0]) (simp add: new_CmdLine_eq Let_def on_screen_def sp_def)
  moreover have "line_inv (?c\<lparr>hints := H\<rparr>)"
    using assms H(2) cl by (simp add: line_inv_def new_CmdLine_eq Let_def plain_hints_def)
  ultimately show ?thesis unfolding H(1) by (simp add: console_ok_def new_CmdLine_eq Let_def)
qed

end

text \<open>A terminal as the locale asks for.\<close>

definition line_terminal :: "char \<Rightarrow> screen \<Rightarrow> screen" where
  "line_terminal ch t =
     (if ch = newline then \<lparr>sline = [], scol = 0\<rparr>
      else if ch = backspace_char then t\<lparr>scol := scol t - 1\<rparr>
      else if isprint ch
      then \<lparr>sline = take (scol t) (sline t) @ ch # drop (Suc (scol t)) (sline t), scol = Suc (scol t)\<rparr>
      else t)"

interpretation line_terminal: terminal line_terminal
  by unfold_locales (auto simp: line_terminal_def newline_def backspace_char_def isprint_def)

section \<open>Properties\<close>

text \<open>C21. The history file has a line or is missing, the history, the hints and the prompt are printable, and every hint
  is one word. Then, whatever keys that \<open>readLine\<close> has a branch for are pressed, in any order (editing in the middle
  of the line, browsing the history, completing, entering commands), the command thread runs into no
  invalid iterator or position, and until it is stopped a terminal that shows printable characters,
  backspaces and newlines as usual shows the prompt, the command being edited and nothing behind it, with
  the cursor at the editing position.\<close>

theorem console_display:
  assumes "terminal put_char" "readHistory file \<noteq> []" "\<forall>h \<in> set (readHistory file). clean h"
    and "\<forall>h \<in> set hs. clean h" "plain_hints hs" "list_all handled ks"
  shows "\<exists>s. console_run settings ks
      \<lparr>cmd_line = addHints hs (new_CmdLine app_prompt file key), StopRunning = False, SkipOutput = skip\<rparr> = Some s \<and>
    m_index (cmd_line s) \<le> length (cmd (cmd_line s)) \<and> curr (cmd_line s) \<le> length (history (cmd_line s)) \<and>
    (StopRunning s \<or> displays put_char \<lparr>sline = [], scol = 0\<rparr> (cmd_line s))"
proof -
  obtain s where "console_run settings ks
      \<lparr>cmd_line = addHints hs (new_CmdLine app_prompt file key), StopRunning = False, SkipOutput = skip\<rparr> = Some s"
    "console_ok put_char \<lparr>sline = [], scol = 0\<rparr> s"
    using terminal.console_run_ok [OF assms(1) terminal.new_console_ok [OF assms(1-5)] assms(6)] by blast
  then show ?thesis by (auto simp: console_ok_def line_inv_def)
qed

lemma console_display_witness:
  "\<exists>s. console_run (default_Rte 4) [(CHR ''a'', CHR 0x00, CHR 0x00, 1), (CHR 0x1B, CHR 0x5B, CHR 0x41, 1)]
      \<lparr>cmd_line = addHints [''help''] (new_CmdLine app_prompt None 0), StopRunning = False, SkipOutput = False\<rparr> = Some s \<and>
    m_index (cmd_line s) \<le> length (cmd (cmd_line s)) \<and> curr (cmd_line s) \<le> length (history (cmd_line s)) \<and>
    (StopRunning s \<or> displays line_terminal \<lparr>sline = [], scol = 0\<rparr> (cmd_line s))"
  by (rule console_display [OF line_terminal.terminal_axioms])
    (simp_all add: readHistory_def plain_hints_def isprint_def)

end
