(* ===== verification/Threads.thy ===== *)
theory Threads
  imports Logger_Plain Logger_Gzip Console
begin

text \<open>
  The threads of \<^verbatim>\<open>logger_test.cpp\<close> and the class \<open>Thread\<close> of \<^verbatim>\<open>thread.h\<close>: the bodies that push the packets
  of a capture file into the logger and that rotate it, the initialisation, starting, joining and
  destroying, and \<open>main\<close>. The values a thread reads from the flags \<^verbatim>\<open>StopRunning\<close> and \<^verbatim>\<open>SkipOutput\<close>,
  which other threads set, are parameters, and so is \<^verbatim>\<open>pthread_setaffinity_np\<close>.
\<close>

section \<open>The class Thread\<close>

record ThreadOption =
  cores :: "int list"
  thread_name :: string
  thread_id :: int

text \<open>
  The pointer \<^verbatim>\<open>thread_\<close> is uninitialised before \<open>Start\<close> (\<open>None\<close>); after it, it points to a
  \<^verbatim>\<open>std::thread\<close>, which can be joined once and must not be destroyed before.
\<close>

datatype std_thread = Joinable | Joined

record Thread =
  Option :: ThreadOption
  thread_ptr :: "std_thread option"

definition new_Thread :: "ThreadOption \<Rightarrow> Thread" where
  "new_Thread opt = \<lparr>Option = opt, thread_ptr = None\<rparr>"

text \<open>\<open>CPU_SET\<close> ignores numbers outside the set's 1024 bits; a negative one becomes a large unsigned one.\<close>

definition cpu_mask :: "ThreadOption \<Rightarrow> int set option" where
  "cpu_mask opt =
     (if length (cores opt) = 0 then None
      else Some (set (filter (\<lambda>c. 0 \<le> c \<and> c < 1024) (cores opt))))"

text \<open>An \<open>Inl\<close> is a call of \<^verbatim>\<open>exit\<close> with that code.\<close>

definition SetAffinity :: "(int set \<Rightarrow> int) \<Rightarrow> Thread \<Rightarrow> int + Thread" where
  "SetAffinity setaffinity th =
     (case cpu_mask (Option th) of
        None \<Rightarrow> Inr th
      | Some cpuset \<Rightarrow> let rc = setaffinity cpuset in if rc \<noteq> 0 then Inl (-1) else Inr th)"

definition Start :: "(int set \<Rightarrow> int) \<Rightarrow> Thread \<Rightarrow> int + Thread" where
  "Start setaffinity th = SetAffinity setaffinity (th\<lparr>thread_ptr := Some Joinable\<rparr>)"

definition Join :: "Thread \<Rightarrow> Thread option" where
  "Join th = (case thread_ptr th of Some Joinable \<Rightarrow> Some (th\<lparr>thread_ptr := Some Joined\<rparr>) | _ \<Rightarrow> None)"

definition delete_Thread :: "Thread \<Rightarrow> unit option" where
  "delete_Thread th = (case thread_ptr th of Some Joined \<Rightarrow> Some () | _ \<Rightarrow> None)"

section \<open>Setting up\<close>

definition new_threads :: "Rte \<Rightarrow> Thread list" where
  "new_threads GlobalRte =
     map (\<lambda>i. new_Thread
         \<lparr>cores = [i + 1 + packet_core_num GlobalRte], thread_name = ''logger_thread'', thread_id = i\<rparr>)
       [0 .. logger_core_num GlobalRte - 1] @
     map (\<lambda>i. new_Thread \<lparr>cores = [i + 1], thread_name = ''packet_thread'', thread_id = i\<rparr>)
       [0 .. packet_core_num GlobalRte - 1]"

fun start_all :: "(int set \<Rightarrow> int) \<Rightarrow> Thread list \<Rightarrow> int + Thread list" where
  "start_all setaffinity [] = Inr []"
| "start_all setaffinity (th # ths) =
     (case Start setaffinity th of
        Inl code \<Rightarrow> Inl code
      | Inr th \<Rightarrow> map_sum id ((#) th) (start_all setaffinity ths))"

definition ThreadInit :: "(int set \<Rightarrow> int) \<Rightarrow> Rte \<Rightarrow> int + Thread list" where
  "ThreadInit setaffinity GlobalRte = start_all setaffinity (new_threads GlobalRte)"

fun ThreadDestory :: "Thread list \<Rightarrow> unit option" where
  "ThreadDestory [] = Some ()"
| "ThreadDestory (th # ths) = do { th \<leftarrow> Join th; _ \<leftarrow> delete_Thread th; ThreadDestory ths }"

text \<open>The number of groups is cut to 8 bits.\<close>

definition PcapReaderInit :: "files \<Rightarrow> u8 list \<Rightarrow> PcapPacket \<Rightarrow> Rte \<Rightarrow> PcapReader option" where
  "PcapReaderInit fs beyond junk GlobalRte = do {
     let reader = new_PcapReader (word_of_int (packet_core_num GlobalRte));
     (ret, reader) \<leftarrow> ReadPcapFile fs beyond junk (pcap_file GlobalRte) reader;
     Some reader }"

definition Init :: "(int set \<Rightarrow> int) \<Rightarrow> char \<Rightarrow> 'z zlib \<Rightarrow> env \<Rightarrow> files \<Rightarrow> u8 list \<Rightarrow> PcapPacket \<Rightarrow> Rte \<Rightarrow>
    (int + PcapReader \<times> 'z BasicBusinessLogger \<times> Thread list) option" where
  "Init setaffinity junk_char Z e fs beyond junk GlobalRte = do {
     reader \<leftarrow> PcapReaderInit fs beyond junk GlobalRte;
     (ret, logger) \<leftarrow> logger_init junk_char Z e ''./log'' 104857600 1
       (if is_gzip GlobalRte then kCompressGzip else kCompressNone) new_BasicBusinessLogger;
     Some (map_sum id (\<lambda>ths. (reader, logger, ths)) (ThreadInit setaffinity GlobalRte)) }"

text \<open>
  \<open>main\<close>: the thread that executes the commands has no cores set. A \<open>Join\<close> waits until the body has
  returned; the value is what \<open>main\<close> returns or exits with.
\<close>

definition main :: "(int set \<Rightarrow> int) \<Rightarrow> char \<Rightarrow> 'z zlib \<Rightarrow> env \<Rightarrow> files \<Rightarrow> u8 list \<Rightarrow> PcapPacket \<Rightarrow> Rte \<Rightarrow> int option" where
  "main setaffinity junk_char Z e fs beyond junk GlobalRte = do {
     res \<leftarrow> Init setaffinity junk_char Z e fs beyond junk GlobalRte;
     (case res of
        Inl code \<Rightarrow> Some code
      | Inr (reader, logger, gThreads) \<Rightarrow>
          (case Start setaffinity (new_Thread \<lparr>cores = [], thread_name = '''', thread_id = 0\<rparr>) of
             Inl code \<Rightarrow> Some code
           | Inr cmd_thd \<Rightarrow> do {
               cmd_thd \<leftarrow> Join cmd_thd;
               _ \<leftarrow> ThreadDestory gThreads;
               _ \<leftarrow> delete_Thread cmd_thd;
               Some 0 })) }"

section \<open>The bodies of the threads\<close>

text \<open>\<open>for (auto p : ppv) gLogger.push_back(&p);\<close>\<close>

fun push_vector :: "PcapPacket list \<Rightarrow> 'z BasicBusinessLogger \<Rightarrow> 'z BasicBusinessLogger option" where
  "push_vector [] l = Some l"
| "push_vector (p # ppv) l = do { (ret, l) \<leftarrow> push_back p l; push_vector ppv l }"

definition kTimes :: nat where "kTimes = 100"

text \<open>The loop of \<open>PacketGet\<close> with \<open>left\<close> rounds left; \<open>stops cnt\<close> is \<^verbatim>\<open>StopRunning\<close> as round \<open>cnt\<close> sees it.\<close>

fun packet_rounds :: "(nat \<Rightarrow> bool) \<Rightarrow> PcapPacket list \<Rightarrow> nat \<Rightarrow> 'z BasicBusinessLogger \<Rightarrow> 'z BasicBusinessLogger option" where
  "packet_rounds stops ppv 0 l = Some l"
| "packet_rounds stops ppv (Suc left) l =
     (if stops (kTimes - Suc left) then Some l
      else do { l \<leftarrow> push_vector ppv l; packet_rounds stops ppv left l })"

definition PacketGet :: "(nat \<Rightarrow> bool) \<Rightarrow> PcapReader \<Rightarrow> ThreadOption \<Rightarrow> 'z BasicBusinessLogger \<Rightarrow>
    'z BasicBusinessLogger option" where
  "PacketGet stops reader opt l = do {
     ppv \<leftarrow> GetPcapPacketVector reader (thread_id opt);
     packet_rounds stops ppv kTimes l }"

text \<open>The loop of \<open>LoggerWrite\<close>; each round reads the flags and the world.\<close>

fun LoggerWrite :: "'z zlib \<Rightarrow> (bool \<times> bool \<times> env) list \<Rightarrow> 'z BasicBusinessLogger \<Rightarrow> disk \<Rightarrow>
    ('z BasicBusinessLogger \<times> disk) option" where
  "LoggerWrite Z [] l fs = Some (l, fs)"
| "LoggerWrite Z ((stop, skip, e) # rounds) l fs =
     (if stop then Some (l, fs)
      else if skip then LoggerWrite Z rounds l fs
      else do {
        (ret, l, fs) \<leftarrow> checkRotate Z e l fs;
        LoggerWrite Z rounds l fs })"

definition signal_handler :: "Console \<Rightarrow> Console" where
  "signal_handler s =
     s\<lparr>cmd_line := writeLine (''StopRunning'' @ [newline, newline]) (cmd_line s), StopRunning := True\<rparr>"

section \<open>Starting and joining\<close>

definition started :: "Thread \<Rightarrow> bool" where
  "started th \<longleftrightarrow> thread_ptr th = Some Joinable"

lemma Start_cases:
  "Start setaffinity th =
     (case cpu_mask (Option th) of
        Some cpuset \<Rightarrow> if setaffinity cpuset = 0 then Inr (th\<lparr>thread_ptr := Some Joinable\<rparr>) else Inl (-1)
      | None \<Rightarrow> Inr (th\<lparr>thread_ptr := Some Joinable\<rparr>))"
  by (simp add: Start_def SetAffinity_def split: option.splits)

text \<open>Either every thread gets its processors and runs, or the process exits with -1.\<close>

definition gets_cores :: "(int set \<Rightarrow> int) \<Rightarrow> Thread \<Rightarrow> bool" where
  "gets_cores setaffinity th \<longleftrightarrow> (\<forall>cpuset. cpu_mask (Option th) = Some cpuset \<longrightarrow> setaffinity cpuset = 0)"

lemma start_all_eq:
  "start_all setaffinity ths =
     (if \<forall>th \<in> set ths. gets_cores setaffinity th then Inr (map (\<lambda>th. th\<lparr>thread_ptr := Some Joinable\<rparr>) ths)
      else Inl (-1))"
  by (induction ths) (auto simp: Start_cases gets_cores_def split: option.splits)

lemma ThreadDestory_started: "\<forall>th \<in> set ths. started th \<Longrightarrow> ThreadDestory ths = Some ()"
  by (induction ths) (auto simp: started_def Join_def delete_Thread_def)

text \<open>Exactly one processor of its own for each thread, from 1 on.\<close>

lemma new_threads_cores:
  assumes law: "\<forall>cpuset. setaffinity cpuset = 0 \<longleftrightarrow> cpuset \<inter> online \<noteq> {}"
    and num: "0 \<le> packet_core_num rte" "0 \<le> logger_core_num rte"
  shows "(\<forall>th \<in> set (new_threads rte). gets_cores setaffinity th) \<longleftrightarrow>
    (\<forall>c. 1 \<le> c \<and> c \<le> packet_core_num rte + logger_core_num rte \<longrightarrow> c \<in> online \<and> c < 1024)"
proof -
  let ?P = "packet_core_num rte" and ?L = "logger_core_num rte"
  have one: "gets_cores setaffinity (new_Thread \<lparr>cores = [c], thread_name = n, thread_id = i\<rparr>) \<longleftrightarrow>
      c \<in> online \<and> c < 1024" if "0 \<le> c" for c n i
    using law that by (auto simp: gets_cores_def new_Thread_def cpu_mask_def)
  have "(\<forall>th \<in> set (new_threads rte). gets_cores setaffinity th) \<longleftrightarrow>
      (\<forall>i \<in> {0 .. ?L - 1}. i + 1 + ?P \<in> online \<and> i + 1 + ?P < 1024) \<and>
      (\<forall>i \<in> {0 .. ?P - 1}. i + 1 \<in> online \<and> i + 1 < 1024)"
    using one num(1) by (simp add: new_threads_def ball_Un)
  also have "\<dots> \<longleftrightarrow> (\<forall>c. 1 \<le> c \<and> c \<le> ?P + ?L \<longrightarrow> c \<in> online \<and> c < 1024)"
  proof (intro iffI allI impI)
    fix c assume all: "(\<forall>i \<in> {0 .. ?L - 1}. i + 1 + ?P \<in> online \<and> i + 1 + ?P < 1024) \<and>
      (\<forall>i \<in> {0 .. ?P - 1}. i + 1 \<in> online \<and> i + 1 < 1024)" and c: "1 \<le> c \<and> c \<le> ?P + ?L"
    show "c \<in> online \<and> c < 1024"
      using all [THEN conjunct1, rule_format, of "c - 1 - ?P"] all [THEN conjunct2, rule_format, of "c - 1"] c
      by (cases "c \<le> ?P") auto
  qed (use num in \<open>auto simp: algebra_simps\<close>)
  finally show ?thesis .
qed

end
