(* ===== verification/App.thy ===== *)
theory App
  imports Threads
begin

text \<open>
  The application as a whole: what the threads do to the logger as events of one run, the exit code
  of the program, and the way of the packets from a capture file to the log files.
\<close>

section \<open>Interleaving\<close>

text \<open>All the orders in which several threads' events can take effect.\<close>

fun interleavings :: "'a list list \<Rightarrow> 'a list set" where
  "interleavings [] = {[]}"
| "interleavings (xs # xss) = (\<Union>ys \<in> interleavings xss. shuffles xs ys)"

lemma filter_interleavings:
  "evs \<in> interleavings xss \<Longrightarrow> filter Q evs \<in> interleavings (map (filter Q) xss)"
proof (induction xss arbitrary: evs)
  case (Cons xs xss)
  then obtain ys where "ys \<in> interleavings xss" "evs \<in> shuffles xs ys" by auto
  moreover from this have "filter Q evs \<in> shuffles (filter Q xs) (filter Q ys)"
    by (simp flip: filter_shuffles)
  ultimately show ?case using Cons.IH by auto
qed simp

lemma interleavings_empty: "\<forall>xs \<in> set xss. xs = [] \<Longrightarrow> interleavings xss = {[]}"
  by (induction xss) auto

lemma interleavings_single:
  assumes "i < length xss" "\<forall>j < length xss. j \<noteq> i \<longrightarrow> xss ! j = []"
  shows "interleavings xss = {xss ! i}"
  using assms
proof (induction xss arbitrary: i)
  case (Cons xs xss)
  show ?case
  proof (cases i)
    case 0
    then have "\<forall>ys \<in> set xss. ys = []" using Cons.prems(2) by (simp add: All_less_Suc2 all_set_conv_all_nth)
    then show ?thesis using 0 by (simp add: interleavings_empty shuffles_commutes [of xs "[]"])
  next
    case (Suc k)
    have "xs = []" using Cons.prems(2) Suc by (auto dest: spec [of _ 0])
    moreover have "interleavings xss = {xss ! k}"
      using Cons.prems Suc by (intro Cons.IH) auto
    ultimately show ?thesis using Suc by simp
  qed
qed simp

lemma append_in_shuffles: "xs @ ys \<in> shuffles xs ys"
  by (induction xs ys rule: shuffles.induct) (auto simp: Cons_in_shuffles_iff)

lemma concat_in_interleavings: "concat xss \<in> interleavings xss"
  by (induction xss) (auto intro: append_in_shuffles)

text \<open>An event only one thread has keeps that thread's order.\<close>

lemma interleavings_filter:
  assumes "evs \<in> interleavings xss" "i < length xss" "\<forall>j < length xss. j \<noteq> i \<longrightarrow> filter Q (xss ! j) = []"
  shows "filter Q evs = filter Q (xss ! i)"
  using filter_interleavings [OF assms(1), of Q] interleavings_single [of i "map (filter Q) xss"] assms(2,3) by simp

section \<open>The threads in a run of the logger\<close>

text \<open>The rounds \<open>PacketGet\<close> makes until it has made all or sees \<^verbatim>\<open>StopRunning\<close>.\<close>

fun rounds :: "(nat \<Rightarrow> bool) \<Rightarrow> nat \<Rightarrow> nat" where
  "rounds stops 0 = 0"
| "rounds stops (Suc left) = (if stops (kTimes - Suc left) then 0 else Suc (rounds stops left))"

lemma rounds_le: "rounds stops n \<le> n"
  by (induction n) auto

lemma rounds_all: "\<forall>k. \<not> stops k \<Longrightarrow> rounds stops n = n"
  by (induction n) auto

lemma push_vector_run:
  "log_run Z (map Push ppv @ evs) l fs = do { l \<leftarrow> push_vector ppv l; log_run Z evs l fs }"
proof (induction ppv arbitrary: l)
  case (Cons p ppv)
  then show ?case by (cases "push_back p l") auto
qed simp

lemma packet_rounds_run:
  "log_run Z (map Push (concat (replicate (rounds stops n) ppv)) @ evs) l fs =
    do { l \<leftarrow> packet_rounds stops ppv n l; log_run Z evs l fs }"
proof (induction n arbitrary: l)
  case (Suc n)
  show ?case
  proof (cases "stops (kTimes - Suc n)")
    case False
    have "log_run Z (map Push (concat (replicate (rounds stops (Suc n)) ppv)) @ evs) l fs =
        log_run Z (map Push ppv @ map Push (concat (replicate (rounds stops n) ppv)) @ evs) l fs"
      using False by simp
    also have "\<dots> = do { l \<leftarrow> push_vector ppv l; l \<leftarrow> packet_rounds stops ppv n l; log_run Z evs l fs }"
      unfolding push_vector_run [of Z ppv "map Push (concat (replicate (rounds stops n) ppv)) @ evs" l fs] Suc
      by (rule refl)
    finally show ?thesis using False by (cases "push_vector ppv l") auto
  qed simp
qed simp

text \<open>What a packet thread does to the logger.\<close>

definition thread_pushes :: "(nat \<Rightarrow> bool) \<Rightarrow> PcapReader \<Rightarrow> ThreadOption \<Rightarrow> PcapPacket list option" where
  "thread_pushes stops reader opt =
     map_option (\<lambda>ppv. concat (replicate (rounds stops kTimes) ppv)) (GetPcapPacketVector reader (thread_id opt))"

lemma PacketGet_run:
  assumes "thread_pushes stops reader opt = Some ps"
  shows "log_run Z (map Push ps @ evs) l fs = do { l \<leftarrow> PacketGet stops reader opt l; log_run Z evs l fs }"
  using assms packet_rounds_run [of Z stops kTimes _ evs l fs]
  by (auto simp: PacketGet_def thread_pushes_def)

text \<open>What the logger thread does: a rotation in each round it does not skip.\<close>

definition thread_rotations :: "(bool \<times> bool \<times> env) list \<Rightarrow> env list" where
  "thread_rotations rds = map (\<lambda>x. snd (snd x)) (filter (\<lambda>x. \<not> fst (snd x)) (takeWhile (\<lambda>x. \<not> fst x) rds))"

lemma LoggerWrite_run: "LoggerWrite Z rds l fs = log_run Z (map Rotate (thread_rotations rds)) l fs"
proof (induction rds arbitrary: l fs)
  case (Cons x rds)
  obtain stop skip e where x: "x = (stop, skip, e)" by (cases x)
  show ?case
  proof (cases skip)
    case True
    then show ?thesis using Cons x by (simp add: thread_rotations_def)
  next
    case False
    then show ?thesis using Cons x by (cases "checkRotate Z e l fs") (auto simp: thread_rotations_def)
  qed
qed (simp add: thread_rotations_def)


text \<open>
  The events of all threads, in the order of the list \<open>gThreads\<close>; \<open>stops i\<close> and \<open>rds i\<close> are what
  thread \<open>i\<close> of its kind reads. A thread that faults before its first event makes the result \<open>None\<close>.
\<close>

definition thread_events :: "(int \<Rightarrow> nat \<Rightarrow> bool) \<Rightarrow> (int \<Rightarrow> (bool \<times> bool \<times> env) list) \<Rightarrow> PcapReader \<Rightarrow> Thread \<Rightarrow>
    log_event list option" where
  "thread_events stops rds reader th =
     (let opt = Option th in
      if thread_name opt = ''logger_thread'' then Some (map Rotate (thread_rotations (rds (thread_id opt))))
      else map_option (map Push) (thread_pushes (stops (thread_id opt)) reader opt))"

definition app_events :: "(int \<Rightarrow> nat \<Rightarrow> bool) \<Rightarrow> (int \<Rightarrow> (bool \<times> bool \<times> env) list) \<Rightarrow> PcapReader \<Rightarrow> Thread list \<Rightarrow>
    log_event list list option" where
  "app_events stops rds reader gThreads = those (map (thread_events stops rds reader) gThreads)"

section \<open>The packets of a run\<close>

fun pushes :: "log_event list \<Rightarrow> PcapPacket list" where
  "pushes [] = []"
| "pushes (Push p # evs) = p # pushes evs"
| "pushes (Rotate e # evs) = pushes evs"

fun pushes_to :: "(PcapPacket \<Rightarrow> bool) \<Rightarrow> log_event \<Rightarrow> bool" where
  "pushes_to Q (Push p) = Q p"
| "pushes_to Q (Rotate e) = False"

fun is_rotation :: "log_event \<Rightarrow> bool" where
  "is_rotation (Push p) = False"
| "is_rotation (Rotate e) = True"

lemma pushes_filter: "filter Q (pushes evs) = pushes (filter (pushes_to Q) evs)"
  by (induction evs rule: pushes.induct) auto

lemma pushes_push [simp]: "pushes (map Push ps) = ps"
  by (induction ps) simp_all

lemma pushes_rotate [simp]: "pushes (map Rotate es) = []"
  by (induction es) simp_all

lemma rotations_map [simp]: "rotations (map Rotate es) = es"
  by (induction es) auto

lemma rotations_filter: "rotations (filter is_rotation evs) = rotations evs"
  by (induction evs rule: rotations.induct) auto

lemma on_time_rotations: "on_time start cycle cnt evs = on_time start cycle cnt (map Rotate (rotations evs))"
  by (induction evs arbitrary: cnt rule: rotations.induct) auto

lemma filter_events [simp]:
  "filter (pushes_to Q) (map Push ps) = map Push (filter Q ps)" "filter (pushes_to Q) (map Rotate es) = []"
  "filter is_rotation (map Push ps) = []" "filter is_rotation (map Rotate es) = map Rotate es"
  by (simp_all add: filter_map comp_def)

lemma accepted_pushes: "n + length (pushes evs) \<le> cap \<Longrightarrow> accepted cap evs n = pushes evs"
  by (induction cap evs n rule: accepted.induct) auto


text \<open>
  With one logger thread and the packets dealt by \<open>g\<close> to \<open>n\<close> packet threads, of which thread \<open>i\<close> pushes its
  group \<open>k i\<close> times: every order of the events keeps the order of each thread.
\<close>

lemma run_order:
  assumes evs: "evs \<in> interleavings (map Rotate es #
      map (\<lambda>i. map Push (concat (replicate (k i) (filter (\<lambda>p. g p = i) ps)))) [0..<n])"
  shows "rotations evs = es"
    and "i < n \<Longrightarrow> filter (\<lambda>p. g p = i) (pushes evs) = concat (replicate (k i) (filter (\<lambda>p. g p = i) ps))"
proof -
  let ?xss = "map Rotate es # map (\<lambda>i. map Push (concat (replicate (k i) (filter (\<lambda>p. g p = i) ps)))) [0..<n]"
  have "filter is_rotation evs = filter is_rotation (?xss ! 0)"
    by (rule interleavings_filter [OF evs]) (auto simp: nth_Cons')
  then show "rotations evs = es" using rotations_filter [of evs] by simp
  have fr: "filter (\<lambda>p. g p = i) (concat (replicate m (filter (\<lambda>p. g p = j) ps))) =
      (if i = j then concat (replicate m (filter (\<lambda>p. g p = j) ps)) else [])" for i j m
    by (induction m) simp_all
  assume i: "i < n"
  have "filter (pushes_to (\<lambda>p. g p = i)) evs = filter (pushes_to (\<lambda>p. g p = i)) (?xss ! Suc i)"
    by (rule interleavings_filter [OF evs]) (use i in \<open>auto simp: nth_Cons' fr\<close>)
  then show "filter (\<lambda>p. g p = i) (pushes evs) = concat (replicate (k i) (filter (\<lambda>p. g p = i) ps))"
    using i by (simp add: pushes_filter fr)
qed

lemma pushes_total:
  assumes "\<forall>i. k i \<le> m" "\<forall>p. g p < (n::nat)"
  shows "(\<Sum>i < n. length (concat (replicate (k i) (filter (\<lambda>p. g p = i) ps)))) \<le> m * length ps"
proof -
  have "(\<Sum>i < n. length (concat (replicate (k i) (filter (\<lambda>p. g p = i) ps)))) \<le>
      (\<Sum>i < n. m * length (filter (\<lambda>p. g p = i) ps))"
    using assms(1) by (intro sum_mono) (simp add: length_concat sum_list_replicate)
  also have "\<dots> = m * length ps" using length_by_class [OF assms(2), of ps] by (simp add: sum_distrib_left)
  finally show ?thesis .
qed

lemma run_length:
  assumes evs: "evs \<in> interleavings (map Rotate es #
      map (\<lambda>i. map Push (concat (replicate (k i) (filter (\<lambda>p. g p = i) ps)))) [0..<n])"
    and k: "\<forall>i. k i \<le> m" "\<forall>p. g p < n"
  shows "length (pushes evs) \<le> m * length ps"
proof -
  have "length (pushes evs) = (\<Sum>i < n. length (filter (\<lambda>p. g p = i) (pushes evs)))"
    using k(2) by (rule length_by_class)
  also have "\<dots> = (\<Sum>i < n. length (concat (replicate (k i) (filter (\<lambda>p. g p = i) ps))))"
    using run_order(2) [OF evs] by (intro sum.cong) simp_all
  also have "\<dots> \<le> m * length ps" using k by (rule pushes_total)
  finally show ?thesis .
qed

section \<open>The threads the program starts\<close>

lemma those_map: "\<forall>x \<in> set xs. f x = Some (h x) \<Longrightarrow> those (map f xs) = Some (map h xs)"
  by (induction xs) auto

lemma upto_map: "[0 .. int n - 1] = map int [0..<n]"
  by (rule nth_equalityI) simp_all

lemma app_events_eq:
  assumes rte: "packet_core_num rte = int P" "logger_core_num rte = 1"
    and groups: "\<forall>i < P. GetPcapPacketVector reader (int i) = Some (gs i)"
  shows "app_events stops rds reader (map (\<lambda>th. th\<lparr>thread_ptr := Some Joinable\<rparr>) (new_threads rte)) =
    Some (map Rotate (thread_rotations (rds 0)) #
      map (\<lambda>i. map Push (concat (replicate (rounds (stops (int i)) kTimes) (gs i)))) [0..<P])"
proof -
  have "those (map (\<lambda>i. thread_events stops rds reader
      (new_Thread \<lparr>cores = [int i + 1], thread_name = ''packet_thread'', thread_id = int i\<rparr>\<lparr>thread_ptr := Some Joinable\<rparr>)) [0..<P]) =
    Some (map (\<lambda>i. map Push (concat (replicate (rounds (stops (int i)) kTimes) (gs i)))) [0..<P])"
    using groups by (intro those_map) (simp add: thread_events_def new_Thread_def thread_pushes_def)
  then show ?thesis
    unfolding app_events_def new_threads_def rte upto_map
    by (simp add: comp_def thread_events_def new_Thread_def)
qed

lemma Init_eq:
  assumes "PcapReaderInit fs beyond junk rte = Some reader"
    "logger_init junk_char Z e ''./log'' 104857600 1 (if is_gzip rte then kCompressGzip else kCompressNone)
      new_BasicBusinessLogger = Some (ret, l)"
    "\<forall>th \<in> set (new_threads rte). gets_cores setaffinity th"
  shows "Init setaffinity junk_char Z e fs beyond junk rte =
    Some (Inr (reader, l, map (\<lambda>th. th\<lparr>thread_ptr := Some Joinable\<rparr>) (new_threads rte)))"
  using assms by (simp add: Init_def ThreadInit_def start_all_eq)


lemma logger_init_returns:
  "\<exists>l'. logger_init junk Z e path rotate_size rotate_cycle compress_type l = Some (0, l')"
  using logger_ring [of "blank e"] by (auto simp: logger_init_def Let_def)

lemma PcapReaderInit_groups:
  assumes "fs (pcap_file rte) = Some (capture_file header cs)" "length header = 24"
    "length (capture_file header cs) < 18446744073709551616" "\<forall>c \<in> set cs. capture_ok c" "quiet beyond"
    and P: "packet_core_num rte = int P" "0 < P" "P < 256"
  shows "\<exists>reader. PcapReaderInit fs beyond junk rte = Some reader \<and>
    (\<forall>i < P. GetPcapPacketVector reader (int i) =
      Some (filter (\<lambda>p. unat (Hash4Tuple p) mod P = i) (concat (map (captured junk) cs))))"
proof -
  let ?n = "word_of_int (packet_core_num rte) :: u8"
  have n: "unat ?n = P" "?n \<noteq> 0" using P by (simp_all add: unat_of_nat word_eq_iff_unsigned [where ?'a = nat])
  show ?thesis using ReadPcapFile_groups [where fs = fs and path = "pcap_file rte", OF assms(1-4) n(2) assms(5), of junk] unfolding n(1)
    by (auto simp: PcapReaderInit_def)
qed

text \<open>With one logger thread and enough processors the initialisation succeeds and starts all threads.\<close>

lemma Init_events:
  assumes capture: "fs (pcap_file rte) = Some (capture_file header cs)" "length header = 24"
      "length (capture_file header cs) < 18446744073709551616" "\<forall>c \<in> set cs. capture_ok c" "quiet beyond"
    and rte: "packet_core_num rte = int P" "0 < P" "P < 256" "logger_core_num rte = 1"
    and cpus: "\<forall>cpuset. setaffinity cpuset = 0 \<longleftrightarrow> cpuset \<inter> online \<noteq> {}" "{1 .. int P + 1} \<subseteq> online"
    and packets: "packets = concat (map (captured junk) cs)"
    and l0: "logger_init junk_char Z boot ''./log'' 104857600 1 (if is_gzip rte then kCompressGzip else kCompressNone)
      new_BasicBusinessLogger = Some (ret, l0)"
  shows "\<exists>reader ths. Init setaffinity junk_char Z boot fs beyond junk rte =
      Some (Inr (reader, l0, ths)) \<and>
    app_events stops rds reader ths = Some (map Rotate (thread_rotations (rds 0)) #
      map (\<lambda>i. map Push (concat (replicate (rounds (stops (int i)) kTimes)
        (filter (\<lambda>p. unat (Hash4Tuple p) mod P = i) packets)))) [0..<P])"
proof -
  obtain reader where r: "PcapReaderInit fs beyond junk rte = Some reader"
    "\<forall>i < P. GetPcapPacketVector reader (int i) = Some (filter (\<lambda>p. unat (Hash4Tuple p) mod P = i) packets)"
    using PcapReaderInit_groups [where fs = fs and rte = rte, OF capture rte(1-3)] packets by blast
  have "\<forall>th \<in> set (new_threads rte). gets_cores setaffinity th"
    using new_threads_cores [OF cpus(1), of rte] cpus(2) rte by auto
  from Init_eq [OF r(1) l0 this] app_events_eq [OF rte(1,4) r(2), of stops rds] show ?thesis by blast
qed

section \<open>Properties\<close>

text \<open>
  C37. On a capture whose packets hold their headers, with 30 bytes behind the block of \<^verbatim>\<open>malloc\<close> that can be
  read and do not look like an IPv4 frame, with \<open>P\<close> packet threads (1 to 255) and \<open>L\<close> logger threads (0 or
  more), the program exits with -1 unless every thread gets a processor of its own: it needs the
  processors 1 to \<open>P + L\<close>, all below 1024 and available to it;
  then, once the threads have returned, every thread has been joined and destroyed as it must be
  and \<open>main\<close> returns 0.
\<close>

theorem main_exit_code:
  assumes law: "\<forall>cpuset. setaffinity cpuset = 0 \<longleftrightarrow> cpuset \<inter> online \<noteq> {}"
    and capture: "fs (pcap_file rte) = Some (capture_file header cs)" "length header = 24"
      "length (capture_file header cs) < 18446744073709551616" "\<forall>c \<in> set cs. capture_ok c" "quiet beyond"
    and num: "0 < packet_core_num rte" "packet_core_num rte < 256" "0 \<le> logger_core_num rte"
  shows "main setaffinity junk_char Z e fs beyond junk rte =
    Some (if \<forall>c. 1 \<le> c \<and> c \<le> packet_core_num rte + logger_core_num rte \<longrightarrow> c \<in> online \<and> c < 1024
      then 0 else -1)"
proof -
  obtain P where P: "packet_core_num rte = int P" using num(1) zero_le_imp_eq_int by (metis less_imp_le)
  obtain reader where r: "PcapReaderInit fs beyond junk rte = Some reader"
    using PcapReaderInit_groups [where fs = fs and rte = rte, OF capture P] num P by auto
  obtain l where l: "logger_init junk_char Z e ''./log'' 104857600 1
      (if is_gzip rte then kCompressGzip else kCompressNone) new_BasicBusinessLogger = Some (0, l)"
    using logger_init_returns by blast
  have cores: "(\<forall>th \<in> set (new_threads rte). gets_cores setaffinity th) \<longleftrightarrow>
      (\<forall>c. 1 \<le> c \<and> c \<le> packet_core_num rte + logger_core_num rte \<longrightarrow> c \<in> online \<and> c < 1024)"
    using num(1,3) by (intro new_threads_cores [OF law]) simp_all
  have joined: "ThreadDestory (map (\<lambda>th. th\<lparr>thread_ptr := Some Joinable\<rparr>) ths) = Some ()" for ths
    by (rule ThreadDestory_started) (simp add: started_def)
  show ?thesis
    unfolding cores [symmetric]
    by (simp add: main_def Init_def r l ThreadInit_def start_all_eq joined Start_cases cpu_mask_def new_Thread_def
        Join_def delete_Thread_def)
qed

text \<open>
  C5. From the capture to the log files, in plain mode with one logger thread. The suppositions: the packets of the capture hold their headers, the 30 bytes behind the block of
  \<^verbatim>\<open>malloc\<close> can be read and do not look like an IPv4 frame, the processors are available, every
  \<open>checkRotate\<close> is on time and in a second of its own, every path can be opened, and
  all pushes together do not exceed the ring. Then the initialisation
  succeeds, and in every order in which the events of the threads can take effect the program runs
  without undefined behaviour. At the
  end the files, in the order of their times and numbers, then the buffer, then the ring hold the
  lines of packets \<open>ps\<close>, such that for every packet thread the packets of \<open>ps\<close> that belong to its
  group are exactly the TCP and UDP packets of the capture whose hash selects that group, in file
  order, as many times over as the thread has made rounds.
\<close>

theorem capture_to_files:
  assumes capture: "fs (pcap_file rte) = Some (capture_file header cs)" "length header = 24"
      "length (capture_file header cs) < 18446744073709551616" "\<forall>c \<in> set cs. capture_ok c" "quiet beyond"
    and rte: "packet_core_num rte = int P" "0 < P" "P < 256" "logger_core_num rte = 1" "\<not> is_gzip rte"
    and cpus: "\<forall>cpuset. setaffinity cpuset = 0 \<longleftrightarrow> cpuset \<inter> online \<noteq> {}" "{1 .. int P + 1} \<subseteq> online"
    and packets: "packets = concat (map (captured junk) cs)" "100 * length packets \<le> 134217727"
    and rotate: "es = thread_rotations (rds 0)" "\<forall>e \<in> set es. names_ok ''./log'' (gen_time e) \<and> (\<forall>p. can_open e p)"
      "distinct (map gen_time es)" "on_time (uptime2 boot) 1 0 (map Rotate es)"
  shows "\<exists>reader l0 ths evss. Init setaffinity junk_char Z boot fs beyond junk rte =
      Some (Inr (reader, l0, ths)) \<and> app_events stops rds reader ths = Some evss \<and>
    (\<forall>evs \<in> interleavings evss. \<exists>files l disk r ps. log_run Z evs l0 old_disk = Some (l, disk) \<and> m_data l = Some r \<and>
      map fst files = map gen_time es \<and>
      (\<forall>(time, cs) \<in> set files. \<forall>i < length cs. disk (log_path ''./log'' time (of_nat i)) = Some (cs ! i)) \<and>
      csv_text ps = concat (concat (map snd files)) @ m_buf l @ csv_text (ring_contents r) \<and>
      (\<forall>i < P. filter (\<lambda>p. unat (Hash4Tuple p) mod P = i) ps =
        concat (replicate (rounds (stops (int i)) kTimes) (filter (\<lambda>p. unat (Hash4Tuple p) mod P = i) packets))))"
proof -
  let ?g = "\<lambda>p. unat (Hash4Tuple p) mod P"
  let ?k = "\<lambda>i. rounds (stops (int i)) kTimes"
  obtain l0 where l0: "logger_init junk_char Z boot ''./log'' 104857600 1 kCompressNone new_BasicBusinessLogger =
      Some (0, l0)" using logger_init_returns by blast
  have ct: "kCompressNone \<noteq> kCompressGzip" by (simp add: kCompressNone_def kCompressGzip_def)
  have init: "logger_init junk_char Z boot ''./log'' 104857600 1 (if is_gzip rte then kCompressGzip else kCompressNone)
      new_BasicBusinessLogger = Some (0, l0)" using l0 rte(5) by simp
  obtain reader ths where start: "Init setaffinity junk_char Z boot fs beyond junk rte =
      Some (Inr (reader, l0, ths))" "app_events stops rds reader ths = Some (map Rotate es #
        map (\<lambda>i. map Push (concat (replicate (?k i) (filter (\<lambda>p. ?g p = i) packets)))) [0..<P])"
    using Init_events [where fs = fs and rte = rte, OF capture rte(1-4) cpus packets(1) init] rotate(1) by blast
  have runs: "\<exists>files l disk r ps. log_run Z evs l0 old_disk = Some (l, disk) \<and> m_data l = Some r \<and>
      map fst files = map gen_time es \<and>
      (\<forall>(time, cs) \<in> set files. \<forall>i < length cs. disk (log_path ''./log'' time (of_nat i)) = Some (cs ! i)) \<and>
      csv_text ps = concat (concat (map snd files)) @ m_buf l @ csv_text (ring_contents r) \<and>
      (\<forall>i < P. filter (\<lambda>p. ?g p = i) ps = concat (replicate (?k i) (filter (\<lambda>p. ?g p = i) packets)))"
    if evs: "evs \<in> interleavings (map Rotate es #
      map (\<lambda>i. map Push (concat (replicate (?k i) (filter (\<lambda>p. ?g p = i) packets)))) [0..<P])" for evs
  proof -
    note order = run_order [where k = ?k and g = ?g, OF evs]
    have "length (pushes evs) \<le> kTimes * length packets"
      using run_length [where k = ?k and g = ?g and m = kTimes, OF evs] rte(2) by (simp add: rounds_le)
    then have all: "accepted 134217727 evs 0 = pushes evs"
      using packets(2) by (intro accepted_pushes) (simp add: kTimes_def)
    have world: "\<forall>e \<in> set (rotations evs). names_ok ''./log'' (gen_time e) \<and> (\<forall>p. can_open e p)"
      "distinct (map gen_time (rotations evs))" "on_time (uptime2 boot) 1 0 evs"
      using rotate(2-4) by (simp_all add: order(1) on_time_rotations [of _ _ _ evs])
    then show ?thesis
      using logger_run_files [OF l0 ct world, where fs = old_disk] order(2) unfolding order(1) all by blast
  qed
  show ?thesis by (rule exI, rule exI, rule exI, rule exI, intro conjI, rule start(1), rule start(2)) (use runs in blast)
qed


section \<open>The hypotheses hold on a small capture\<close>

definition small_Rte :: "int \<Rightarrow> Rte" where
  "small_Rte n = (default_Rte n)\<lparr>pcap_file := ''a.pcap''\<rparr>"

text \<open>A machine with the processors 0 to \<open>n - 1\<close>; 22 is \<^verbatim>\<open>EINVAL\<close>.\<close>

definition affinity :: "int \<Rightarrow> int set \<Rightarrow> int" where
  "affinity n cpuset = (if cpuset \<inter> {0..<n} \<noteq> {} then 0 else 22)"

lemma affinity_law: "\<forall>cpuset. affinity n cpuset = 0 \<longleftrightarrow> cpuset \<inter> {0..<n} \<noteq> {}"
  by (simp add: affinity_def)

lemma small_Rte_fields [simp]: "pcap_file (small_Rte n) = ''a.pcap''" "packet_core_num (small_Rte n) = 8"
  "logger_core_num (small_Rte n) = 1" "\<not> is_gzip (small_Rte n)"
  by (simp_all add: small_Rte_def default_Rte_def)

lemma small_capture_all: "\<forall>c \<in> set [small_capture]. capture_ok c"
  by (simp add: small_capture_ok)

text \<open>With the default settings, 8 packet threads and 1 logger thread, a machine of 8 processors is too small.\<close>

theorem main_exit_code_witness:
  "main (affinity 8) (CHR 0x00) store_zlib (sample_env 100) small_files (replicate 30 0) blank_packet (small_Rte 8) =
      Some (-1) \<and>
   main (affinity 10) (CHR 0x00) store_zlib (sample_env 100) small_files (replicate 30 0) blank_packet (small_Rte 10) =
      Some 0"
proof -
  have "main (affinity n) (CHR 0x00) store_zlib (sample_env 100) small_files (replicate 30 0) blank_packet (small_Rte n) =
      Some (if \<forall>c. 1 \<le> c \<and> c \<le> 9 \<longrightarrow> c \<in> {0..<n} \<and> c < 1024 then 0 else -1)" for n
    using main_exit_code [where fs = small_files and rte = "small_Rte n", OF affinity_law _ _
      small_files_ok(2) small_capture_all quiet_zeros(2), of n "CHR 0x00" store_zlib "sample_env 100"] small_files_ok(1) by simp
  from this [of 8] this [of 10] show ?thesis by (auto intro!: exI [of _ 9])
qed

text \<open>One logger thread that rotates once, while the packet threads make all their rounds.\<close>

definition small_rds :: "int \<Rightarrow> (bool \<times> bool \<times> env) list" where
  "small_rds i = [(False, False, sample_env 102)]"

lemma small_run:
  "small_files (pcap_file (small_Rte n)) = Some (capture_file (replicate 24 0) [small_capture])"
  "packet_core_num (small_Rte n) = int 8" "{1 .. int 8 + 1} \<subseteq> {0..<10}"
  "length (concat (map (captured blank_packet) [small_capture])) = 1"
  "[sample_env 102] = thread_rotations (small_rds 0)"
  "\<forall>e \<in> set [sample_env 102]. names_ok ''./log'' (gen_time e) \<and> (\<forall>p. can_open e p)"
  "distinct (map gen_time [sample_env 102])" "on_time (uptime2 (sample_env 100)) 1 0 (map Rotate [sample_env 102])"
  "map gen_time [sample_env 102] = [''20170612163257'']" "rounds (\<lambda>k. False) kTimes = 100"
  using small_files_ok(1) by (simp_all add: small_captured small_rds_def thread_rotations_def
      sample_env_def names_ok_def rounds_all kTimes_def subset_iff)

theorem capture_to_files_witness:
  "\<exists>reader l0 ths evss evs files l disk r ps.
    Init (affinity 10) (CHR 0x00) store_zlib (sample_env 100) small_files (replicate 30 0) blank_packet (small_Rte 10) =
      Some (Inr (reader, l0, ths)) \<and>
    app_events (\<lambda>i k. False) small_rds reader ths = Some evss \<and>
    evs \<in> interleavings evss \<and> log_run store_zlib evs l0 Map.empty = Some (l, disk) \<and>
    map fst files = [''20170612163257''] \<and>
    csv_text ps = concat (concat (map snd files)) @ m_buf l @ csv_text (ring_contents r) \<and>
    filter (\<lambda>p. unat (Hash4Tuple p) mod 8 = 4) ps =
      concat (replicate 100 (filter (\<lambda>p. unat (Hash4Tuple p) mod 8 = 4) (captured blank_packet small_capture)))"
proof -
  have len: "100 * length (concat (map (captured blank_packet) [small_capture])) \<le> 134217727"
    unfolding small_run(4) by simp
  have c: "concat (map (captured blank_packet) [small_capture]) = captured blank_packet small_capture" by simp
  note run = capture_to_files [where fs = small_files and rds = small_rds and stops = "\<lambda>i k. False" and P = 8
      and old_disk = Map.empty and Z = store_zlib and boot = "sample_env 100" and junk_char = "CHR 0x00",
    OF small_run(1) _ small_files_ok(2) small_capture_all quiet_zeros(2) small_run(2) _ _ small_Rte_fields(3,4) affinity_law
      small_run(3) refl len small_run(5-8), unfolded small_run(9,10) c]
  obtain reader l0 ths evss where 1: "Init (affinity 10) (CHR 0x00) store_zlib (sample_env 100) small_files (replicate 30 0)
      blank_packet (small_Rte 10) = Some (Inr (reader, l0, ths))"
    "app_events (\<lambda>i k. False) small_rds reader ths = Some evss"
    and runs: "\<forall>evs \<in> interleavings evss. \<exists>files l disk r ps. log_run store_zlib evs l0 Map.empty = Some (l, disk) \<and>
      m_data l = Some r \<and> map fst files = [''20170612163257''] \<and>
      (\<forall>(time, cs) \<in> set files. \<forall>i < length cs. disk (log_path ''./log'' time (of_nat i)) = Some (cs ! i)) \<and>
      csv_text ps = concat (concat (map snd files)) @ m_buf l @ csv_text (ring_contents r) \<and>
      (\<forall>i < 8. filter (\<lambda>p. unat (Hash4Tuple p) mod 8 = i) ps =
        concat (replicate 100 (filter (\<lambda>p. unat (Hash4Tuple p) mod 8 = i) (captured blank_packet small_capture))))"
    by (rule run [elim_format]) (simp, simp, simp, elim exE conjE, assumption)
  obtain files l disk r ps where "log_run store_zlib (concat evss) l0 Map.empty = Some (l, disk)"
    "map fst files = [''20170612163257'']"
    "csv_text ps = concat (concat (map snd files)) @ m_buf l @ csv_text (ring_contents r)"
    "\<forall>i < 8. filter (\<lambda>p. unat (Hash4Tuple p) mod 8 = i) ps =
        concat (replicate 100 (filter (\<lambda>p. unat (Hash4Tuple p) mod 8 = i) (captured blank_packet small_capture)))"
    using bspec [OF runs concat_in_interleavings] by (elim exE conjE)
  then show ?thesis using 1 concat_in_interleavings [of evss]
    by (intro exI [of _ reader] exI [of _ l0] exI [of _ ths] exI [of _ evss] exI [of _ "concat evss"]
        exI [of _ files] exI [of _ l] exI [of _ disk] exI [of _ r] exI [of _ ps] conjI) simp_all
qed

end
