(* ===== verification/Conc_Log.thy ===== *)
theory Conc_Log
  imports Ring_Run Log_Sink "HOL-Library.Sublist"
begin

text \<open>
  The logger with its ring shared by the running threads: packet threads in the middle of \<open>push_back\<close>
  and a logger thread in the middle of \<open>checkRotate\<close>, interleaved at every access to the ring. This
  is the composition of the thread steps of theory \<open>Ring_Conc\<close> with the rotation of theory \<open>Logger\<close>;
  it shows that a rotation can be taken for one event, as theory \<open>Log_Sink\<close> does.
\<close>

section \<open>The parts of checkRotate\<close>

text \<open>Before the ring is read, and after \<open>DoDequeue\<close> has returned.\<close>

definition rotate_enter :: "env \<Rightarrow> 'z BasicBusinessLogger \<Rightarrow> bool \<times> 'z BasicBusinessLogger" where
  "rotate_enter e l =
     (let isTimeOut = (uptime e - m_start_time l > m_roate_cnt l * m_rotate_cycle l)
      in (isTimeOut,
          if isTimeOut then l\<lparr>m_uptimeBak := ucast (uptime2 e), m_roate_cnt := m_roate_cnt l + 1\<rparr> else l))"

definition rotate_rest :: "'z zlib \<Rightarrow> env \<Rightarrow> bool \<Rightarrow> PcapPacket list \<Rightarrow> 'z BasicBusinessLogger \<Rightarrow> disk \<Rightarrow>
    (int \<times> 'z BasicBusinessLogger \<times> disk) option" where
  "rotate_rest Z e isTimeOut data l fs =
     (let l = l\<lparr>m_serial_cnt := 0\<rparr>;
          l = getFileGenTime e l
      in do {
        (l, fs) \<leftarrow> rotate_loop Z e data l fs;
        if isTimeOut \<and> m_serial_cnt l = 0
        then do { (ret, l, fs) \<leftarrow> outputFile Z e l fs; Some (1, l, fs) }
        else Some (1, l, fs) })"

lemma checkRotate_parts:
  "checkRotate Z e l fs =
     (let (isTimeOut, l) = rotate_enter e l
      in do {
        r \<leftarrow> m_data l;
        (how_much, data, l) \<leftarrow>
          (if isTimeOut \<or> RingFreeCount r \<le> 67108864 then do {
             (how_much, available, data, r) \<leftarrow>
               DoDequeue r (replicate (unat kVectorThreshold) (blank e)) kVectorThreshold;
             Some (how_much, data, l\<lparr>m_data := Some r\<rparr>) }
           else None);
        rotate_rest Z e isTimeOut (take (unat how_much) data) l fs })"
proof -
  have assoc: "(if c then do { (ret, l, fs) \<leftarrow> outputFile Z e l gs; Some (l, fs) } else Some (l, gs)) \<bind>
        (\<lambda>(l, fs). Some (1, l, fs)) =
      (if c then do { (ret, l, fs) \<leftarrow> outputFile Z e l gs; Some (1, l, fs) } else Some (1 :: int, l, gs))"
    for c and l :: "'a BasicBusinessLogger" and gs
    by (cases "outputFile Z e l gs") auto
  show ?thesis
    unfolding checkRotate_def rotate_enter_def rotate_rest_def Let_def case_prod_conv assoc ..
qed

section \<open>The running system\<close>

text \<open>
  The ring with its threads; the packets each packet thread has still to push; the logger, whose
  field \<open>m_data\<close> points to that ring, and the disk; the calls of \<open>checkRotate\<close> still to come, each with
  what it sees of the world; and the call the logger thread is in, with \<open>isTimeOut\<close>. A use of an
  uninitialised variable or an access outside an array makes the system \<open>faulted\<close>.
\<close>

record 'z app_sys =
  sys :: "PcapPacket ring_sys"
  todo :: "nat \<Rightarrow> PcapPacket list"
  logger :: "'z BasicBusinessLogger"
  files_of :: disk
  calls :: "env list"
  rotating :: "(env \<times> bool) option"
  faulted :: bool

text \<open>What the call of \<open>DoDequeue\<close> that ends with this step has delivered.\<close>

definition delivered :: "'a ring_sys \<Rightarrow> 'a ring_sys \<Rightarrow> 'a list" where
  "delivered s t = concat (map snd (drop (length (returned s)) (returned t)))"

inductive app_step :: "'z zlib \<Rightarrow> 'z app_sys \<Rightarrow> 'z app_sys \<Rightarrow> bool" for Z :: "'z zlib" where
  push_call: "producers (sys s) i = P_idle \<Longrightarrow> todo s i = p # ps \<Longrightarrow>
    app_step Z s (s\<lparr>sys := set_producer i (P_start [p]) (sys s), todo := (todo s)(i := ps)\<rparr>)"
| push_run: "producers (sys s) i \<noteq> P_idle \<Longrightarrow> producer_step i (sys s) t \<Longrightarrow>
    app_step Z s (s\<lparr>sys := t\<rparr>)"
| rotate_call: "rotating s = None \<Longrightarrow> consumers (sys s) 0 = C_idle \<Longrightarrow> calls s = e # es \<Longrightarrow> rotate_enter e (logger s) = (isTimeOut, l) \<Longrightarrow>
    isTimeOut \<or> RingFreeCount (ring (sys s)) \<le> 67108864 \<Longrightarrow>
    app_step Z s (s\<lparr>sys := set_consumer 0 (C_start kVectorThreshold) (sys s), logger := l, calls := es,
      rotating := Some (e, isTimeOut)\<rparr>)"
| rotate_early: "rotating s = None \<Longrightarrow> consumers (sys s) 0 = C_idle \<Longrightarrow> calls s = e # es \<Longrightarrow> rotate_enter e (logger s) = (isTimeOut, l) \<Longrightarrow>
    \<not> (isTimeOut \<or> RingFreeCount (ring (sys s)) \<le> 67108864) \<Longrightarrow>
    app_step Z s (s\<lparr>calls := es, faulted := True\<rparr>)"
| rotate_run: "consumers (sys s) 0 \<noteq> C_idle \<Longrightarrow> consumer_step 0 (sys s) t \<Longrightarrow> consumers t 0 \<noteq> C_idle \<Longrightarrow>
    app_step Z s (s\<lparr>sys := t\<rparr>)"
| rotate_return: "consumers (sys s) 0 \<noteq> C_idle \<Longrightarrow> consumer_step 0 (sys s) t \<Longrightarrow> consumers t 0 = C_idle \<Longrightarrow>
    rotating s = Some (e, isTimeOut) \<Longrightarrow>
    rotate_rest Z e isTimeOut (delivered (sys s) t) (logger s) (files_of s) = Some (ret, l, fs) \<Longrightarrow>
    app_step Z s (s\<lparr>sys := t, logger := l, files_of := fs, rotating := None\<rparr>)"
| rotate_fault: "consumers (sys s) 0 \<noteq> C_idle \<Longrightarrow> consumer_step 0 (sys s) t \<Longrightarrow> consumers t 0 = C_idle \<Longrightarrow>
    rotating s = Some (e, isTimeOut) \<Longrightarrow>
    rotate_rest Z e isTimeOut (delivered (sys s) t) (logger s) (files_of s) = None \<Longrightarrow>
    app_step Z s (s\<lparr>faulted := True\<rparr>)"

definition app_start :: "PcapPacket BuffRing \<Rightarrow> (nat \<Rightarrow> PcapPacket list) \<Rightarrow> 'z BasicBusinessLogger \<Rightarrow> disk \<Rightarrow>
    env list \<Rightarrow> 'z app_sys" where
  "app_start r pushes_of l fs es = \<lparr>sys = start_sys r, todo = pushes_of, logger = l, files_of = fs, calls = es,
     rotating = None, faulted = False\<rparr>"

inductive app_reach :: "'z zlib \<Rightarrow> 'z app_sys \<Rightarrow> 'z app_sys \<Rightarrow> bool" for Z :: "'z zlib" and s0 :: "'z app_sys" where
  start: "app_reach Z s0 s0"
| step: "app_reach Z s0 s \<Longrightarrow> app_step Z s t \<Longrightarrow> app_reach Z s0 t"

section \<open>The packets of each thread\<close>

text \<open>What a thread is about to put into the ring and has not reserved a slot for.\<close>

fun in_flight :: "'a producer \<Rightarrow> 'a list" where
  "in_flight (P_start xs) = xs"
| "in_flight (P_head xs h g) = xs"
| "in_flight (P_cas xs h g n) = xs"
| "in_flight p = []"

text \<open>The packets of thread \<open>i\<close>, which are those of class \<open>i\<close>, on all their ways.\<close>

definition account :: "(PcapPacket \<Rightarrow> nat) \<Rightarrow> 'z app_sys \<Rightarrow> nat \<Rightarrow> PcapPacket list" where
  "account g s i = filter (\<lambda>p. g p = i) (ring_sys.accepted (sys s)) @ in_flight (producers (sys s) i) @ todo s i"

definition threads_ok :: "(PcapPacket \<Rightarrow> nat) \<Rightarrow> 'z app_sys \<Rightarrow> bool" where
  "threads_ok g s \<longleftrightarrow> (\<forall>i. length (in_flight (producers (sys s) i)) \<le> 1 \<and>
     (\<forall>p \<in> set (in_flight (producers (sys s) i)) \<union> set (todo s i). g p = i))"

lemma granted_one:
  assumes "n \<noteq> (0 :: u32)" "unat n \<le> length xs" "length xs \<le> 1"
  shows "take (unat n) xs = xs"
proof -
  have "unat n \<noteq> 0" using assms(1) by (simp add: unat_eq_0)
  then show ?thesis using assms(2,3) by simp
qed

lemma filter_class: "\<forall>p \<in> set xs. g p = i \<Longrightarrow> filter (\<lambda>p. g p = j) xs = (if j = i then xs else [])"
  by (induction xs) auto

text \<open>A step of a thread inside \<open>DoEnqueue\<close> keeps all accounts, or drops the packet it was refused.\<close>

lemma producer_account:
  assumes step: "producer_step i (sys s) t" and busy: "producers (sys s) i \<noteq> P_idle"
    and inv: "conc_inv (sys s)" and ok: "threads_ok g s"
  shows "threads_ok g (s\<lparr>sys := t\<rparr>) \<and>
    ((\<forall>j. account g (s\<lparr>sys := t\<rparr>) j = account g s j) \<or>
     (\<exists>xs h k. producers (sys s) i = P_head xs h k \<and> xs \<noteq> [] \<and>
        grant (ring (sys s)) (of_nat (length xs)) (prod_free (ring (sys s)) h) = 0 \<and>
        (\<forall>j. subseq (account g (s\<lparr>sys := t\<rparr>) j) (account g s j))))"
proof -
  have here: "length (in_flight (producers (sys s) i)) \<le> 1" "\<forall>p \<in> set (in_flight (producers (sys s) i)). g p = i"
    using ok by (simp_all add: threads_ok_def)
  from step show ?thesis
proof (cases rule: producer_step.cases)
  case (p_cas_ok xs h k n)
  have xs: "length xs \<le> 1" "\<forall>p \<in> set xs. g p = i"
    using here p_cas_ok(2) by simp_all
  have "n \<noteq> 0" "unat n \<le> length xs" using conc_invD(3) [OF inv, of i] p_cas_ok(2) by simp_all
  then have all: "take (unat n) xs = xs" using xs(1) by (rule granted_one)
  then show ?thesis
    using ok p_cas_ok filter_class [OF xs(2)] by (auto simp: threads_ok_def account_def all)
next
  case (p_refused xs h k)
  have ok': "threads_ok g (s\<lparr>sys := t\<rparr>)" using ok p_refused by (auto simp: threads_ok_def)
  show ?thesis
  proof (cases "xs = []")
    case True
    then show ?thesis using p_refused ok' by (auto simp: account_def)
  next
    case False
    have "subseq (account g (s\<lparr>sys := t\<rparr>) j) (account g s j)" for j
      using p_refused by (simp add: account_def subseq_append' subseq_drop_many)
    then show ?thesis using False p_refused(2,3) ok' by blast
  qed
qed (use ok busy here in \<open>auto simp: threads_ok_def account_def split: if_splits\<close>)
qed

lemma producer_frame: "producer_step i s t \<Longrightarrow> returned t = returned s \<and> consumers t = consumers s"
  by (auto elim!: producer_step.cases)

lemma consumer_frame: "consumer_step i s t \<Longrightarrow> ring_sys.accepted t = ring_sys.accepted s \<and> producers t = producers s"
  by (auto elim!: consumer_step.cases)

lemma same_threads:
  assumes "ring_sys.accepted (sys t) = ring_sys.accepted (sys s)" "producers (sys t) = producers (sys s)" "todo t = todo s"
  shows "threads_ok g t = threads_ok g s" "account g t = account g s"
  using assms by (simp_all add: threads_ok_def account_def fun_eq_iff)

lemma reach_more:
  assumes "new_BuffRing d sz behav sp sc = Some r" "reach r s" "conc_step s t"
    "length (ring_sys.accepted t) < 4294967296"
  shows "reach r t"
proof -
  have "conc_inv t" using inv_step [OF assms(3)] reach_inv [OF assms(1,2)] by simp
  from positions_window [OF this] have "taken t < 4294967296" using assms(4) by linarith
  then show ?thesis using reach.step [OF assms(2,3)] fresh_small assms(4) by blast
qed

lemma accepted_length:
  assumes "\<forall>i. subseq (account g s i) (T i)" "\<forall>p. g p < n"
  shows "length (ring_sys.accepted (sys s)) \<le> (\<Sum>i < n. length (T i))"
proof -
  have "length (filter (\<lambda>p. g p = i) (ring_sys.accepted (sys s))) \<le> length (T i)" for i
    using list_emb_length [OF assms(1) [rule_format, of i]] by (simp add: account_def)
  then show ?thesis using length_by_class [OF assms(2), of "ring_sys.accepted (sys s)"] by (simp add: sum_mono)
qed

text \<open>What every step of the system is for the ring and for the threads' packets.\<close>

lemma app_step_ring:
  assumes step: "app_step Z s t" and flags: "\<not> single_producer (ring (sys s))"
    and inv: "conc_inv (sys s)" and ok: "threads_ok g s"
  shows "(sys t = sys s \<or> conc_step (sys s) (sys t)) \<and> threads_ok g t \<and>
    ((\<forall>j. account g t j = account g s j) \<or>
     (\<exists>i xs h k. producers (sys s) i = P_head xs h k \<and> xs \<noteq> [] \<and>
        grant (ring (sys s)) (of_nat (length xs)) (prod_free (ring (sys s)) h) = 0 \<and>
        (\<forall>j. subseq (account g t j) (account g s j))))"
  using step
proof (cases rule: app_step.cases)
  case (push_call i p ps)
  have "conc_step (sys s) (set_producer i (P_start [p]) (sys s))"
    using producer_step.p_call [OF push_call(2), of "[p]"] flags
    by (intro conc_step.by_producer [of i]) (simp_all add: may_produce_def)
  then show ?thesis using push_call ok
    by (auto simp: threads_ok_def account_def dest: spec [of _ i])
next
  case (push_run i u)
  have "conc_step (sys s) u" using push_run(3) flags by (auto simp: may_produce_def intro: conc_step.by_producer)
  then show ?thesis using producer_account [OF push_run(3,2) inv ok] push_run(1) by auto
next
  case (rotate_call e es isTimeOut l)
  have "conc_step (sys s) (set_consumer 0 (C_start kVectorThreshold) (sys s))"
    by (rule conc_step.by_consumer [OF consumer_step.c_call [OF rotate_call(3)]]) (simp add: may_consume_def)
  then show ?thesis using rotate_call ok
    by (auto simp: threads_ok_def account_def)
next
  case (rotate_run u)
  have "conc_step (sys s) u" by (rule conc_step.by_consumer [OF rotate_run(3)]) (simp add: may_consume_def)
  then show ?thesis using rotate_run(1) ok same_threads [of t s g] consumer_frame [OF rotate_run(3)] by simp
next
  case (rotate_return u e isTimeOut ret l fs)
  have "conc_step (sys s) u" by (rule conc_step.by_consumer [OF rotate_return(3)]) (simp add: may_consume_def)
  then show ?thesis using rotate_return(1) ok same_threads [of t s g] consumer_frame [OF rotate_return(3)] by simp
qed (use ok same_threads [of t s g] in simp_all)


section \<open>Reachable states\<close>

lemma logger_flags:
  assumes "new_BuffRing d sz kRingQueueVariable False True = Some r" "reach r s"
  shows "\<not> single_producer (ring s)" "capacity (ring s) = capacity r" "single_consumer (ring s)"
  using reach_shape [OF assms(2)] assms(1)
  by (auto simp: same_shape_def new_BuffRing_def split: option.splits bind_splits)

lemma app_reach_ring:
  assumes ring: "new_BuffRing d sz kRingQueueVariable False True = Some r"
    and T: "\<forall>i. \<forall>p \<in> set (T i). g p = i" "\<forall>p. g p < n" "(\<Sum>i < n. length (T i)) < 4294967296"
    and run: "app_reach Z (app_start r T l fs es) s"
  shows "reach r (sys s) \<and> threads_ok g s \<and> (\<forall>i. subseq (account g s i) (T i))"
  using run
proof (induction rule: app_reach.induct)
  case start
  then show ?case using T(1) reach.start
    by (simp add: app_start_def start_sys_def threads_ok_def account_def)
next
  case (step s t)
  note inv = reach_inv(1) [OF ring] and flags = logger_flags [OF ring]
  have s: "reach r (sys s)" "threads_ok g s" "\<forall>i. subseq (account g s i) (T i)" using step.IH by simp_all
  note st = app_step_ring [OF step.hyps(2) flags(1) [OF s(1)] inv [OF s(1)] s(2)]
  then have "subseq (account g t i) (account g s i)" for i by auto
  then have sub: "\<forall>i. subseq (account g t i) (T i)" using s(3) subseq_order.order_trans by blast
  then have len: "length (ring_sys.accepted (sys t)) < 4294967296"
    using accepted_length [OF sub T(2)] T(3) by simp
  have "reach r (sys t)" using st s(1) reach_more [OF ring s(1) _ len] by metis
  then show ?case using st sub by blast
qed

text \<open>While all packets fit into the ring none is refused.\<close>

lemma room_granted:
  assumes inv: "conc_inv s" and p: "producers s i = P_head xs h k" "xs \<noteq> []" "length xs \<le> 1"
    and room: "length (ring_sys.accepted s) < unat (capacity (ring s))" "length (ring_sys.accepted s) < 1073741824"
  shows "grant (ring s) (of_nat (length xs)) (prod_free (ring s) h) \<noteq> 0"
proof -
  have one: "length xs = 1" using p(2,3) by (cases xs) simp_all
  have k: "h = of_nat k" "k \<le> length (ring_sys.accepted s)" using conc_invD(3) [OF inv, of i] p(1) by simp_all
  note d = conc_invD(1,2) [OF inv]
  have c: "unat (capacity (ring s)) < 2147483648" using static_okD(2,3) [OF d(1)] by linarith
  have rel: "released s \<le> length (ring_sys.accepted s)" "tail (cons_ht (ring s)) = of_nat (released s)"
    using d(2) by (auto simp: positions_ok_def)
  have "prod_free (ring s) h = of_nat (unat (capacity (ring s)) + released s - k)"
    using k room(1) rel by (simp add: prod_free_def of_nat_diff algebra_simps)
  then have "unat (prod_free (ring s) h) = unat (capacity (ring s)) + released s - k"
    using c room rel(1) by (simp add: unat_of_nat32)
  then have "0 < unat (prod_free (ring s) h)" using k(2) room(1) by linarith
  then have "prod_free (ring s) h \<noteq> 0" by (simp add: unat_gt_0)
  then show ?thesis using one by (simp add: grant_def word_gt_0)
qed

lemma app_reach_room:
  assumes ring: "new_BuffRing d sz kRingQueueVariable False True = Some r"
    and T: "\<forall>i. \<forall>p \<in> set (T i). g p = i" "\<forall>p. g p < n" "(\<Sum>i < n. length (T i)) \<le> unat (capacity r)"
      "(\<Sum>i < n. length (T i)) < 1073741824"
    and run: "app_reach Z (app_start r T l fs es) s"
  shows "account g s = T"
  using run
proof (induction rule: app_reach.induct)
  case start
  then show ?case by (simp add: app_start_def start_sys_def account_def fun_eq_iff)
next
  case (step s t)
  have small: "(\<Sum>i < n. length (T i)) < 4294967296" using T(4) by simp
  have s: "reach r (sys s)" "threads_ok g s"
    using app_reach_ring [OF ring T(1,2) small step.hyps(1)] by simp_all
  note inv = reach_inv(1) [OF ring s(1)] and flags = logger_flags [OF ring s(1)]
  have granted: False
    if p: "producers (sys s) i = P_head xs h k" "xs \<noteq> []"
      "grant (ring (sys s)) (of_nat (length xs)) (prod_free (ring (sys s)) h) = 0" for i xs h k
  proof -
    have one: "length xs \<le> 1" using s(2) p(1) by (auto simp: threads_ok_def dest: spec [of _ i])
    have cls: "\<forall>p \<in> set xs. g p = i" using s(2) p(1) by (auto simp: threads_ok_def dest: spec [of _ i])
    have "length (filter (\<lambda>p. g p = j) (ring_sys.accepted (sys s))) + (if j = i then length xs else 0) \<le> length (T j)" for j
      using step.IH [symmetric] p(1) by (simp add: account_def)
    then have "(\<Sum>j < n. length (filter (\<lambda>p. g p = j) (ring_sys.accepted (sys s))) + (if j = i then length xs else 0)) \<le>
        (\<Sum>j < n. length (T j))" by (intro sum_mono)
    moreover have "i < n" using cls p(2) T(2) by (metis last_in_set)
    ultimately have "length (ring_sys.accepted (sys s)) + length xs \<le> (\<Sum>j < n. length (T j))"
      by (simp add: sum.distrib length_by_class [OF T(2), of "ring_sys.accepted (sys s)", symmetric])
    moreover have "0 < length xs" using p(2) by simp
    ultimately have "length (ring_sys.accepted (sys s)) < unat (capacity (ring (sys s)))"
      "length (ring_sys.accepted (sys s)) < 1073741824"
      using T(3,4) unfolding flags(2) by linarith+
    then show False using room_granted [OF inv p(1,2) one] p(3) by simp
  qed
  have "account g t j = account g s j" for j
    using app_step_ring [OF step.hyps(2) flags(1) inv s(2)] granted by blast
  then show ?case using step.IH by (simp add: fun_eq_iff)
qed

end
