(* ===== verification/Conc_Files.thy ===== *)
theory Conc_Files
  imports Conc_Log
begin

text \<open>
  What the logger thread of the running system (theory \<open>Conc_Log\<close>) has written: in every reachable state
  the files and the buffer hold what the calls of \<open>DoDequeue\<close> have delivered. Proved once over the interface
  \<open>file_sink\<close>.
\<close>

section \<open>A return of DoDequeue\<close>

lemma consumer_returns:
  assumes step: "consumer_step i s t" and inv: "conc_inv s"
  shows "concat (map snd (returned t)) = concat (map snd (returned s)) @ delivered s t"
    and "length (delivered s t) < 2147483648"
    and "consumers t i \<noteq> C_idle \<Longrightarrow> returned t = returned s"
proof -
  have "unat (capacity (ring s)) < 2147483648" using static_okD(2,3) [OF conc_invD(1) [OF inv]] by linarith
  moreover have "length (ring_sys.accepted s) \<le> released s + unat (capacity (ring s))"
    using conc_invD(2) [OF inv] by (simp add: positions_ok_def)
  ultimately have n: "n < 2147483648" if "consumers s i = C_copy h g n got" for h g n got
    using conc_invD(4) [OF inv, of i] that positions_window(2,3) [OF inv] by simp
  show "concat (map snd (returned t)) = concat (map snd (returned s)) @ delivered s t"
    using step by (auto elim!: consumer_step.cases simp: delivered_def)
  show "length (delivered s t) < 2147483648"
    using step n by (auto elim!: consumer_step.cases simp: delivered_def)
  show "consumers t i \<noteq> C_idle \<Longrightarrow> returned t = returned s"
    using step by (auto elim!: consumer_step.cases)
qed

section \<open>What has been written\<close>

text \<open>
  The texts \<open>tss\<close> of the files of the calls \<open>es\<close> that have returned, together with the buffer, are the lines
  of the packets delivered.
\<close>

definition written :: "(string \<Rightarrow> string option) \<Rightarrow> (string \<Rightarrow> nat \<Rightarrow> string) \<Rightarrow> disk \<Rightarrow> env list \<Rightarrow> disk \<Rightarrow> string \<Rightarrow> string \<Rightarrow> bool" where
  "written reads name fs0 es fs buf text \<longleftrightarrow> (\<exists>bs tss. fs = publish_all name bs fs0 \<and>
     map fst bs = map gen_time es \<and> (\<forall>b \<in> set bs. length (snd b) \<le> 2147483648) \<and>
     map (\<lambda>b. map reads (snd b)) bs = map (map Some) tss \<and> text = concat (concat tss) @ buf)"

lemma publish_all_snoc: "publish_all name (bs @ [(k, cs)]) fs = publish (name k) 0 cs (publish_all name bs fs)"
  by (induction bs arbitrary: fs) auto

lemma written_snoc:
  assumes "written reads name fs0 es fs buf text" "length cs \<le> 2147483648" "map reads cs = map Some ts"
    "buf @ extra = concat ts @ buf'"
  shows "written reads name fs0 (es @ [e]) (publish (name (gen_time e)) 0 cs fs) buf' (text @ extra)"
proof -
  obtain bs tss where b: "fs = publish_all name bs fs0" "map fst bs = map gen_time es"
    "\<forall>b \<in> set bs. length (snd b) \<le> 2147483648" "map (\<lambda>b. map reads (snd b)) bs = map (map Some) tss"
    "text = concat (concat tss) @ buf"
    using assms(1) by (auto simp: written_def)
  have "text @ extra = concat (concat (tss @ [ts])) @ buf'" using b(5) assms(4) by simp
  moreover have "map (\<lambda>b. map reads (snd b)) (bs @ [(gen_time e, cs)]) = map (map Some) (tss @ [ts])"
    using b(4) assms(3) by simp
  ultimately show ?thesis unfolding written_def using b(1-3) assms(2)
    by (intro exI [of _ "bs @ [(gen_time e, cs)]"] exI [of _ "tss @ [ts]"]) (simp add: publish_all_snoc)
qed

text \<open>The calls that have begun and not returned.\<close>

definition current :: "'z app_sys \<Rightarrow> env list" where
  "current s = (case rotating s of None \<Rightarrow> [] | Some (e, isTimeOut) \<Rightarrow> [e])"

definition delivered_text :: "'z app_sys \<Rightarrow> string" where
  "delivered_text s = csv_text (concat (map snd (returned (sys s))))"

context log_sink
begin

lemma ok_fresh [simp]: "ok (l\<lparr>m_serial_cnt := n, m_fileGenTime := t\<rparr>) = ok l"
  "buffered (l\<lparr>m_serial_cnt := n, m_fileGenTime := t\<rparr>) = buffered l"
  "ok (l\<lparr>m_uptimeBak := u, m_roate_cnt := c\<rparr>) = ok l"
  "buffered (l\<lparr>m_uptimeBak := u, m_roate_cnt := c\<rparr>) = buffered l"
  using sink_cong [of "l\<lparr>m_serial_cnt := n, m_fileGenTime := t\<rparr>" l] sink_cong [of "l\<lparr>m_uptimeBak := u, m_roate_cnt := c\<rparr>" l]
  by (simp_all add: sink_part_def)

lemma rotate_rest_sink:
  assumes "ok l" "\<forall>p. can_open e p" "clean_disk tmp_ok name (m_file_path l) fs" "length ps < 2147483648"
  shows "\<exists>cs ts l'. rotate_rest Z e isTimeOut ps l fs =
      Some (1, l', publish (name (m_file_path l) (gen_time e)) 0 cs fs) \<and> map reads cs = map Some ts \<and>
    buffered l @ csv_text ps = concat ts @ buffered l' \<and> length cs \<le> 2147483648 \<and> ok l' \<and>
    m_file_path l' = m_file_path l \<and> m_start_time l' = m_start_time l \<and> m_rotate_cycle l' = m_rotate_cycle l \<and>
    m_roate_cnt l' = m_roate_cnt l"
proof -
  let ?l = "l\<lparr>m_serial_cnt := 0, m_fileGenTime := gen_time e\<rparr>"
  have pre: "ok ?l" "m_serial_cnt ?l = 0" "clean_disk tmp_ok name (m_file_path ?l) fs" "length ps < 4294967296"
    using assms by simp_all
  obtain cs ts l' where "rotate_rest Z e isTimeOut ps l fs =
      Some (1, l', publish (name (m_file_path ?l) (m_fileGenTime ?l)) 0 cs fs)" "map reads cs = map Some ts"
    "buffered ?l @ csv_text ps = concat ts @ buffered l'" "length cs \<le> max 1 (length ps)" "ok l'" "same_log ?l l'"
    using rotation_sink [OF pre(1,2) assms(2) pre(3,4), of isTimeOut]
    unfolding rotate_rest_def Let_def getFileGenTime_def by blast
  then show ?thesis using assms(4)
    by (intro exI [of _ cs] exI [of _ ts] exI [of _ l']) (simp add: same_log_def)
qed

text \<open>The invariant of the logger thread; \<open>l0\<close>, \<open>fs0\<close> and \<open>es\<close> are the logger, the disk and the calls at the start.\<close>

definition log_inv :: "'z BasicBusinessLogger \<Rightarrow> disk \<Rightarrow> env list \<Rightarrow> 'z app_sys \<Rightarrow> bool" where
  "log_inv l0 fs0 es s \<longleftrightarrow> \<not> faulted s \<and> ok (logger s) \<and> m_file_path (logger s) = m_file_path l0 \<and>
     clean_disk tmp_ok name (m_file_path l0) (files_of s) \<and>
     on_time (m_start_time (logger s)) (m_rotate_cycle (logger s)) (m_roate_cnt (logger s)) (map Rotate (calls s)) \<and>
     (rotating s = None \<longleftrightarrow> consumers (sys s) 0 = C_idle) \<and>
     (\<exists>past. es = past @ current s @ calls s \<and>
       written reads (name (m_file_path l0)) fs0 past (files_of s) (buffered (logger s)) (delivered_text s))"

lemma log_inv_return:
  assumes inv: "log_inv l0 fs0 es s" and conc: "conc_inv (sys s)" and world: "\<forall>e \<in> set es. \<forall>p. can_open e p"
    and u: "consumer_step 0 (sys s) u" and call: "rotating s = Some (e, isTimeOut)"
  shows "\<exists>ret l fs. rotate_rest Z e isTimeOut (delivered (sys s) u) (logger s) (files_of s) = Some (ret, l, fs) \<and>
    (consumers u 0 = C_idle \<longrightarrow> log_inv l0 fs0 es (s\<lparr>sys := u, logger := l, files_of := fs, rotating := None\<rparr>))"
proof -
  note r = consumer_returns(1,2) [OF u conc]
  from inv obtain past where past: "es = past @ [e] @ calls s" "written reads (name (m_file_path l0)) fs0 past
      (files_of s) (buffered (logger s)) (delivered_text s)"
    using call by (auto simp: log_inv_def current_def)
  have open_e: "\<forall>p. can_open e p" using world past(1) by simp
  have pre: "ok (logger s)" "clean_disk tmp_ok name (m_file_path (logger s)) (files_of s)"
    "m_file_path (logger s) = m_file_path l0" using inv by (simp_all add: log_inv_def)
  obtain cs ts l where c: "rotate_rest Z e isTimeOut (delivered (sys s) u) (logger s) (files_of s) =
      Some (1, l, publish (name (m_file_path l0) (gen_time e)) 0 cs (files_of s))" "map reads cs = map Some ts"
    "buffered (logger s) @ csv_text (delivered (sys s) u) = concat ts @ buffered l" "length cs \<le> 2147483648" "ok l"
    "m_file_path l = m_file_path l0" "m_start_time l = m_start_time (logger s)"
    "m_rotate_cycle l = m_rotate_cycle (logger s)" "m_roate_cnt l = m_roate_cnt (logger s)"
    using rotate_rest_sink [OF pre(1) open_e pre(2) r(2), of isTimeOut] unfolding pre(3) by blast
  let ?fs = "publish (name (m_file_path l0) (gen_time e)) 0 cs (files_of s)"
  have "written reads (name (m_file_path l0)) fs0 (past @ [e]) ?fs (buffered l)
      (delivered_text s @ csv_text (delivered (sys s) u))"
    using written_snoc [OF past(2) c(4,2,3)] .
  moreover have "delivered_text s @ csv_text (delivered (sys s) u) = csv_text (concat (map snd (returned u)))"
    using r(1) by (simp add: delivered_text_def csv_text_def)
  ultimately have "log_inv l0 fs0 es (s\<lparr>sys := u, logger := l, files_of := ?fs, rotating := None\<rparr>)"
    if "consumers u 0 = C_idle"
    using inv c(5-9) that past(1) publish_clean [of "m_file_path l0" "files_of s" "gen_time e" 0 cs]
    by (auto simp: log_inv_def current_def delivered_text_def intro!: exI [of _ "past @ [e]"])
  then show ?thesis using c(1) by blast
qed

lemma log_inv_step:
  assumes step: "app_step Z s t" and inv: "log_inv l0 fs0 es s" and conc: "conc_inv (sys s)"
    and world: "\<forall>e \<in> set es. \<forall>p. can_open e p"
  shows "log_inv l0 fs0 es t"
  using step
proof (cases rule: app_step.cases)
  case (push_run i u)
  then show ?thesis using inv producer_frame [OF push_run(3)]
    by (simp add: log_inv_def current_def delivered_text_def)
next
  case (rotate_call e es' isTimeOut l)
  have "isTimeOut" "l = (logger s)\<lparr>m_uptimeBak := ucast (uptime2 e), m_roate_cnt := m_roate_cnt (logger s) + 1\<rparr>"
    using rotate_call(4,5) inv by (auto simp: log_inv_def rotate_enter_def)
  then show ?thesis using inv rotate_call(1-4) by (simp add: log_inv_def current_def delivered_text_def)
next
  case (rotate_early e es' isTimeOut l)
  then have False using inv by (auto simp: log_inv_def rotate_enter_def)
  then show ?thesis ..
next
  case (rotate_run u)
  then show ?thesis using inv consumer_returns(3) [OF rotate_run(3) conc rotate_run(4)]
    by (simp add: log_inv_def current_def delivered_text_def)
next
  case (rotate_return u e isTimeOut ret l fs)
  then show ?thesis using log_inv_return [OF inv conc world rotate_return(3,5)] by auto
next
  case (rotate_fault u e isTimeOut)
  then show ?thesis using log_inv_return [OF inv conc world rotate_fault(3,5)] by auto
qed (use inv in \<open>simp add: log_inv_def current_def delivered_text_def\<close>)

end

end
