(* ===== verification/Conc_Done.thy ===== *)
theory Conc_Done
  imports Conc_Files
begin

text \<open>
  The running application of theory \<open>Conc_Log\<close> can always finish: from every reachable state there are
  steps to a state in which every packet has been pushed or refused, every thread has left the ring and every
  call of \<open>checkRotate\<close> has returned. No state is a dead end, whatever the threads did before: from a
  state that is not finished some thread can take a step that lowers the measure \<open>ranking\<close>.
\<close>

section \<open>How far the threads are from the end\<close>

definition finished :: "'z app_sys \<Rightarrow> bool" where
  "finished s \<longleftrightarrow> (\<forall>i. todo s i = [] \<and> producers (sys s) i = P_idle) \<and> calls s = [] \<and>
     rotating s = None \<and> consumers (sys s) 0 = C_idle"

text \<open>
  The ranks go down along \<open>DoEnqueue\<close> and \<open>DoDequeue\<close>; a compare-and-swap that will fail, because the
  head has moved since it was read, stands before the start of the loop.
\<close>

fun producer_rank :: "u32 \<Rightarrow> 'a producer \<Rightarrow> nat" where
  "producer_rank now P_idle = 0"
| "producer_rank now (P_copy xs h g j) = Suc (length xs - j)"
| "producer_rank now (P_cas xs h g n) = (if h = now then 3 else 6)"
| "producer_rank now (P_head xs h g) = (if h = now then 4 else 7)"
| "producer_rank now (P_start xs) = 5"

fun consumer_rank :: "'a consumer \<Rightarrow> nat" where
  "consumer_rank C_idle = 0"
| "consumer_rank (C_copy h g n got) = Suc (n - length got)"
| "consumer_rank (C_cas want h g n) = unat n + 2"
| "consumer_rank (C_head want h g) = 4294967299"
| "consumer_rank (C_start want) = 4294967300"

definition unaccepted :: "nat \<Rightarrow> 'z app_sys \<Rightarrow> nat" where
  "unaccepted m s = (\<Sum>i < m. length (in_flight (producers (sys s) i)) + length (todo s i))"

definition unstarted :: "nat \<Rightarrow> 'z app_sys \<Rightarrow> nat" where
  "unstarted m s = (\<Sum>i < m. length (todo s i))"

definition ring_rank :: "nat \<Rightarrow> 'z app_sys \<Rightarrow> nat" where
  "ring_rank m s = (\<Sum>i < m. producer_rank (head (prod_ht (ring (sys s)))) (producers (sys s) i))"

definition ranking :: "nat \<Rightarrow> ('z app_sys \<times> 'z app_sys) set" where
  "ranking m = measures [unaccepted m, unstarted m, ring_rank m, \<lambda>s. length (calls s),
     \<lambda>s. consumer_rank (consumers (sys s) 0)]"


lemma sum_change:
  assumes "i < (m :: nat)" "\<forall>j. j \<noteq> i \<longrightarrow> f j = (g j :: nat)"
  shows "(\<Sum>j < m. f j) + g i = (\<Sum>j < m. g j) + f i"
proof -
  have "(\<Sum>j < m. f j) = f i + (\<Sum>j \<in> {..<m} - {i}. f j)" using assms(1) by (intro sum.remove) simp_all
  moreover have "(\<Sum>j < m. g j) = g i + (\<Sum>j \<in> {..<m} - {i}. g j)" using assms(1) by (intro sum.remove) simp_all
  moreover have "(\<Sum>j \<in> {..<m} - {i}. f j) = (\<Sum>j \<in> {..<m} - {i}. g j)" using assms(2) by (intro sum.cong) auto
  ultimately show ?thesis by simp
qed

section \<open>A step of a packet thread\<close>

text \<open>A step that moves thread \<open>i\<close> down, or drops or hands over what it has in flight.\<close>

definition descends :: "nat \<Rightarrow> 'a ring_sys \<Rightarrow> 'a ring_sys \<Rightarrow> bool" where
  "descends i s t \<longleftrightarrow> (\<forall>j. j \<noteq> i \<longrightarrow> producers t j = producers s j) \<and>
     (length (in_flight (producers t i)) < length (in_flight (producers s i)) \<or>
      in_flight (producers t i) = in_flight (producers s i) \<and> head (prod_ht (ring t)) = head (prod_ht (ring s)) \<and>
        producer_rank (head (prod_ht (ring s))) (producers t i) < producer_rank (head (prod_ht (ring s))) (producers s i))"

lemma step_descends:
  assumes "producer_step i s t" "producers s i \<noteq> P_idle" "producers t i \<noteq> producers s i" "conc_inv s"
    "\<not> single_producer (ring s)"
  shows "descends i s t"
  using assms(1)
proof (cases rule: producer_step.cases)
  case (p_cas_ok xs h g n)
  have "n \<noteq> 0" "unat n \<le> length xs" using conc_invD(3) [OF assms(4), of i] p_cas_ok(2) by simp_all
  then have "xs \<noteq> []" by (auto simp: unat_eq_0)
  then show ?thesis using p_cas_ok by (simp add: descends_def)
next
  case (p_refused xs h g)
  then show ?thesis by (cases "xs = []") (simp_all add: descends_def)
qed (use assms in \<open>auto simp: descends_def\<close>)

lemma busy_descends:
  assumes inv: "conc_inv s" and flag: "\<not> single_producer (ring s)" and busy: "producers s i \<noteq> P_idle"
  shows "\<exists>k t. producers s k \<noteq> P_idle \<and> producer_step k s t \<and> descends k s t"
proof -
  have "\<exists>k. producers s k \<noteq> P_idle \<and> producers (producer_next k [] s) k \<noteq> producers s k"
  proof (cases "\<exists>j xs h g n. producers s j = P_copy xs h g n")
    case True
    then show ?thesis using first_claim [OF inv] producer_next_moves [OF inv] by blast
  next
    case False
    with busy have "producers (producer_next i [] s) i \<noteq> producers s i"
      by (cases "producers s i") (auto simp: producer_next.simps Let_def)
    then show ?thesis using busy by blast
  qed
  then show ?thesis using producer_next_step [OF inv, of "[]"] step_descends [OF _ _ _ inv flag]
    by (metis list.size(3) zero_less_numeral)
qed

lemma descends_ranking:
  assumes i: "i < m" and t: "descends i (sys s) t"
  shows "(s\<lparr>sys := t\<rparr>, s) \<in> ranking m"
proof -
  have others: "\<forall>j. j \<noteq> i \<longrightarrow> producers t j = producers (sys s) j" using t by (simp add: descends_def)
  have A: "unaccepted m (s\<lparr>sys := t\<rparr>) + length (in_flight (producers (sys s) i)) =
      unaccepted m s + length (in_flight (producers t i))"
    using sum_change [OF i, of "\<lambda>j. length (in_flight (producers t j)) + length (todo s j)"
        "\<lambda>j. length (in_flight (producers (sys s) j)) + length (todo s j)"] others
    by (simp add: unaccepted_def)
  have B: "unstarted m (s\<lparr>sys := t\<rparr>) = unstarted m s" by (simp add: unstarted_def)
  have C: "ring_rank m (s\<lparr>sys := t\<rparr>) + producer_rank (head (prod_ht (ring (sys s)))) (producers (sys s) i) =
      ring_rank m s + producer_rank (head (prod_ht (ring (sys s)))) (producers t i)"
    if "head (prod_ht (ring t)) = head (prod_ht (ring (sys s)))"
    using sum_change [OF i, of "\<lambda>j. producer_rank (head (prod_ht (ring (sys s)))) (producers t j)"
        "\<lambda>j. producer_rank (head (prod_ht (ring (sys s)))) (producers (sys s) j)"] others that
    by (simp add: ring_rank_def)
  from t consider "length (in_flight (producers t i)) < length (in_flight (producers (sys s) i))"
    | "in_flight (producers t i) = in_flight (producers (sys s) i)"
      "head (prod_ht (ring t)) = head (prod_ht (ring (sys s)))"
      "producer_rank (head (prod_ht (ring (sys s)))) (producers t i) <
        producer_rank (head (prod_ht (ring (sys s)))) (producers (sys s) i)"
    unfolding descends_def by blast
  then show ?thesis
  proof cases
    case 1
    then have "unaccepted m (s\<lparr>sys := t\<rparr>) < unaccepted m s" using A by linarith
    then show ?thesis by (simp add: ranking_def)
  next
    case 2
    then have "unaccepted m (s\<lparr>sys := t\<rparr>) = unaccepted m s" "ring_rank m (s\<lparr>sys := t\<rparr>) < ring_rank m s"
      using A C by simp_all
    then show ?thesis by (simp add: ranking_def B)
  qed
qed


section \<open>The other steps\<close>

lemma push_ranking:
  assumes "i < m" "producers (sys s) i = P_idle" "todo s i = p # ps"
  shows "(s\<lparr>sys := set_producer i (P_start [p]) (sys s), todo := (todo s)(i := ps)\<rparr>, s) \<in> ranking m"
proof -
  let ?t = "s\<lparr>sys := set_producer i (P_start [p]) (sys s), todo := (todo s)(i := ps)\<rparr>"
  have "unaccepted m ?t = unaccepted m s"
    using assms(2,3) by (auto simp: unaccepted_def intro!: sum.cong)
  moreover have "unstarted m ?t < unstarted m s"
    using sum_change [OF assms(1), of "\<lambda>j. length (todo ?t j)" "\<lambda>j. length (todo s j)"] assms(3)
    by (simp add: unstarted_def)
  ultimately show ?thesis by (simp add: ranking_def)
qed

lemma single_consumer_runs:
  assumes "conc_inv s" "single_consumer (ring s)" "consumers s 0 \<noteq> C_idle"
  shows "consumer_step 0 s (consumer_next 0 0 s)"
    and "consumer_rank (consumers (consumer_next 0 0 s) 0) < consumer_rank (consumers s 0)"
    and "producers (consumer_next 0 0 s) = producers s" "prod_ht (ring (consumer_next 0 0 s)) = prod_ht (ring s)"
proof -
  have less: "unat (n :: u32) < 4294967296" for n using unsigned_less [of n] by simp
  show "consumer_step 0 s (consumer_next 0 0 s)" by (rule consumer_next_step [OF assms(1)])
  show "consumer_rank (consumers (consumer_next 0 0 s) 0) < consumer_rank (consumers s 0)"
  proof (cases "consumers s 0")
    case (C_head want h g)
    then show ?thesis using less [of "grant (ring s) want (tail (prod_ht (ring s)) - h)"]
      by (simp add: consumer_next.simps Let_def)
  qed (use assms(2,3) conc_invD(4) [OF assms(1), of 0] in \<open>auto simp: consumer_next.simps\<close>)
  show "producers (consumer_next 0 0 s) = producers s" "prod_ht (ring (consumer_next 0 0 s)) = prod_ht (ring s)"
    by (simp_all add: consumer_next.simps Let_def split: consumer.split)
qed

lemma consumer_ranking:
  assumes "producers u = producers (sys s)" "prod_ht (ring u) = prod_ht (ring (sys s))"
    "consumer_rank (consumers u 0) < consumer_rank (consumers (sys s) 0)"
    "sys t = u" "todo t = todo s" "calls t = calls s"
  shows "(t, s) \<in> ranking m"
  using assms by (simp add: ranking_def unaccepted_def unstarted_def ring_rank_def)

lemma call_step:
  assumes "rotating s = None" "consumers (sys s) 0 = C_idle" "calls s \<noteq> []"
  shows "\<exists>t. app_step Z s t \<and> (t, s) \<in> ranking m"
proof -
  obtain e es where es: "calls s = e # es" using assms(3) by (cases "calls s") auto
  obtain late l where l: "rotate_enter e (logger s) = (late, l)" by fastforce
  have "\<exists>t. app_step Z s t \<and> calls t = es \<and> todo t = todo s \<and> producers (sys t) = producers (sys s) \<and>
      ring (sys t) = ring (sys s)"
  proof (cases "late \<or> RingFreeCount (ring (sys s)) \<le> 67108864")
    case True
    show ?thesis by (intro exI conjI, rule app_step.rotate_call [OF assms(1,2) es l True]) simp_all
  next
    case False
    show ?thesis by (intro exI conjI, rule app_step.rotate_early [OF assms(1,2) es l False]) simp_all
  qed
  then obtain t where "app_step Z s t" "calls t = es" "todo t = todo s" "producers (sys t) = producers (sys s)"
    "ring (sys t) = ring (sys s)" by blast
  then show ?thesis using es
    by (intro exI [of _ t]) (simp add: ranking_def unaccepted_def unstarted_def ring_rank_def)
qed

section \<open>No state is a dead end\<close>

definition only_threads :: "nat \<Rightarrow> 'z app_sys \<Rightarrow> bool" where
  "only_threads m s \<longleftrightarrow> (\<forall>i \<ge> m. todo s i = [] \<and> producers (sys s) i = P_idle)"

lemma producer_others: "producer_step i s t \<Longrightarrow> j \<noteq> i \<Longrightarrow> producers t j = producers s j"
  by (auto elim!: producer_step.cases)

lemma only_threads_step: "app_step Z s t \<Longrightarrow> only_threads m s \<Longrightarrow> only_threads m t"
proof (induction rule: app_step.induct)
  case (push_call s i p ps)
  then show ?case by (auto simp: only_threads_def)
next
  case (push_run s i t)
  then show ?case using producer_others [OF push_run(2)] by (auto simp: only_threads_def) metis
qed (auto simp: only_threads_def dest!: consumer_frame)

lemma app_reach_trans: "app_reach Z s t \<Longrightarrow> app_reach Z r s \<Longrightarrow> app_reach Z r t"
  by (induction rule: app_reach.induct) (auto intro: app_reach.step)

context log_sink
begin

lemma some_step:
  assumes inv: "log_inv l0 fs0 es s" and conc: "conc_inv (sys s)" and world: "\<forall>e \<in> set es. \<forall>p. can_open e p"
    and flags: "\<not> single_producer (ring (sys s))" "single_consumer (ring (sys s))"
    and m: "only_threads m s" and going: "\<not> finished s"
  shows "\<exists>t. app_step Z s t \<and> (t, s) \<in> ranking m"
proof -
  have low: "i < m" if "todo s i \<noteq> [] \<or> producers (sys s) i \<noteq> P_idle" for i
    using that m by (auto simp: only_threads_def not_le [symmetric])
  have idle: "rotating s = None \<longleftrightarrow> consumers (sys s) 0 = C_idle" using inv by (simp add: log_inv_def)
  from going idle consider i where "producers (sys s) i \<noteq> P_idle"
    | i where "producers (sys s) i = P_idle" "todo s i \<noteq> []" | "consumers (sys s) 0 \<noteq> C_idle"
    | "rotating s = None" "consumers (sys s) 0 = C_idle" "calls s \<noteq> []"
    by (cases "\<exists>i. producers (sys s) i \<noteq> P_idle"; cases "\<exists>i. todo s i \<noteq> []") (auto simp: finished_def)
  then show ?thesis
  proof cases
    case (1 i)
    from busy_descends [OF conc flags(1) 1] obtain k t where
      t: "producers (sys s) k \<noteq> P_idle" "producer_step k (sys s) t" "descends k (sys s) t" by blast
    have "k < m" using low t(1) by simp
    from descends_ranking [OF this t(3)] app_step.push_run [OF t(1,2)] show ?thesis by (intro exI conjI)
  next
    case (2 i)
    then obtain p ps where p: "todo s i = p # ps" by (cases "todo s i") auto
    have "i < m" using low 2(2) by simp
    from push_ranking [OF this 2(1) p] app_step.push_call [OF 2(1) p] show ?thesis by (intro exI conjI)
  next
    case 3
    let ?u = "consumer_next 0 0 (sys s)"
    note u = single_consumer_runs [OF conc flags(2) 3]
    show ?thesis
    proof (cases "consumers ?u 0 = C_idle")
      case False
      show ?thesis by (intro exI conjI, rule app_step.rotate_run [OF 3 u(1) False], rule consumer_ranking [OF u(3,4,2)]) simp_all
    next
      case True
      obtain e late where e: "rotating s = Some (e, late)" using 3 idle by (cases "rotating s") auto
      from log_inv_return [OF inv conc world u(1) e] obtain ret l fs where
        "rotate_rest Z e late (delivered (sys s) ?u) (logger s) (files_of s) = Some (ret, l, fs)" by blast
      from app_step.rotate_return [OF 3 u(1) True e this] show ?thesis
        by (intro exI conjI, assumption) (rule consumer_ranking [OF u(3,4,2)]; simp)
    qed
  next
    case 4
    then show ?thesis by (rule call_step)
  qed
qed

lemma completes:
  assumes ring: "new_BuffRing d sz kRingQueueVariable False True = Some r"
    and T: "\<forall>i. \<forall>p \<in> set (T i). g p = i" "\<forall>p. g p < n" "(\<Sum>i < n. length (T i)) < 4294967296"
    and inv: "\<And>s. app_reach Z (app_start r T l0 fs0 es) s \<Longrightarrow> log_inv l0 fs0 es s"
    and world: "\<forall>e \<in> set es. \<forall>p. can_open e p"
    and run: "app_reach Z (app_start r T l0 fs0 es) s"
  shows "\<exists>t. app_reach Z s t \<and> finished t"
proof -
  have "T i = []" if "n \<le> i" for i
  proof (rule ccontr)
    assume "T i \<noteq> []"
    then have "g (last (T i)) = i" using T(1) by simp
    then show False using T(2) that by (metis not_le)
  qed
  then have start: "only_threads n (app_start r T l0 fs0 es)"
    by (simp add: only_threads_def app_start_def start_sys_def)
  have low: "only_threads n s" if "app_reach Z (app_start r T l0 fs0 es) s" for s
    using that by (induction rule: app_reach.induct) (auto intro: start only_threads_step)
  have "wf (ranking n :: ('z app_sys \<times> 'z app_sys) set)" by (simp add: ranking_def)
  then show ?thesis using run
  proof (induction s rule: wf_induct_rule)
    case (less s)
    show ?case
    proof (cases "finished s")
      case True
      then show ?thesis using app_reach.start by blast
    next
      case False
      have s: "reach r (sys s)" using app_reach_ring [OF ring T less.prems] by simp
      obtain t where t: "app_step Z s t" "(t, s) \<in> ranking n"
        using some_step [OF inv [OF less.prems] reach_inv(1) [OF ring s] world logger_flags(1,3) [OF ring s]
            low [OF less.prems] False] by blast
      from less.IH [OF t(2) app_reach.step [OF less.prems t(1)]] obtain u where
        "app_reach Z t u" "finished u" by blast
      then show ?thesis using app_reach_trans app_reach.step [OF app_reach.start t(1)] by blast
    qed
  qed
qed

end

end
