(* ===== verification/Conc_App.thy ===== *)
theory Conc_App
  imports App Conc_Done
begin

text \<open>
  The application with its threads interleaved at every access to the ring: the events of theory \<open>App\<close>
  are cut into the steps of theory \<open>Conc_Log\<close>, and the way of the packets from the capture to the files
  holds in every state that can be reached, from each of which the program can finish.
\<close>

section \<open>The files in a reachable state\<close>

definition thread_packets :: "nat \<Rightarrow> (nat \<Rightarrow> nat) \<Rightarrow> (PcapPacket \<Rightarrow> nat) \<Rightarrow> PcapPacket list \<Rightarrow> nat \<Rightarrow> PcapPacket list" where
  "thread_packets P k g packets i =
     (if i < P then concat (replicate (k i) (filter (\<lambda>p. g p = i) packets)) else [])"

text \<open>
  What holds of a reachable state. The calls of \<open>checkRotate\<close> are those that have returned, the one going
  on and those to come. The texts of the files of the returned calls, the text kept and at most a
  ring full of packets \<open>rest\<close> are the lines of the packets accepted by the ring, in the order of
  their reservations. The packets of a class among them, then what its thread is about to push and has
  still to push, are its packets times its rounds, but for the packets it was refused.
\<close>

definition log_state :: "(string \<Rightarrow> string option) \<Rightarrow> (string \<Rightarrow> nat \<Rightarrow> string) \<Rightarrow> ('z BasicBusinessLogger \<Rightarrow> string) \<Rightarrow>
    nat \<Rightarrow> (nat \<Rightarrow> nat) \<Rightarrow> PcapPacket list \<Rightarrow> env list \<Rightarrow> 'z app_sys \<Rightarrow> bool" where
  "log_state reads name buffered P k packets es s \<longleftrightarrow> (\<exists>files rest past.
     es = past @ current s @ calls s \<and> map fst files = map gen_time past \<and>
     (\<forall>(time, ts) \<in> set files. \<forall>i < length ts. \<exists>c. files_of s (name time i) = Some c \<and> reads c = Some (ts ! i)) \<and>
     csv_text (ring_sys.accepted (sys s)) = concat (concat (map snd files)) @ buffered (logger s) @ csv_text rest \<and>
     length rest \<le> 134217727 \<and>
     (\<forall>i < P. let all = concat (replicate (k i) (filter (\<lambda>p. unat (Hash4Tuple p) mod P = i) packets));
          mine = filter (\<lambda>p. unat (Hash4Tuple p) mod P = i) (ring_sys.accepted (sys s)) @
            in_flight (producers (sys s) i) @ todo s i
        in subseq mine all \<and> (100 * length packets \<le> 134217727 \<longrightarrow> mine = all)))"

context file_sink
begin

lemma app_reach_log:
  assumes ring: "new_BuffRing d sz kRingQueueVariable False True = Some r"
    and T: "\<forall>i. \<forall>p \<in> set (T i). g p = i" "\<forall>p. g p < n" "(\<Sum>i < n. length (T i)) < 4294967296"
    and l: "ok l0" "buffered l0 = []" "clean_disk tmp_ok name (m_file_path l0) fs0"
      "on_time (m_start_time l0) (m_rotate_cycle l0) (m_roate_cnt l0) (map Rotate es)"
    and world: "\<forall>e \<in> set es. \<forall>p. can_open e p"
    and run: "app_reach Z (app_start r T l0 fs0 es) s"
  shows "log_inv l0 fs0 es s"
  using run
proof (induction rule: app_reach.induct)
  case start
  have "written reads (name (m_file_path l0)) fs0 [] fs0 [] []"
    by (auto simp: written_def intro!: exI [of _ "[]"])
  then show ?case using l
    by (simp add: log_inv_def app_start_def start_sys_def current_def delivered_text_def csv_text_def)
next
  case (step s t)
  have "reach r (sys s)" using app_reach_ring [OF ring T step.hyps(1)] by simp
  then show ?case using log_inv_step [OF step.hyps(2) step.IH _ world] reach_inv(1) [OF ring] by blast
qed

lemma written_files:
  assumes w: "written reads (name path) fs0 past fs buf text"
    and names: "\<forall>e \<in> set past. names_ok path (gen_time e)" "distinct (map gen_time past)"
  shows "\<exists>files. map fst files = map gen_time past \<and>
    (\<forall>(time, ts) \<in> set files. \<forall>i < length ts. \<exists>c. fs (name path time i) = Some c \<and> reads c = Some (ts ! i)) \<and>
    text = concat (concat (map snd files)) @ buf"
proof -
  obtain bs tss where b: "fs = publish_all (name path) bs fs0" "map fst bs = map gen_time past"
    "\<forall>b \<in> set bs. length (snd b) \<le> 2147483648" "map (\<lambda>b. map reads (snd b)) bs = map (map Some) tss"
    "text = concat (concat tss) @ buf"
    using w by (auto simp: written_def)
  have ok: "\<forall>b \<in> set bs. names_ok path (fst b)"
  proof
    fix b assume "b \<in> set bs"
    then have "fst b \<in> set (map fst bs)" by simp
    then show "names_ok path (fst b)" using names(1) by (auto simp: b(2))
  qed
  have "\<forall>(time, ts) \<in> set (zip (map fst bs) tss). \<forall>i < length ts.
      \<exists>c. publish_all (name path) bs fs0 (name path time i) = Some c \<and> reads c = Some (ts ! i)"
    using published_texts [OF _ ok b(3,4)] b(2) names(2) by auto
  moreover have "length tss = length bs" using b(4) map_eq_imp_length_eq by fastforce
  then have "map fst (zip (map fst bs) tss) = map fst bs" "map snd (zip (map fst bs) tss) = tss" by simp_all
  ultimately show ?thesis using b(1,2,5) by (intro exI [of _ "zip (map fst bs) tss"]) simp
qed

lemma conc_files:
  assumes ring: "new_BuffRing d sz kRingQueueVariable False True = Some r" "capacity r = 134217727"
    and l: "ok l0" "buffered l0 = []" "clean_disk tmp_ok name (m_file_path l0) fs0"
      "on_time (m_start_time l0) (m_rotate_cycle l0) (m_roate_cnt l0) (map Rotate es)"
    and world: "\<forall>e \<in> set es. names_ok (m_file_path l0) (gen_time e) \<and> (\<forall>p. can_open e p)" "distinct (map gen_time es)"
    and packets: "\<forall>i. k i \<le> 100" "g = (\<lambda>p. unat (Hash4Tuple p) mod P)" "0 < P" "100 * length packets < 1073741824"
    and run: "app_reach Z (app_start r (thread_packets P k g packets) l0 fs0 es) s"
  shows "\<not> faulted s \<and> ok (logger s) \<and> log_state reads (name (m_file_path l0)) buffered P k packets es s \<and>
    (\<exists>t. app_reach Z s t \<and> finished t)"
proof -
  let ?T = "thread_packets P k g packets"
  have g: "\<forall>p. g p < P" using packets(2,3) by simp
  have cls: "\<forall>i. \<forall>p \<in> set (?T i). g p = i" by (auto simp: thread_packets_def split: if_splits)
  have "(\<Sum>i < P. length (?T i)) = (\<Sum>i < P. length (concat (replicate (k i) (filter (\<lambda>p. g p = i) packets))))"
    by (intro sum.cong) (simp_all add: thread_packets_def)
  then have total: "(\<Sum>i < P. length (?T i)) \<le> 100 * length packets" using pushes_total [OF packets(1) g] by simp
  have small: "(\<Sum>i < P. length (?T i)) < 4294967296" "(\<Sum>i < P. length (?T i)) < 1073741824"
    using total packets(4) by linarith+
  have s: "reach r (sys s)" "\<forall>i. subseq (account g s i) (?T i)"
    using app_reach_ring [OF ring(1) cls g small(1) run] by simp_all
  have room: "100 * length packets \<le> 134217727 \<longrightarrow> account g s = ?T"
    using app_reach_room [OF ring(1) cls g _ small(2) run] total ring(2) by simp
  have op: "\<forall>e \<in> set es. \<forall>p. can_open e p" using world(1) by blast
  have inv: "log_inv l0 fs0 es s" by (rule app_reach_log [OF ring(1) cls g small(1) l op run])
  then obtain past where past: "es = past @ current s @ calls s"
    "written reads (name (m_file_path l0)) fs0 past (files_of s) (buffered (logger s)) (delivered_text s)"
    by (auto simp: log_inv_def)
  have "\<forall>e \<in> set past. names_ok (m_file_path l0) (gen_time e)" "distinct (map gen_time past)"
    using world past(1) by (auto simp: distinct_append)
  from written_files [OF past(2) this] obtain files where files: "map fst files = map gen_time past"
    "\<forall>(time, ts) \<in> set files. \<forall>i < length ts.
      \<exists>c. files_of s (name (m_file_path l0) time i) = Some c \<and> reads c = Some (ts ! i)"
    "delivered_text s = concat (concat (map snd files)) @ buffered (logger s)" by blast
  note c = reach_inv(1) [OF ring(1) s(1)]
  define rest where "rest = drop (released (sys s)) (ring_sys.accepted (sys s))"
  have "ring_sys.accepted (sys s) = concat (map snd (returned (sys s))) @ rest"
    unfolding rest_def conc_invD(9) [OF c] by (rule append_take_drop_id [symmetric])
  then have lines: "csv_text (ring_sys.accepted (sys s)) =
      concat (concat (map snd files)) @ buffered (logger s) @ csv_text rest"
    using files(3) by (simp add: delivered_text_def csv_text_def)
  have "length (ring_sys.accepted (sys s)) \<le> released (sys s) + 134217727"
    using conc_invD(2) [OF c] logger_flags(2) [OF ring(1) s(1)] ring(2) by (simp add: positions_ok_def)
  then have len: "length rest \<le> 134217727" by (simp add: rest_def)
  have mine: "let all = concat (replicate (k i) (filter (\<lambda>p. unat (Hash4Tuple p) mod P = i) packets));
        mine = filter (\<lambda>p. unat (Hash4Tuple p) mod P = i) (ring_sys.accepted (sys s)) @
          in_flight (producers (sys s) i) @ todo s i
      in subseq mine all \<and> (100 * length packets \<le> 134217727 \<longrightarrow> mine = all)" if "i < P" for i
  proof -
    have T: "?T i = concat (replicate (k i) (filter (\<lambda>p. unat (Hash4Tuple p) mod P = i) packets))"
      using that by (simp add: thread_packets_def packets(2))
    have acc: "account g s i = filter (\<lambda>p. unat (Hash4Tuple p) mod P = i) (ring_sys.accepted (sys s)) @
        in_flight (producers (sys s) i) @ todo s i"
      by (simp add: account_def packets(2))
    have "subseq (account g s i) (?T i)" using s(2) by blast
    moreover have "100 * length packets \<le> 134217727 \<longrightarrow> account g s i = ?T i" using room by simp
    ultimately show ?thesis unfolding Let_def acc T by (rule conjI)
  qed
  have "log_state reads (name (m_file_path l0)) buffered P k packets es s"
    unfolding log_state_def
    by (rule exI [of _ files], rule exI [of _ rest], rule exI [of _ past], intro conjI,
        rule past(1), rule files(1), rule files(2), rule lines, rule len, intro allI impI, rule mine)
  moreover have "\<exists>t. app_reach Z s t \<and> finished t"
    by (rule completes [OF ring(1) cls g small(1) app_reach_log [OF ring(1) cls g small(1) l op] op run])
  ultimately show ?thesis using inv by (simp add: log_inv_def)
qed

end


section \<open>The application as it starts\<close>

text \<open>The running system from the events of the threads, the logger thread first.\<close>

definition app_run :: "PcapPacket BuffRing \<Rightarrow> log_event list list \<Rightarrow> 'z BasicBusinessLogger \<Rightarrow> disk \<Rightarrow> 'z app_sys" where
  "app_run r evss l fs = app_start r (\<lambda>i. if Suc i < length evss then pushes (evss ! Suc i) else []) l fs
     (rotations (evss ! 0))"

lemma app_run_eq:
  "app_run r (map Rotate es #
      map (\<lambda>i. map Push (concat (replicate (k i) (filter (\<lambda>p. g p = i) packets)))) [0..<P]) l fs =
    app_start r (thread_packets P k g packets) l fs es"
  by (simp add: app_run_def thread_packets_def app_start_def fun_eq_iff)

lemma logger_init_ring:
  assumes "logger_init junk Z e path rotate_size rotate_cycle compress_type l = Some (ret, l')"
  shows "\<exists>r. m_data l' = Some r \<and> new_BuffRing (blank e) (2 * kVectorThreshold) kRingQueueVariable False True = Some r \<and>
    capacity r = 134217727"
  using assms logger_ring [of "blank e"] by (auto simp: logger_init_def Let_def)

context file_sink
begin

lemma conc_capture:
  assumes capture: "fs (pcap_file rte) = Some (capture_file header cs)" "length header = 24"
      "length (capture_file header cs) < 18446744073709551616" "\<forall>c \<in> set cs. capture_ok c" "quiet beyond"
    and rte: "packet_core_num rte = int P" "0 < P" "P < 256" "logger_core_num rte = 1"
    and cpus: "\<forall>cpuset. setaffinity cpuset = 0 \<longleftrightarrow> cpuset \<inter> online \<noteq> {}" "{1 .. int P + 1} \<subseteq> online"
    and packets: "packets = concat (map (captured junk) cs)" "100 * length packets < 1073741824"
    and rotate: "es = thread_rotations (rds 0)" "\<forall>e \<in> set es. names_ok ''./log'' (gen_time e) \<and> (\<forall>p. can_open e p)"
      "distinct (map gen_time es)" "on_time (uptime2 boot) 1 0 (map Rotate es)"
    and l0: "logger_init junk_char Z boot ''./log'' 104857600 1 (if is_gzip rte then kCompressGzip else kCompressNone)
      new_BasicBusinessLogger = Some (ret, l0)" "ok l0" "buffered l0 = []" "m_file_path l0 = ''./log''"
      "m_start_time l0 = uptime2 boot" "m_rotate_cycle l0 = 1" "m_roate_cnt l0 = 0"
    and clean: "clean_disk tmp_ok name ''./log'' old_disk"
  shows "\<exists>reader l0 ths evss r. Init setaffinity junk_char Z boot fs beyond junk rte =
      Some (Inr (reader, l0, ths)) \<and> app_events stops rds reader ths = Some evss \<and> m_data l0 = Some r \<and>
    (\<forall>s. app_reach Z (app_run r evss l0 old_disk) s \<longrightarrow> \<not> faulted s \<and> ok (logger s) \<and>
      log_state reads (name ''./log'') buffered P (\<lambda>i. rounds (stops (int i)) kTimes) packets es s \<and>
      (\<exists>t. app_reach Z s t \<and> finished t))"
proof -
  let ?g = "\<lambda>p. unat (Hash4Tuple p) mod P"
  let ?k = "\<lambda>i. rounds (stops (int i)) kTimes"
  obtain reader ths where start: "Init setaffinity junk_char Z boot fs beyond junk rte =
      Some (Inr (reader, l0, ths))" "app_events stops rds reader ths = Some (map Rotate es #
        map (\<lambda>i. map Push (concat (replicate (?k i) (filter (\<lambda>p. ?g p = i) packets)))) [0..<P])"
    using Init_events [where fs = fs and rte = rte, OF capture rte cpus packets(1) l0(1)] rotate(1) by blast
  obtain r where r: "m_data l0 = Some r"
    "new_BuffRing (blank boot) (2 * kVectorThreshold) kRingQueueVariable False True = Some r" "capacity r = 134217727"
    using logger_init_ring [OF l0(1)] by blast
  have pre: "clean_disk tmp_ok name (m_file_path l0) old_disk"
    "on_time (m_start_time l0) (m_rotate_cycle l0) (m_roate_cnt l0) (map Rotate es)"
    "\<forall>e \<in> set es. names_ok (m_file_path l0) (gen_time e) \<and> (\<forall>p. can_open e p)"
    using rotate(2,4) clean by (simp_all add: l0)
  have k: "\<forall>i. ?k i \<le> 100" using rounds_le [of _ kTimes] by (simp add: kTimes_def)
  have "\<not> faulted s \<and> ok (logger s) \<and> log_state reads (name ''./log'') buffered P ?k packets es s \<and>
      (\<exists>t. app_reach Z s t \<and> finished t)"
    if "app_reach Z (app_run r (map Rotate es #
        map (\<lambda>i. map Push (concat (replicate (?k i) (filter (\<lambda>p. ?g p = i) packets)))) [0..<P]) l0 old_disk) s" for s
    using conc_files [OF r(2,3) l0(2,3) pre rotate(3) k refl rte(2) packets(2), of s] that
    unfolding app_run_eq l0(4) by blast
  then show ?thesis using start r(1) by blast
qed

end

lemma plain_start:
  assumes "\<not> is_gzip rte"
  shows "\<exists>l0. logger_init junk_char Z boot ''./log'' 104857600 1 (if is_gzip rte then kCompressGzip else kCompressNone)
      new_BasicBusinessLogger = Some (0, l0) \<and> plain_ok 0 l0 \<and> m_buf l0 = [] \<and> m_file_path l0 = ''./log'' \<and>
      m_start_time l0 = uptime2 boot \<and> m_rotate_cycle l0 = 1 \<and> m_roate_cnt l0 = 0"
proof -
  have ct: "kCompressNone \<noteq> kCompressGzip" by (simp add: kCompressNone_def kCompressGzip_def)
  show ?thesis
    using logger_init_plain [OF ct, of junk_char Z boot "''./log''" 104857600 1 new_BasicBusinessLogger] assms ct
    by (auto simp: new_BasicBusinessLogger_def plain_ok_def)
qed

text \<open>What \<open>log_state\<close> says when all is done.\<close>

lemma finished_log:
  assumes "\<exists>t. app_reach Z s t \<and> finished t \<and> log_state Some (log_name ''./log'') m_buf P k packets es t"
  shows "\<exists>t. app_reach Z s t \<and> finished t \<and>
    (\<exists>files rest. map fst files = map gen_time es \<and>
      (\<forall>(time, ts) \<in> set files. \<forall>i < length ts. files_of t (log_path ''./log'' time (of_nat i)) = Some (ts ! i)) \<and>
      csv_text (ring_sys.accepted (sys t)) = concat (concat (map snd files)) @ m_buf (logger t) @ csv_text rest \<and>
      length rest \<le> 134217727) \<and>
    (100 * length packets \<le> 134217727 \<longrightarrow> (\<forall>i < P. filter (\<lambda>p. unat (Hash4Tuple p) mod P = i) (ring_sys.accepted (sys t)) =
      concat (replicate (k i) (filter (\<lambda>p. unat (Hash4Tuple p) mod P = i) packets))))"
proof -
  obtain t where t: "app_reach Z s t" "finished t" "log_state Some (log_name ''./log'') m_buf P k packets es t"
    using assms by blast
  have none: "current t = []" "calls t = []" "\<And>i. in_flight (producers (sys t) i) @ todo t i = []"
    using t(2) by (simp_all add: finished_def current_def)
  obtain files rest past where f: "es = past @ current t @ calls t" "map fst files = map gen_time past"
    "\<forall>(time, ts) \<in> set files. \<forall>i < length ts. \<exists>c. files_of t (log_name ''./log'' time i) = Some c \<and> Some c = Some (ts ! i)"
    "csv_text (ring_sys.accepted (sys t)) = concat (concat (map snd files)) @ m_buf (logger t) @ csv_text rest"
    "length rest \<le> 134217727"
    "\<forall>i < P. let all = concat (replicate (k i) (filter (\<lambda>p. unat (Hash4Tuple p) mod P = i) packets));
        mine = filter (\<lambda>p. unat (Hash4Tuple p) mod P = i) (ring_sys.accepted (sys t)) @
          in_flight (producers (sys t) i) @ todo t i
      in subseq mine all \<and> (100 * length packets \<le> 134217727 \<longrightarrow> mine = all)"
    using t(3) unfolding log_state_def by blast
  have "map fst files = map gen_time es" using f(1,2) none by simp
  moreover have "\<forall>(time, ts) \<in> set files. \<forall>i < length ts. files_of t (log_path ''./log'' time (of_nat i)) = Some (ts ! i)"
    using f(3) by (auto simp: log_name_def)
  ultimately show ?thesis
    using t(1,2) f(4,5) f(6) [unfolded none Let_def append_Nil2] by blast
qed

section \<open>Properties\<close>

text \<open>
  C2. From the capture to the log files with the threads interleaved at every access to the ring, in plain
  mode with one logger thread. The suppositions: the packets of the capture hold their headers, the 30 bytes behind the block of
  \<^verbatim>\<open>malloc\<close> can be read and do not look like an IPv4 frame, the processors are available, every
  \<open>checkRotate\<close> is on time and in a second of its own, every path can be opened, and 100 times the packets
  are fewer than \<open>2^30\<close>. Then the initialisation succeeds, and in every state that can be reached
  the program has run into no undefined behaviour and \<open>log_state\<close> holds: the files of the rotations that
  have returned, then the text buffer, then at most a ring full of packets are the lines of the packets
  accepted by the ring; and each thread's packets are accounted for, none of them refused when
  all pushes together fit into the ring.
\<close>

theorem conc_capture_to_files:
  assumes capture: "fs (pcap_file rte) = Some (capture_file header cs)" "length header = 24"
      "length (capture_file header cs) < 18446744073709551616" "\<forall>c \<in> set cs. capture_ok c" "quiet beyond"
    and rte: "packet_core_num rte = int P" "0 < P" "P < 256" "logger_core_num rte = 1" "\<not> is_gzip rte"
    and cpus: "\<forall>cpuset. setaffinity cpuset = 0 \<longleftrightarrow> cpuset \<inter> online \<noteq> {}" "{1 .. int P + 1} \<subseteq> online"
    and packets: "packets = concat (map (captured junk) cs)" "100 * length packets < 1073741824"
    and rotate: "es = thread_rotations (rds 0)" "\<forall>e \<in> set es. names_ok ''./log'' (gen_time e) \<and> (\<forall>p. can_open e p)"
      "distinct (map gen_time es)" "on_time (uptime2 boot) 1 0 (map Rotate es)"
  shows "\<exists>reader l0 ths evss r. Init setaffinity junk_char Z boot fs beyond junk rte =
      Some (Inr (reader, l0, ths)) \<and> app_events stops rds reader ths = Some evss \<and> m_data l0 = Some r \<and>
    (\<forall>s. app_reach Z (app_run r evss l0 old_disk) s \<longrightarrow> \<not> faulted s \<and>
      log_state Some (\<lambda>time i. log_path ''./log'' time (of_nat i)) m_buf P
        (\<lambda>i. rounds (stops (int i)) kTimes) packets es s)"
proof -
  obtain l0 where l0: "logger_init junk_char Z boot ''./log'' 104857600 1 (if is_gzip rte then kCompressGzip else kCompressNone)
      new_BasicBusinessLogger = Some (0, l0)" "plain_ok 0 l0" "m_buf l0 = []" "m_file_path l0 = ''./log''"
      "m_start_time l0 = uptime2 boot" "m_rotate_cycle l0 = 1" "m_roate_cnt l0 = 0"
    using plain_start [OF rte(5)] by blast
  have "log_name ''./log'' = (\<lambda>time i. log_path ''./log'' time (of_nat i))" by (simp add: log_name_def fun_eq_iff)
  with plain_log.conc_capture [where fs = fs and rte = rte and rds = rds, OF capture rte(1-4) cpus packets rotate l0 clean_plain,
      of stops old_disk] show ?thesis by (simp only:) blast
qed

text \<open>
  C3. The same in compressed mode: the suppositions of the plain mode, a zlib as documented that works, no
  temporary files left on the disk, and a compiler that takes \<^verbatim>\<open>front()\<close> of the vector of size 0 as the
  start of its capacity (\<open>library_laws\<close>). Then every file decompresses, and the text kept is
  what the stream has taken in.
\<close>

theorem conc_capture_gzip:
  assumes Z: "library_laws Z consumed produced gunzip" "zlib_works Z live"
    and capture: "fs (pcap_file rte) = Some (capture_file header cs)" "length header = 24"
      "length (capture_file header cs) < 18446744073709551616" "\<forall>c \<in> set cs. capture_ok c" "quiet beyond"
    and rte: "packet_core_num rte = int P" "0 < P" "P < 256" "logger_core_num rte = 1" "is_gzip rte"
    and cpus: "\<forall>cpuset. setaffinity cpuset = 0 \<longleftrightarrow> cpuset \<inter> online \<noteq> {}" "{1 .. int P + 1} \<subseteq> online"
    and packets: "packets = concat (map (captured junk) cs)" "100 * length packets < 1073741824"
    and rotate: "es = thread_rotations (rds 0)" "\<forall>e \<in> set es. names_ok ''./log'' (gen_time e) \<and> (\<forall>p. can_open e p)"
      "distinct (map gen_time es)" "on_time (uptime2 boot) 1 0 (map Rotate es)"
    and clean: "\<forall>time k. old_disk (log_path ''./log'' time (of_nat k) @ ''.gz'' @ ''.tmptmp'') = None"
  shows "\<exists>reader l0 ths evss r. Init setaffinity junk_char Z boot fs beyond junk rte =
      Some (Inr (reader, l0, ths)) \<and> app_events stops rds reader ths = Some evss \<and> m_data l0 = Some r \<and>
    (\<forall>s. app_reach Z (app_run r evss l0 old_disk) s \<longrightarrow> \<not> faulted s \<and>
      log_state gunzip (\<lambda>time i. log_path ''./log'' time (of_nat i) @ ''.gz'') (gz_buffered consumed) P
        (\<lambda>i. rounds (stops (int i)) kTimes) packets es s)"
proof -
  have size: "unat ((104857600 :: u32) + 16384) < 4286578672" by simp
  obtain l0 where l0: "logger_init junk_char Z boot ''./log'' 104857600 1 (if is_gzip rte then kCompressGzip else kCompressNone)
      new_BasicBusinessLogger = Some (0, l0)" "gz_ok produced live 4194304 l0" "gz_buffered consumed l0 = []"
      "m_file_path l0 = ''./log''" "m_start_time l0 = uptime2 boot" "m_rotate_cycle l0 = 1" "m_roate_cnt l0 = 0"
    using logger_init_gzip [OF Z size, of junk_char boot "''./log''" 1 new_BasicBusinessLogger] rte(5)
    by (auto simp: new_BasicBusinessLogger_def)
  have ok: "gz_ok produced live 2097152 l0" using l0(2) by (auto simp: gz_ok_def gz_state_def split: option.splits)
  have name: "gz_name ''./log'' = (\<lambda>time i. log_path ''./log'' time (of_nat i) @ ''.gz'')"
    by (simp add: gz_name_def fun_eq_iff)
  have tmp: "clean_disk (\<lambda>x. x = None) gz_name ''./log'' old_disk" using clean by (simp add: clean_disk_def name)
  from file_sink.conc_capture [where fs = fs and rte = rte and rds = rds, OF gz_sink [OF Z] capture rte(1-4) cpus packets rotate
      l0(1) ok l0(3-7) tmp, of stops] show ?thesis unfolding name by blast
qed


text \<open>
  C4. The running program can always finish, in plain mode with one logger thread. The suppositions: the packets of the capture hold their headers, the 30 bytes behind the block of
  \<^verbatim>\<open>malloc\<close> can be read and do not look like an IPv4 frame, the processors are available, every
  \<open>checkRotate\<close> is on time and in a second of its own, every path can be opened, and
  100 times the packets are fewer than \<open>2^30\<close>. Then from every state that can be reached there are steps
  to a state in which every packet has been pushed or refused, every call of \<open>checkRotate\<close> has returned and every
  thread is out of the ring. There the files of all rotations, the text buffer and at most a ring full
  are the lines of the packets accepted, and when all pushes fit into the ring these are all the
  packets times the rounds.
\<close>

theorem conc_capture_finishes:
  assumes capture: "fs (pcap_file rte) = Some (capture_file header cs)" "length header = 24"
      "length (capture_file header cs) < 18446744073709551616" "\<forall>c \<in> set cs. capture_ok c" "quiet beyond"
    and rte: "packet_core_num rte = int P" "0 < P" "P < 256" "logger_core_num rte = 1" "\<not> is_gzip rte"
    and cpus: "\<forall>cpuset. setaffinity cpuset = 0 \<longleftrightarrow> cpuset \<inter> online \<noteq> {}" "{1 .. int P + 1} \<subseteq> online"
    and packets: "packets = concat (map (captured junk) cs)" "100 * length packets < 1073741824"
    and rotate: "es = thread_rotations (rds 0)" "\<forall>e \<in> set es. names_ok ''./log'' (gen_time e) \<and> (\<forall>p. can_open e p)"
      "distinct (map gen_time es)" "on_time (uptime2 boot) 1 0 (map Rotate es)"
  shows "\<exists>reader l0 ths evss r. Init setaffinity junk_char Z boot fs beyond junk rte =
      Some (Inr (reader, l0, ths)) \<and> app_events stops rds reader ths = Some evss \<and> m_data l0 = Some r \<and>
    (\<forall>s. app_reach Z (app_run r evss l0 old_disk) s \<longrightarrow> (\<exists>t. app_reach Z s t \<and> finished t \<and>
      (\<exists>files rest. map fst files = map gen_time es \<and>
        (\<forall>(time, ts) \<in> set files. \<forall>i < length ts. files_of t (log_path ''./log'' time (of_nat i)) = Some (ts ! i)) \<and>
        csv_text (ring_sys.accepted (sys t)) = concat (concat (map snd files)) @ m_buf (logger t) @ csv_text rest \<and>
        length rest \<le> 134217727) \<and>
      (100 * length packets \<le> 134217727 \<longrightarrow> (\<forall>i < P. filter (\<lambda>p. unat (Hash4Tuple p) mod P = i) (ring_sys.accepted (sys t)) =
        concat (replicate (rounds (stops (int i)) kTimes) (filter (\<lambda>p. unat (Hash4Tuple p) mod P = i) packets))))))"
proof -
  obtain l0 where l0: "logger_init junk_char Z boot ''./log'' 104857600 1 (if is_gzip rte then kCompressGzip else kCompressNone)
      new_BasicBusinessLogger = Some (0, l0)" "plain_ok 0 l0" "m_buf l0 = []" "m_file_path l0 = ''./log''"
      "m_start_time l0 = uptime2 boot" "m_rotate_cycle l0 = 1" "m_roate_cnt l0 = 0"
    using plain_start [OF rte(5)] by blast
  from plain_log.conc_capture [where fs = fs and rte = rte and rds = rds, OF capture rte(1-4) cpus packets rotate l0 clean_plain,
      of stops old_disk] obtain reader l0 ths evss r where start:
      "Init setaffinity junk_char Z boot fs beyond junk rte = Some (Inr (reader, l0, ths))"
      "app_events stops rds reader ths = Some evss" "m_data l0 = Some r"
    and always: "\<And>s. app_reach Z (app_run r evss l0 old_disk) s \<Longrightarrow>
      log_state Some (log_name ''./log'') m_buf P (\<lambda>i. rounds (stops (int i)) kTimes) packets es s \<and>
      (\<exists>t. app_reach Z s t \<and> finished t)" by blast
  have "\<exists>t. app_reach Z s t \<and> finished t \<and>
      log_state Some (log_name ''./log'') m_buf P (\<lambda>i. rounds (stops (int i)) kTimes) packets es t"
    if "app_reach Z (app_run r evss l0 old_disk) s" for s
    using always that app_reach_trans [OF _ that] by blast
  then have "\<exists>t. app_reach Z s t \<and> finished t \<and>
      (\<exists>files rest. map fst files = map gen_time es \<and>
        (\<forall>(time, ts) \<in> set files. \<forall>i < length ts. files_of t (log_path ''./log'' time (of_nat i)) = Some (ts ! i)) \<and>
        csv_text (ring_sys.accepted (sys t)) = concat (concat (map snd files)) @ m_buf (logger t) @ csv_text rest \<and>
        length rest \<le> 134217727) \<and>
      (100 * length packets \<le> 134217727 \<longrightarrow> (\<forall>i < P. filter (\<lambda>p. unat (Hash4Tuple p) mod P = i) (ring_sys.accepted (sys t)) =
        concat (replicate (rounds (stops (int i)) kTimes) (filter (\<lambda>p. unat (Hash4Tuple p) mod P = i) packets))))"
    if "app_reach Z (app_run r evss l0 old_disk) s" for s
    using finished_log that by blast
  then show ?thesis using start by blast
qed

section \<open>The hypotheses hold on a small capture\<close>

lemma first_push:
  assumes "todo s i = p # ps" "producers (sys s) i = P_idle" "app_reach Z s s"
  shows "\<exists>t. app_reach Z s t \<and> producers (sys t) i = P_start [p] \<and> todo t i = ps"
  using app_reach.step [OF app_reach.start app_step.push_call [OF assms(2,1)], of Z]
  by (intro exI [of _ "s\<lparr>sys := set_producer i (P_start [p]) (sys s), todo := (todo s)(i := ps)\<rparr>"]) simp

lemma app_run_sel [simp]: "producers (sys (app_run r evss l fs)) i = P_idle"
  "ring_sys.accepted (sys (app_run r evss l fs)) = []"
  by (simp_all add: app_run_def app_start_def start_sys_def)

definition small_packet :: PcapPacket where
  "small_packet = parsed_frame (blank_packet\<lparr>tv_sec := 1500000000, tv_usec := 7\<rparr>) small_frame"

lemma small_class: "filter (\<lambda>p. unat (Hash4Tuple p) mod 8 = 4) (captured blank_packet small_capture) = [small_packet]"
  by (simp add: small_captured small_packet_def Hash4Tuple_def parsed_frame_def small_frame_def)

text \<open>A state in which the packet thread of the group is in its first call of \<open>push_back\<close>.\<close>

lemma small_state:
  assumes "\<forall>s. app_reach Z (app_run r evss l0 fs) s \<longrightarrow> \<not> faulted s \<and>
    log_state reads name buffered 8 (\<lambda>i. 100) (captured blank_packet small_capture) es s"
  shows "\<exists>s. app_reach Z (app_run r evss l0 fs) s \<and> producers (sys s) 4 = P_start [small_packet] \<and>
    length (todo s 4) = 99 \<and> \<not> faulted s \<and>
    log_state reads name buffered 8 (\<lambda>i. 100) (captured blank_packet small_capture) es s"
proof -
  let ?s0 = "app_run r evss l0 fs"
  have "log_state reads name buffered 8 (\<lambda>i. 100) (captured blank_packet small_capture) es ?s0"
    using assms app_reach.start by blast
  then have "in_flight (producers (sys ?s0) 4) @ todo ?s0 4 = concat (replicate 100 [small_packet])"
    using small_run(4) by (auto simp: log_state_def small_class Let_def dest: spec [of _ 4])
  then have "todo ?s0 4 = small_packet # concat (replicate 99 [small_packet])"
    by (simp add: numeral_eq_Suc)
  from first_push [OF this _ app_reach.start] obtain s where
    s: "app_reach Z ?s0 s" "producers (sys s) 4 = P_start [small_packet]"
      "todo s 4 = concat (replicate 99 [small_packet])" by auto
  have "length (todo s 4) = 99" unfolding s(3) by (simp add: length_concat sum_list_replicate)
  then show ?thesis using s(1,2) assms by blast
qed

text \<open>In the state at the end the ring has taken the hundred rounds of the packet of the group.\<close>

lemma small_finish:
  assumes "\<forall>s. app_reach Z s0 s \<longrightarrow> (\<exists>t. app_reach Z s t \<and> finished t \<and> Q t \<and>
      (100 * length (captured blank_packet small_capture) \<le> 134217727 \<longrightarrow>
        (\<forall>i < 8. filter (\<lambda>p. unat (Hash4Tuple p) mod 8 = i) (ring_sys.accepted (sys t)) =
          concat (replicate 100 (filter (\<lambda>p. unat (Hash4Tuple p) mod 8 = i) (captured blank_packet small_capture))))))"
  shows "\<exists>t. app_reach Z s0 t \<and> finished t \<and>
    filter (\<lambda>p. unat (Hash4Tuple p) mod 8 = 4) (ring_sys.accepted (sys t)) = replicate 100 small_packet"
proof -
  have few: "100 * length (captured blank_packet small_capture) \<le> 134217727"
    by (simp add: small_captured)
  obtain t where "app_reach Z s0 t" "finished t"
    "\<forall>i < 8. filter (\<lambda>p. unat (Hash4Tuple p) mod 8 = i) (ring_sys.accepted (sys t)) =
      concat (replicate 100 (filter (\<lambda>p. unat (Hash4Tuple p) mod 8 = i) (captured blank_packet small_capture)))"
    using assms few app_reach.start by blast
  moreover have "concat (replicate n [x]) = replicate n x" for n and x :: PcapPacket by (induction n) simp_all
  ultimately have "filter (\<lambda>p. unat (Hash4Tuple p) mod 8 = 4) (ring_sys.accepted (sys t)) = replicate 100 small_packet"
    by (simp add: small_class)
  with \<open>app_reach Z s0 t\<close> \<open>finished t\<close> show ?thesis by blast
qed

lemma small_total: "100 * length (concat (map (captured blank_packet) [small_capture])) < 1073741824"
  "concat (map (captured blank_packet) [small_capture]) = captured blank_packet small_capture"
  "0 < (8 :: nat)" "(8 :: nat) < 256"
  unfolding small_run(4) by simp_all

theorem conc_capture_to_files_witness:
  "\<exists>reader l0 ths evss r s. Init (affinity 10) (CHR 0x00) store_zlib (sample_env 100) small_files (replicate 30 0)
      blank_packet (small_Rte 10) = Some (Inr (reader, l0, ths)) \<and>
    app_events (\<lambda>i k. False) small_rds reader ths = Some evss \<and>
    app_reach store_zlib (app_run r evss l0 Map.empty) s \<and> producers (sys s) 4 = P_start [small_packet] \<and>
    length (todo s 4) = 99 \<and> \<not> faulted s \<and>
    log_state Some (\<lambda>time i. log_path ''./log'' time (of_nat i)) m_buf 8 (\<lambda>i. 100)
      (captured blank_packet small_capture) [sample_env 102] s"
  using conc_capture_to_files [where fs = small_files and rds = small_rds and stops = "\<lambda>i k. False" and P = 8
        and old_disk = Map.empty and Z = store_zlib and boot = "sample_env 100" and junk_char = "CHR 0x00",
      OF small_run(1) length_replicate small_files_ok(2) small_capture_all quiet_zeros(2) small_run(2) [of 10] small_total(3,4)
        small_Rte_fields(3,4) affinity_law small_run(3) refl small_total(1) small_run(5-8),
      unfolded small_run(10) small_total(2)]
  by (elim exE conjE) (drule small_state, blast)

theorem conc_capture_finishes_witness:
  "\<exists>reader l0 ths evss r. Init (affinity 10) (CHR 0x00) store_zlib (sample_env 100) small_files (replicate 30 0)
      blank_packet (small_Rte 10) = Some (Inr (reader, l0, ths)) \<and>
    app_events (\<lambda>i k. False) small_rds reader ths = Some evss \<and>
    (\<exists>t. app_reach store_zlib (app_run r evss l0 Map.empty) t \<and> finished t \<and>
      filter (\<lambda>p. unat (Hash4Tuple p) mod 8 = 4) (ring_sys.accepted (sys t)) = replicate 100 small_packet)"
  using conc_capture_finishes [where fs = small_files and rds = small_rds and stops = "\<lambda>i k. False" and P = 8
        and old_disk = Map.empty and Z = store_zlib and boot = "sample_env 100" and junk_char = "CHR 0x00",
      OF small_run(1) length_replicate small_files_ok(2) small_capture_all quiet_zeros(2) small_run(2) [of 10] small_total(3,4)
        small_Rte_fields(3,4) affinity_law small_run(3) refl small_total(1) small_run(5-8),
      unfolded small_run(10) small_total(2)]
  by (elim exE conjE) (drule small_finish, blast)

theorem conc_capture_gzip_witness:
  "\<exists>reader l0 ths evss r s. Init (affinity 10) (CHR 0x00) copy_zlib (sample_env 100) small_files (replicate 30 0)
      blank_packet ((small_Rte 10)\<lparr>is_gzip := True\<rparr>) = Some (Inr (reader, l0, ths)) \<and>
    app_events (\<lambda>i k. False) small_rds reader ths = Some evss \<and>
    app_reach copy_zlib (app_run r evss l0 Map.empty) s \<and> producers (sys s) 4 = P_start [small_packet] \<and>
    length (todo s 4) = 99 \<and> \<not> faulted s \<and>
    log_state Some (\<lambda>time i. log_path ''./log'' time (of_nat i) @ ''.gz'') (gz_buffered (\<lambda>st. st)) 8 (\<lambda>i. 100)
      (captured blank_packet small_capture) [sample_env 102] s"
proof -
  let ?rte = "(small_Rte 10)\<lparr>is_gzip := True\<rparr>"
  have rte: "small_files (pcap_file ?rte) = Some (capture_file (replicate 24 0) [small_capture])"
    "packet_core_num ?rte = int 8" "logger_core_num ?rte = 1" "is_gzip ?rte"
    using small_run(1,2) [of 10] by simp_all
  have clean: "\<forall>time k. (Map.empty :: disk) (log_path ''./log'' time (of_nat k) @ ''.gz'' @ ''.tmptmp'') = None" by simp
  show ?thesis
    using conc_capture_gzip [where fs = small_files and rds = small_rds and stops = "\<lambda>i k. False" and P = 8
        and old_disk = Map.empty and boot = "sample_env 100" and junk_char = "CHR 0x00",
      OF copy_zlib_laws copy_zlib_works rte(1) length_replicate small_files_ok(2) small_capture_all quiet_zeros(2) rte(2) small_total(3,4)
        rte(3,4) affinity_law small_run(3) refl small_total(1) small_run(5-8) clean,
      unfolded small_run(10) small_total(2)]
    by (elim exE conjE) (drule small_state, blast)
qed

end
