(* ===== verification/Spec2Isabelle.thy ===== *)
theory Spec2Isabelle
  imports Ring_Stale Ring_C Ring_Buffer Rw_Lock Clock_Time Auto_Timer Packet_Layout Logger_Vector Conc_App
begin

text \<open>
  A verification library for the packet logger (executable \<^verbatim>\<open>logger_test\<close>): a program that reads a capture
  file, pushes its packets from several threads through a lock-free ring into a logger, and has
  the logger write them as text lines to rotating files, while a command line controls it.

  \<^bold>\<open>Parts and how they interact.\<close>
  \<^item> \<^verbatim>\<open>Rte\<close> (\<^verbatim>\<open>rte.cpp\<close>) reads the settings from \<^verbatim>\<open>.config\<close>, with the string functions of \<^verbatim>\<open>util.cpp\<close>.
  \<^item> \<^verbatim>\<open>PcapReader\<close> (\<^verbatim>\<open>pcap.cc\<close>, with \<^verbatim>\<open>file_reader.cpp\<close> and the byte order of \<^verbatim>\<open>port_posix.h\<close>) parses the capture
    and deals its TCP and UDP packets into one group per packet thread.
  \<^item> Each packet thread (\<^verbatim>\<open>PacketGet\<close> in \<^verbatim>\<open>logger_test.cpp\<close>) pushes its group into the logger a hundred
    times; the ring below (\<^verbatim>\<open>buffer_ring.h\<close>) takes the concurrent pushes.
  \<^item> The logger thread (\<^verbatim>\<open>LoggerWrite\<close>) calls \<^verbatim>\<open>checkRotate\<close> (\<^verbatim>\<open>logger.cpp\<close>), which drains the ring, makes lines
    and writes files, plain or through \<^verbatim>\<open>GzipHelper\<close> (\<^verbatim>\<open>gziphelper.cpp\<close>).
  \<^item> The command thread (\<^verbatim>\<open>CmdLineProcess\<close>) edits commands with \<^verbatim>\<open>CmdLine\<close> (\<^verbatim>\<open>access_cmdline.cpp\<close>) and sets the
    flags the other threads read.
  \<^item> \<^verbatim>\<open>buffer_ring_c.h\<close> (the ring in C), \<^verbatim>\<open>ring_buffer.h\<close> (an older half-buffer ring), \<^verbatim>\<open>rwlock.h\<close> and
    \<^verbatim>\<open>clock_time.h\<close> are libraries of the same repository.

  \<^bold>\<open>Theories.\<close>
  \<^item> \<open>Prelude\<close>: word widths, arrays with checked access, circular arrays as lists. \<open>Pow2\<close>: \<open>IsPowerOf2\<close> and
    \<open>RoundupPowerOf2\<close>. \<open>Ring_Copy\<close>: the unrolled copy macros \<open>ENQUEUE_PTRS\<close>, \<open>DEQUEUE_PTRS\<close>, equal to the
    plain circular loop.
  \<^item> \<open>Bounded_Queue\<close>: the contract of the rings as the locales \<open>bounded_queue\<close> and \<open>counted_queue\<close>; \<open>Buff_Ring\<close>
    (class template) and \<open>Ring_C\<close> (C functions) interpret them. \<open>Ring_C\<close> also shows that the worker
    functions of the two, run by one thread, compute the same. The state is the record of the class's fields; \<open>ring_ok\<close> is its invariant and
    \<open>ring_contents\<close> its abstraction to a list, so the refinement lemmas read as list operations.
  \<^item> \<open>Ring_Conc\<close>: the same operations cut into the atomic steps of any number of producers and
    consumers (\<open>producer_step\<close>, \<open>consumer_step\<close>), for all settings of \<^verbatim>\<open>single_producer\<close> and
    \<^verbatim>\<open>single_consumer\<close>. \<open>Ring_Inv\<close>: its invariant, by rule induction. \<open>Ring_Run\<close>: what follows from it:
    every step is invisible or an operation of a shared queue, delivery is first-in first-out, slots
    are exclusive, nothing deadlocks; and what happens when two threads consume from a ring for a
    single consumer. \<open>Ring_Solo\<close>: a thread that runs its steps undisturbed does what the sequential
    function of \<open>Buff_Ring\<close> does. \<open>Ring_Stale\<close>: a producer that sleeps through \<open>2^32\<close> reservations overruns
    the ring, which is why the other theorems leave such runs out. \<open>Rw_Lock\<close>: the lock as thread steps, mutual exclusion and progress.
  \<^item> \<open>Ring_Buffer\<close>: \<open>RingBuff\<close> with its wrap-around of the 32-bit positions and, with \<open>Put\<close> and
    \<open>GetHalf\<close> cut into their reads and writes of the positions (\<open>put_step\<close>), its races.
  \<^item> \<open>Endian\<close>, \<open>Pcap\<close>: byte order, the parser and the reader over a memory of bytes. \<open>Packet_Layout\<close>: the
    packed structures of \<^verbatim>\<open>packet.h\<close>, the offsets in them, and how far the parser reads. \<open>Util_Str\<close>, \<open>Rte\<close>: string
    functions and settings. \<open>Clock_Time\<close>: the stop watch. \<open>Auto_Timer\<close>: the
    timing messages of \<^verbatim>\<open>util.h\<close>.
  \<^item> \<open>Format\<close>, \<open>Pcap_Text\<close>: the conversions of \<^verbatim>\<open>printf\<close> and the printed form of addresses, packets and headers;
    a printed address can be read back.
  \<^item> \<open>Gzip\<close>: \<open>GzipHelper\<close> over an abstract zlib: the buffer holds exactly what the stream has produced
    (\<open>gz_inv\<close>), from which memory safety and losslessness follow.
  \<^item> \<open>Logger\<close>: \<open>BasicBusinessLogger\<close>: the record of its fields, one definition per member function, the
    lines, and the files of a rotation through the locale \<open>numbered_files\<close> (interpreted on the file names
    of \<open>outputFile\<close>). \<open>Log_Sink\<close>: what \<open>checkRotate\<close> relies on in the place where lines are kept, as the
    locales \<open>log_sink\<close> and \<open>file_sink\<close>; rotations and runs are verified once over them. \<open>Logger_Plain\<close>
    interprets them on the text buffer (conservation of the lines, and the two defects of
    \<open>checkRotate\<close>), \<open>Logger_Gzip\<close> on the compression buffer. \<open>Logger_Vector\<close>: the same logger compiled
    with \<^verbatim>\<open>VECTOR_TEST\<close>, over the same interface, with its mutex, which the code leaves uninitialised.
  \<^item> \<open>Cmd_Line\<close>: \<open>CmdLine\<close>, one definition per key, with the bytes each writes; completion and history.
    \<open>Console\<close>: a terminal line and the proof that every key keeps the display equal to the editing state;
    the command thread.
  \<^item> \<open>Threads\<close>: the class \<open>Thread\<close>, the bodies of the threads, the initialisation and \<open>main\<close>. \<open>App\<close>: the
    threads together: their events interleaved into one run of the logger, the exit code of the
    program, and the property that spans the components, from a capture file to the contents of the
    log files.
  \<^item> \<open>Conc_Log\<close>: the same threads interleaved at every access to the ring, with packet threads inside
    \<open>push_back\<close> and the logger thread inside \<open>checkRotate\<close> (\<open>app_step\<close>); the account of each thread's
    packets. \<open>Conc_Files\<close>: the invariant of what is written, over the locale \<open>log_sink\<close>. \<open>Conc_Done\<close>:
    from every reachable state there are steps to one in which all is done. \<open>Conc_App\<close>: from the
    capture file to the log files in every reachable state, in plain and in compressed mode, and at the end.

  \<^bold>\<open>Conventions.\<close> A result \<open>None\<close> is undefined behaviour of the source: an access outside an array, an
  uninitialised variable or pointer, a division by zero, an exception of the standard library nobody
  catches, or a loop that never ends (\<open>partial_function\<close>); a theorem with \<open>Some\<close> therefore states that
  none of these happens. Machine integers are words of their width. What one thread alone does is a
  function on the state record; what several threads do is a step relation on sequentially
  consistent memory, where a compare-and-swap is one step. The heads and tails of the class template are
  plain variables (\<^verbatim>\<open>volatile\<close> is commented out); that the compiler reads and writes them in the order of
  the source is an assumption of the model. The runs of \<open>reach\<close> are those in which threads
  keep to the flags of the ring and no thread sleeps between its read of a head and its
  compare-and-swap while \<open>2^32\<close> entries are reserved (\<open>fresh\<close>).

  \<^bold>\<open>Parameters\<close> stand for what is not under \<^verbatim>\<open>src/\<close>: the contents of files, clocks and the local time, the
  paths that can be opened, the processors, uninitialised memory, the bytes typed, the bytes behind the
  block of \<^verbatim>\<open>malloc\<close>, the terminal, and zlib.
  \<^item> The reader looks behind its block at the end of every file, which is undefined; where it is said to
    return, 30 bytes there can be read and do not look like an IPv4 frame (\<open>quiet\<close>). Which packets of
    a capture are TCP and UDP packets, and their addresses and ports, is read off the bytes of the frames by \<open>captured\<close>,
    independently of the parser.
  \<^item> What the code relies on in zlib is the predicate \<open>zlib_laws\<close>, the documented behaviour of \<^verbatim>\<open>deflate\<close>, and, where no
    call may fail, \<open>zlib_works\<close>; they hold for the storing compressors \<open>store_zlib\<close> and \<open>copy_zlib\<close>.
    The code also takes \<^verbatim>\<open>front()\<close> of a vector of size 0 for the start of its capacity, which the language leaves
    undefined: \<open>front_unchecked\<close>, part of \<open>library_laws\<close>, says that it is, and where it is not the
    calls are \<open>None\<close>.
  \<^item> The locale \<open>terminal\<close> says how printable characters, backspaces and newlines are shown.
  \<^item> The theorems on rotations suppose that \<open>checkRotate\<close> is called on time (\<open>on_time\<close>), in seconds of their own, and
    that every path can be opened; what happens otherwise is stated too.

  The runs of \<open>Log_Sink\<close> take each push and each rotation as one event; \<open>Conc_App\<close> shows the same result
  without that. Its bound of \<open>2^30\<close> pushes excludes that a sleeping thread misses a whole turn of
  the 32-bit positions.

  \<^bold>\<open>Bounds.\<close> The loops are structural or have a termination proof (\<open>read_loop\<close> by the offset, \<open>config_loop\<close>
  and \<open>history_loop\<close> by the rest of the file, \<open>packet_rounds\<close> by the rounds left); no fuel is used.
  \<open>RoundupPowerOf2\<close> and the waiting loops are \<open>partial_function\<close>s, shown to return or not.

  \<^bold>\<open>Not modelled.\<close> Progress messages to the console, freeing memory, the rates
  that \<^verbatim>\<open>PacketGet\<close> and \<^verbatim>\<open>ClockTime\<close> print in floating point, the settings of the terminal driver, the
  clock of \<^verbatim>\<open>__MACH__\<close>, the static destructor of \<^verbatim>\<open>gLogger\<close> (a last \<^verbatim>\<open>checkRotate\<close> after \<^verbatim>\<open>main\<close>), weak memory effects, and the test programs \<^verbatim>\<open>rb_test.cc\<close> and \<^verbatim>\<open>gzip_test.cc\<close>.
  \<open>main\<close> starts and joins the threads; what their bodies do in between is the subject of \<open>App\<close> and \<open>Conc_App\<close>.
  A short write to a disk that is full is not modelled; a file that cannot be opened is.
\<close>

end
